(* ===== verification/Prelude.thy ===== *)
theory Prelude
  imports Main "HOL-Library.Word"
begin

text \<open>
  Shared vocabulary of the development: the machine types of the storage engine, the
  theorem collections its component proofs draw on, and the generic lemmas on words and
  lists that several components use.

  A C++ \<open>Slice\<close> or \<open>std::string\<close> is the list of its bytes; a pointer into a buffer is the
  list of the bytes from there to the buffer's limit. A parser that advances its input
  returns the new input next to its result, also when it fails.
\<close>

unbundle bit_operations_syntax

type_synonym byte = "8 word"
type_synonym u16 = "16 word"
type_synonym u32 = "32 word"
type_synonym u64 = "64 word"
type_synonym slice = "byte list"

named_theorems codec_simps \<open>length and shape of encoded values\<close>
named_theorems codec_round \<open>decoding what was encoded\<close>

section \<open>Words\<close>

lemma word_lt_2p_bits:
  fixes v :: "'a::len word"
  assumes "unat v < 2 ^ n" and "n \<le> i"
  shows "\<not> bit v i"
proof -
  have "take_bit n (unat v) = unat v" using assms(1) by (simp add: take_bit_nat_eq_self)
  then have "\<not> bit (unat v) i"
    using assms(2) by (metis bit_take_bit_iff not_le)
  then show ?thesis by (auto simp: bit_unsigned_iff)
qed

text \<open>The simplifier reads a bit of a word literal off the integer literal.\<close>

lemma bit_int_consts:
  "bit (255 :: int) n \<longleftrightarrow> n < 8"
  "bit (127 :: int) n \<longleftrightarrow> n < 7"
  "bit (128 :: int) n \<longleftrightarrow> n = 7"
proof -
  have "(255 :: int) = mask 8" "(127 :: int) = mask 7" "(128 :: int) = 2 ^ 7"
    by (simp_all add: mask_eq_exp_minus_1)
  then show "bit (255 :: int) n \<longleftrightarrow> n < 8" "bit (127 :: int) n \<longleftrightarrow> n < 7"
      "bit (128 :: int) n \<longleftrightarrow> n = 7"
    by (auto simp only: bit_mask_iff bit_exp_iff possible_bit_int)
qed

lemma take_bit_or_push_bit:
  fixes v :: "'a::len word"
  shows "take_bit s v OR push_bit s (take_bit m (drop_bit s v)) = take_bit (s + m) v"
  by (rule bit_word_eqI) (auto simp: bit_simps not_less)

lemma ucast_AND_255 [simp]:
  fixes v :: "'a::len word"
  shows "(ucast (v AND 255) :: byte) = ucast v"
  by (rule bit_word_eqI) (auto simp: bit_int_consts bit_simps dest: bit_imp_le_length)

lemma unat_ucast_up:
  fixes w :: "'a::len word"
  assumes "LENGTH('a) \<le> LENGTH('b::len)"
  shows "unat (ucast w :: 'b word) = unat w"
proof -
  have "unat w < 2 ^ LENGTH('a)" by (rule unsigned_less)
  also have "\<dots> \<le> 2 ^ LENGTH('b)" using assms by simp
  finally show ?thesis by (simp add: unsigned_ucast_eq take_bit_nat_eq_self)
qed

lemma unat_lt_2p_32: "unat (w :: u32) < 4294967296"
  using unsigned_less [of w, where 'a = nat] by simp

lemma unat_lt_2p_64: "unat (w :: u64) < 18446744073709551616"
  using unsigned_less [of w, where 'a = nat] by simp

section \<open>Lists\<close>

lemma take_append_exact [simp]: "n = length xs \<Longrightarrow> take n (xs @ ys) = xs"
  by simp

lemma drop_append_exact [simp]: "n = length xs \<Longrightarrow> drop n (xs @ ys) = ys"
  by simp

lemma bit_byte_out [simp]: "8 \<le> n \<Longrightarrow> \<not> bit (b :: byte) n"
  using bit_imp_le_length [of b n] by auto

lemma all_from_step:
  "i < n \<Longrightarrow> (\<forall>j. i \<le> j \<and> j < n \<longrightarrow> P j) \<longleftrightarrow> P i \<and> (\<forall>j. Suc i \<le> j \<and> j < n \<longrightarrow> P j)"
  by (auto simp: Suc_le_eq order.order_iff_strict [of i])

lemma all_from_Suc:
  "(\<forall>j. Suc i \<le> j \<and> j < Suc n \<longrightarrow> P j) \<longleftrightarrow> (\<forall>j. i \<le> j \<and> j < n \<longrightarrow> P (Suc j))"
proof
  assume *: "\<forall>j. i \<le> j \<and> j < n \<longrightarrow> P (Suc j)"
  show "\<forall>j. Suc i \<le> j \<and> j < Suc n \<longrightarrow> P j"
  proof (intro allI impI)
    fix j
    assume "Suc i \<le> j \<and> j < Suc n"
    then show "P j" using * by (cases j) auto
  qed
qed auto

lemma ucast_of_nat_up:
  "n < 2 ^ LENGTH('a) \<Longrightarrow> LENGTH('a) \<le> LENGTH('b) \<Longrightarrow>
   ucast (of_nat n :: 'a::len word) = (of_nat n :: 'b::len word)"
  by (simp add: unsigned_of_nat take_bit_nat_eq_self)

lemma ucast_of_nat_down:
  "LENGTH('b) \<le> LENGTH('a) \<Longrightarrow> ucast (of_nat n :: 'a::len word) = (of_nat n :: 'b::len word)"
  by (rule bit_word_eqI) (auto simp: bit_ucast_iff bit_of_nat_iff)

lemma unat_of_nat_small: "n < 2 ^ LENGTH('a) \<Longrightarrow> unat (of_nat n :: 'a::len word) = n"
  by (simp add: unat_of_nat)

end
