(* ===== verification/Slices.thy ===== *)
theory Slices
  imports Prelude "HOL-Library.List_Lexorder"
begin

text \<open>
  The \<open>Slice\<close> operations of \<open>include/rocksdb/slice.h\<close> and \<open>util/slice.cc\<close>: three-way
  comparison, prefix and suffix tests, the first differing offset, hexadecimal printing and
  parsing, and the prefix transforms used as prefix extractors. Bytes are unsigned, so the
  lexicographic order of the library on byte lists is the order \<open>memcmp\<close> decides.
\<close>

unbundle bit_operations_syntax

section \<open>Comparison\<close>

text \<open>
  \<open>memcmp\<close> of the C library on the first \<open>n\<close> bytes; the standard fixes only its sign.
\<close>

fun memcmp :: "slice \<Rightarrow> slice \<Rightarrow> nat \<Rightarrow> int" where
  "memcmp (a # as) (b # bs) (Suc n) =
     (if a = b then memcmp as bs n else if a < b then -1 else 1)"
| "memcmp _ _ _ = 0"

definition Slice_eq :: "slice \<Rightarrow> slice \<Rightarrow> bool" where
  "Slice_eq x y \<longleftrightarrow> length x = length y \<and> memcmp x y (length x) = 0"

definition compare :: "slice \<Rightarrow> slice \<Rightarrow> int" where
  "compare a b =
     (let min_len = (if length a < length b then length a else length b);
          r = memcmp a b min_len
      in if r = 0 then
           (if length a < length b then -1
            else if length a > length b then 1 else r)
         else r)"

definition starts_with :: "slice \<Rightarrow> slice \<Rightarrow> bool" where
  "starts_with s x \<longleftrightarrow> length s \<ge> length x \<and> memcmp s x (length x) = 0"

definition ends_with :: "slice \<Rightarrow> slice \<Rightarrow> bool" where
  "ends_with s x \<longleftrightarrow>
     length s \<ge> length x \<and> memcmp (drop (length s - length x) s) x (length x) = 0"

function difference_offset_loop :: "slice \<Rightarrow> slice \<Rightarrow> nat \<Rightarrow> nat \<Rightarrow> nat" where
  "difference_offset_loop a b len off =
     (if off < len then
        (if a ! off \<noteq> b ! off then off else difference_offset_loop a b len (off + 1))
      else off)"
  by pat_completeness auto
termination
  by (relation "measure (\<lambda>(a, b, len, off). len - off)") auto

declare difference_offset_loop.simps [simp del]

definition difference_offset :: "slice \<Rightarrow> slice \<Rightarrow> nat" where
  "difference_offset a b =
     (let len = (if length a < length b then length a else length b)
      in difference_offset_loop a b len 0)"

definition remove_prefix :: "slice \<Rightarrow> nat \<Rightarrow> slice" where
  "remove_prefix s n = drop n s"

definition remove_suffix :: "slice \<Rightarrow> nat \<Rightarrow> slice" where
  "remove_suffix s n = take (length s - n) s"

section \<open>Hexadecimal form\<close>

definition toHex :: "byte \<Rightarrow> byte" where
  "toHex v = (if v \<le> 9 then 48 + v else 65 + v - 10)"

definition fromHex :: "byte \<Rightarrow> int" where
  "fromHex c =
     (let c = (if c \<ge> 97 \<and> c \<le> 102 then c - (97 - 65) else c)
      in if c < 48 \<or> (c > 57 \<and> (c < 65 \<or> c > 70)) then -1
         else if c \<le> 57 then uint c - 48
         else uint c - 65 + 10)"

definition ToString :: "slice \<Rightarrow> bool \<Rightarrow> slice" where
  "ToString s hex =
     (if hex then concat (map (\<lambda>c. [toHex (drop_bit 4 c), toHex (c AND 15)]) s) else s)"

fun DecodeHex_loop :: "slice \<Rightarrow> slice \<Rightarrow> bool \<times> slice" where
  "DecodeHex_loop (c1 # c2 # s) result =
     (let h1 = fromHex c1 in
      if h1 < 0 then (False, result)
      else let h2 = fromHex c2 in
      if h2 < 0 then (False, result)
      else DecodeHex_loop s (result @ [word_of_int (push_bit 4 h1 OR h2)]))"
| "DecodeHex_loop _ result = (True, result)"

text \<open>
  \<open>result\<close> is the string behind the pointer argument, or None for a null pointer; the new
  value is returned next to the success flag.
\<close>

definition DecodeHex :: "slice \<Rightarrow> slice option \<Rightarrow> bool \<times> slice option" where
  "DecodeHex s result =
     (if length s mod 2 \<noteq> 0 then (False, result)
      else case result of
        None \<Rightarrow> (False, None)
      | Some _ \<Rightarrow> (let (ok, r) = DecodeHex_loop s [] in (ok, Some r)))"

section \<open>Prefix transforms\<close>

text \<open>
  A transform is the record of the virtual functions the engine calls.
\<close>

record slice_transform =
  Transform :: "slice \<Rightarrow> slice"
  InDomain :: "slice \<Rightarrow> bool"
  InRange :: "slice \<Rightarrow> bool"
  SameResultWhenAppended :: "slice \<Rightarrow> bool"

definition FixedPrefixTransform :: "nat \<Rightarrow> slice_transform" where
  "FixedPrefixTransform prefix_len =
     \<lparr>Transform = (\<lambda>src. take prefix_len src),
      InDomain = (\<lambda>src. length src \<ge> prefix_len),
      InRange = (\<lambda>dst. length dst = prefix_len),
      SameResultWhenAppended = (\<lambda>prefix. length prefix \<ge> prefix_len)\<rparr>"

definition CappedPrefixTransform :: "nat \<Rightarrow> slice_transform" where
  "CappedPrefixTransform cap_len =
     \<lparr>Transform = (\<lambda>src. take (min cap_len (length src)) src),
      InDomain = (\<lambda>_. True),
      InRange = (\<lambda>dst. length dst \<le> cap_len),
      SameResultWhenAppended = (\<lambda>prefix. length prefix \<ge> cap_len)\<rparr>"

definition NoopTransform :: slice_transform where
  "NoopTransform =
     \<lparr>Transform = (\<lambda>src. src), InDomain = (\<lambda>_. True), InRange = (\<lambda>_. True),
      SameResultWhenAppended = (\<lambda>_. False)\<rparr>"

section \<open>Comparison is the lexicographic order\<close>

lemma memcmp_self [simp]: "memcmp a a n = 0"
proof (induction a arbitrary: n)
  case (Cons x a)
  then show ?case by (cases n) auto
qed simp

lemma memcmp_eq_0_iff: "n \<le> length a \<Longrightarrow> n \<le> length b \<Longrightarrow> memcmp a b n = 0 \<longleftrightarrow> take n a = take n b"
  by (induction a b n rule: memcmp.induct) (auto split: if_splits)

lemma memcmp_values: "memcmp a b n \<in> {-1, 0, 1}"
  by (induction a b n rule: memcmp.induct) auto

lemma compare_Nil [simp]:
  "compare [] [] = 0" "compare [] (b # bs) = -1" "compare (a # as) [] = 1"
  by (simp_all add: compare_def)

lemma compare_Cons [simp]:
  "compare (a # as) (b # bs) = (if a = b then compare as bs else if a < b then -1 else 1)"
  by (auto simp: compare_def Let_def)

lemma compare_cases: "compare a b = (if a = b then 0 else if a < b then -1 else 1)"
proof (induction a arbitrary: b)
  case Nil
  then show ?case by (cases b) auto
next
  case (Cons x a)
  then show ?case by (cases b) auto
qed

lemma compare_iffs:
  "compare a b = 0 \<longleftrightarrow> a = b" "compare a b < 0 \<longleftrightarrow> a < b" "compare a b \<le> 0 \<longleftrightarrow> a \<le> b"
  "compare a b > 0 \<longleftrightarrow> b < a" "compare a b \<ge> 0 \<longleftrightarrow> b \<le> a"
  by (auto simp: compare_cases)

lemma Slice_eq_iff [simp]: "Slice_eq a b \<longleftrightarrow> a = b"
  by (auto simp: Slice_eq_def memcmp_eq_0_iff)

lemma starts_with_iff: "starts_with s x \<longleftrightarrow> (\<exists>r. s = x @ r)"
proof
  assume "starts_with s x"
  then have "s = x @ drop (length x) s"
    using memcmp_eq_0_iff [of "length x" s x]
    by (auto simp: starts_with_def) (metis append_take_drop_id)
  then show "\<exists>r. s = x @ r" ..
qed (auto simp: starts_with_def memcmp_eq_0_iff)

lemma ends_with_iff: "ends_with s x \<longleftrightarrow> (\<exists>r. s = r @ x)"
proof
  assume "ends_with s x"
  then have "s = take (length s - length x) s @ x"
    using memcmp_eq_0_iff [of "length x" "drop (length s - length x) s" x]
    by (auto simp: ends_with_def) (metis append_take_drop_id)
  then show "\<exists>r. s = r @ x" ..
qed (auto simp: ends_with_def memcmp_eq_0_iff)

section \<open>The first difference\<close>

lemma difference_offset_loop_Cons:
  "difference_offset_loop (a # as) (b # bs) (Suc len) (Suc off) =
     Suc (difference_offset_loop as bs len off)"
proof (induction as bs len off rule: difference_offset_loop.induct)
  case (1 as bs len off)
  then show ?case
    by (auto simp: difference_offset_loop.simps [of "a # as" "b # bs"]
        difference_offset_loop.simps [of as bs len off])
qed

lemma difference_offset_simps [simp]:
  "difference_offset [] ys = 0" "difference_offset xs [] = 0"
  "difference_offset (a # as) (b # bs) = (if a = b then Suc (difference_offset as bs) else 0)"
proof -
  show "difference_offset [] ys = 0" "difference_offset xs [] = 0"
    by (auto simp: difference_offset_def difference_offset_loop.simps [of _ _ 0])
  have *: "difference_offset_loop (a # as) (b # bs) (Suc n) 0 =
      (if a = b then Suc (difference_offset_loop as bs n 0) else 0)" for n a b
    by (subst difference_offset_loop.simps) (simp add: difference_offset_loop_Cons)
  show "difference_offset (a # as) (b # bs) = (if a = b then Suc (difference_offset as bs) else 0)"
    by (simp add: difference_offset_def Let_def *)
qed

lemma difference_offset_loop_le: "off \<le> len \<Longrightarrow> difference_offset_loop a b len off \<le> len"
proof (induction a b len off rule: difference_offset_loop.induct)
  case (1 a b len off)
  then show ?case by (auto simp: difference_offset_loop.simps [of a b len off])
qed

text \<open>Either one slice is a prefix of the other, or they split at a differing byte.\<close>

lemma difference_offset_split:
  assumes "difference_offset a b < min (length a) (length b)"
  obtains p x y a' b' where "a = p @ x # a'" and "b = p @ y # b'" and "x \<noteq> y"
    and "length p = difference_offset a b"
proof -
  have "\<exists>p x y a' b'. a = p @ x # a' \<and> b = p @ y # b' \<and> x \<noteq> y \<and> length p = difference_offset a b"
    using assms
  proof (induction a arbitrary: b)
    case (Cons x a)
    then show ?case
    proof (cases b)
      case (Cons y b')
      show ?thesis
      proof (cases "x = y")
        case True
        with Cons Cons.prems have "difference_offset a b' < min (length a) (length b')" by simp
        from Cons.IH [OF this] obtain p u v a1 b1 where
          "a = p @ u # a1" "b' = p @ v # b1" "u \<noteq> v" "length p = difference_offset a b'" by blast
        then have "x # a = (x # p) @ u # a1 \<and> b = (x # p) @ v # b1 \<and> u \<noteq> v \<and>
            length (x # p) = difference_offset (x # a) b"
          using True Cons by simp
        then show ?thesis by blast
      next
        case False
        then have "x # a = [] @ x # a \<and> b = [] @ y # b' \<and> x \<noteq> y \<and>
            length [] = difference_offset (x # a) b"
          using Cons by simp
        then show ?thesis by blast
      qed
    qed simp
  qed simp
  then show ?thesis using that by blast
qed

lemma difference_offset_common:
  "difference_offset a b \<le> length a \<and> difference_offset a b \<le> length b \<and>
   take (difference_offset a b) a = take (difference_offset a b) b"
proof (induction a arbitrary: b)
  case (Cons x a)
  then show ?case by (cases b) auto
qed simp

section \<open>Hexadecimal round trip\<close>

lemma fromHex_toHex:
  assumes "v < 16"
  shows "fromHex (toHex v) = uint v"
proof -
  have all: "list_all (\<lambda>v. fromHex (toHex v) = uint v) (map of_nat [0..<16])"
    by code_simp
  have "unat v < 16" using assms by (simp add: word_less_nat_alt)
  then have "v \<in> set (map of_nat [0..<16])"
    unfolding list.set_map by (intro image_eqI [where x = "unat v"]) simp_all
  with all show ?thesis unfolding list_all_iff by blast
qed

lemma nibbles:
  fixes c :: byte
  shows "drop_bit 4 c < 16" and "c AND 15 < 16"
    and "word_of_int (push_bit 4 (uint (drop_bit 4 c)) OR uint (c AND 15)) = c"
proof -
  have m: "(15 :: byte) = mask 4" by (simp add: mask_eq_exp_minus_1)
  have hi: "drop_bit 4 c = take_bit 4 (drop_bit 4 c)"
    by (rule bit_word_eqI) (auto simp: bit_simps dest: bit_imp_le_length)
  have lt: "take_bit 4 w < (16 :: byte)" for w :: byte
    unfolding word_less_nat_alt unsigned_take_bit_eq using take_bit_nat_less_exp [of 4 "unat w"]
    by simp
  show "drop_bit 4 c < 16" using lt [of "drop_bit 4 c"] hi by simp
  show "c AND 15 < 16" using lt [of c] unfolding m take_bit_eq_mask .
  show "word_of_int (push_bit 4 (uint (drop_bit 4 c)) OR uint (c AND 15)) = c"
    unfolding m by (rule bit_word_eqI) (auto simp: bit_simps)
qed

lemma DecodeHex_loop_hex: "DecodeHex_loop (ToString s True) r = (True, r @ s)"
proof (induction s arbitrary: r)
  case Nil
  then show ?case by (simp add: ToString_def)
next
  case (Cons c s)
  have "ToString (c # s) True = toHex (drop_bit 4 c) # toHex (c AND 15) # ToString s True"
    by (simp add: ToString_def)
  moreover have "\<not> uint (drop_bit 4 c) < 0" "\<not> uint (c AND 15) < 0" by simp_all
  ultimately show ?case
    by (simp only: DecodeHex_loop.simps fromHex_toHex nibbles Let_def Cons.IH if_False) simp
qed

section \<open>The slice contracts\<close>

text \<open>
  C32: Printing a slice in hexadecimal and decoding the text gives the slice back.
\<close>

theorem hex_round_trip: "DecodeHex (ToString s True) (Some r) = (True, Some s)"
proof -
  have "length (ToString s True) mod 2 = 0"
    by (induction s) (auto simp: ToString_def)
  then show ?thesis by (simp add: DecodeHex_def DecodeHex_loop_hex)
qed

text \<open>
  C31: \<open>Slice::compare\<close> is the lexicographic order of the unsigned bytes, \<open>==\<close> is equality,
  and \<open>starts_with\<close> and \<open>ends_with\<close> test for a prefix and a suffix.
\<close>

theorem Slice_compare_lexicographic:
  "compare a b = (if a = b then 0 else if a < b then -1 else 1) \<and>
   Slice_eq a b = (a = b) \<and>
   starts_with a b = (\<exists>r. a = b @ r) \<and> ends_with a b = (\<exists>r. a = r @ b)"
  by (simp add: compare_cases starts_with_iff ends_with_iff)

end
