(* ===== verification/Coding.thy ===== *)
theory Coding
  imports Prelude
begin

text \<open>
  The byte-level encodings of \<open>util/coding_lean.h\<close>, \<open>util/coding.h\<close> and \<open>util/coding.cc\<close>:
  little-endian fixed-width integers, base-128 varints, zigzag, length-prefixed slices.
  Every on-disk format of the engine (log records, write batches, internal keys, blocks,
  footers, version edits) is built from them.

  The \<open>Encode\<close> functions return the bytes they store through the buffer pointer. The
  \<open>Put\<close> functions take the destination string and return it extended. The \<open>Get\<close> functions
  return the parsed value, or None for the boolean \<open>false\<close>, together with the new value of
  \<open>*input\<close>. The locale \<open>codec\<close> is the contract the clients of the encodings rely on.
\<close>

unbundle bit_operations_syntax

section \<open>Fixed-width integers\<close>

text \<open>
  On a little-endian host the functions copy the object representation, elsewhere they
  store byte by byte; both branches produce these bytes.
\<close>

definition EncodeFixed16 :: "u16 \<Rightarrow> slice" where
  "EncodeFixed16 value = [ucast (value AND 255), ucast (drop_bit 8 value AND 255)]"

definition EncodeFixed32 :: "u32 \<Rightarrow> slice" where
  "EncodeFixed32 value =
     [ucast (value AND 255), ucast (drop_bit 8 value AND 255),
      ucast (drop_bit 16 value AND 255), ucast (drop_bit 24 value AND 255)]"

definition EncodeFixed64 :: "u64 \<Rightarrow> slice" where
  "EncodeFixed64 value =
     [ucast (value AND 255), ucast (drop_bit 8 value AND 255),
      ucast (drop_bit 16 value AND 255), ucast (drop_bit 24 value AND 255),
      ucast (drop_bit 32 value AND 255), ucast (drop_bit 40 value AND 255),
      ucast (drop_bit 48 value AND 255), ucast (drop_bit 56 value AND 255)]"

text \<open>
  The decoders read without bounds checks: they are only meant for a pointer with enough
  bytes behind it, and their callers below check that first.
\<close>

definition DecodeFixed16 :: "slice \<Rightarrow> u16" where
  "DecodeFixed16 ptr = ucast (ptr ! 0) OR push_bit 8 (ucast (ptr ! 1))"

definition DecodeFixed32 :: "slice \<Rightarrow> u32" where
  "DecodeFixed32 ptr =
     ucast (ptr ! 0) OR push_bit 8 (ucast (ptr ! 1)) OR
     push_bit 16 (ucast (ptr ! 2)) OR push_bit 24 (ucast (ptr ! 3))"

definition DecodeFixed64 :: "slice \<Rightarrow> u64" where
  "DecodeFixed64 ptr =
     (let lo = ucast (DecodeFixed32 ptr); hi = ucast (DecodeFixed32 (drop 4 ptr))
      in push_bit 32 hi OR lo)"

definition PutFixed16 :: "slice \<Rightarrow> u16 \<Rightarrow> slice" where
  "PutFixed16 dst value = dst @ EncodeFixed16 value"

definition PutFixed32 :: "slice \<Rightarrow> u32 \<Rightarrow> slice" where
  "PutFixed32 dst value = dst @ EncodeFixed32 value"

definition PutFixed64 :: "slice \<Rightarrow> u64 \<Rightarrow> slice" where
  "PutFixed64 dst value = dst @ EncodeFixed64 value"

definition GetFixed16 :: "slice \<Rightarrow> u16 option \<times> slice" where
  "GetFixed16 input =
     (if length input < 2 then (None, input) else (Some (DecodeFixed16 input), drop 2 input))"

definition GetFixed32 :: "slice \<Rightarrow> u32 option \<times> slice" where
  "GetFixed32 input =
     (if length input < 4 then (None, input) else (Some (DecodeFixed32 input), drop 4 input))"

definition GetFixed64 :: "slice \<Rightarrow> u64 option \<times> slice" where
  "GetFixed64 input =
     (if length input < 8 then (None, input) else (Some (DecodeFixed64 input), drop 8 input))"

section \<open>Varints\<close>

definition EncodeVarint32 :: "u32 \<Rightarrow> slice" where
  "EncodeVarint32 v =
     (let B = 128 in
      if v < push_bit 7 1 then [ucast v]
      else if v < push_bit 14 1 then [ucast (v OR B), ucast (drop_bit 7 v)]
      else if v < push_bit 21 1 then
        [ucast (v OR B), ucast (drop_bit 7 v OR B), ucast (drop_bit 14 v)]
      else if v < push_bit 28 1 then
        [ucast (v OR B), ucast (drop_bit 7 v OR B), ucast (drop_bit 14 v OR B),
         ucast (drop_bit 21 v)]
      else
        [ucast (v OR B), ucast (drop_bit 7 v OR B), ucast (drop_bit 14 v OR B),
         ucast (drop_bit 21 v OR B), ucast (drop_bit 28 v)])"

lemma drop_bit_7_less:
  fixes v :: "'a::len word"
  assumes "\<not> unat v < 128"
  shows "unat (drop_bit 7 v) < unat v"
proof -
  have "unat (drop_bit 7 v) = unat v div 128"
    by (subst unat_drop_bit_eq) (simp add: drop_bit_eq_div)
  then show ?thesis using assms by simp
qed

function EncodeVarint64 :: "u64 \<Rightarrow> slice" where
  "EncodeVarint64 v =
     (let B = 128 in
      if v \<ge> B then ucast ((v AND (B - 1)) OR B) # EncodeVarint64 (drop_bit 7 v)
      else [ucast v])"
  by pat_completeness auto
termination
  by (relation "measure unat") (auto simp: word_le_nat_alt intro!: drop_bit_7_less)

declare EncodeVarint64.simps [simp del]

fun GetVarint32PtrFallback_loop :: "nat \<Rightarrow> u32 \<Rightarrow> slice \<Rightarrow> (u32 \<times> slice) option" where
  "GetVarint32PtrFallback_loop shift result [] = None"
| "GetVarint32PtrFallback_loop shift result (b # p) =
     (if shift \<le> 28 then
        (let byte = ucast b in
         if byte AND 128 \<noteq> 0
         then GetVarint32PtrFallback_loop (shift + 7)
                (result OR push_bit shift (byte AND 127)) p
         else Some (result OR push_bit shift byte, p))
      else None)"

definition GetVarint32PtrFallback :: "slice \<Rightarrow> (u32 \<times> slice) option" where
  "GetVarint32PtrFallback p = GetVarint32PtrFallback_loop 0 0 p"

definition GetVarint32Ptr :: "slice \<Rightarrow> (u32 \<times> slice) option" where
  "GetVarint32Ptr p =
     (case p of
        b # p' \<Rightarrow>
          (let result = ucast b in
           if result AND 128 = 0 then Some (result, p') else GetVarint32PtrFallback p)
      | [] \<Rightarrow> GetVarint32PtrFallback p)"

fun GetVarint64Ptr_loop :: "nat \<Rightarrow> u64 \<Rightarrow> slice \<Rightarrow> (u64 \<times> slice) option" where
  "GetVarint64Ptr_loop shift result [] = None"
| "GetVarint64Ptr_loop shift result (b # p) =
     (if shift \<le> 63 then
        (let byte = ucast b in
         if byte AND 128 \<noteq> 0
         then GetVarint64Ptr_loop (shift + 7) (result OR push_bit shift (byte AND 127)) p
         else Some (result OR push_bit shift byte, p))
      else None)"

definition GetVarint64Ptr :: "slice \<Rightarrow> (u64 \<times> slice) option" where
  "GetVarint64Ptr p = GetVarint64Ptr_loop 0 0 p"

definition PutVarint32 :: "slice \<Rightarrow> u32 \<Rightarrow> slice" where
  "PutVarint32 dst v = dst @ EncodeVarint32 v"

definition PutVarint32Varint32 :: "slice \<Rightarrow> u32 \<Rightarrow> u32 \<Rightarrow> slice" where
  "PutVarint32Varint32 dst v1 v2 = dst @ (EncodeVarint32 v1 @ EncodeVarint32 v2)"

definition PutVarint32Varint32Varint32 :: "slice \<Rightarrow> u32 \<Rightarrow> u32 \<Rightarrow> u32 \<Rightarrow> slice" where
  "PutVarint32Varint32Varint32 dst v1 v2 v3 =
     dst @ (EncodeVarint32 v1 @ EncodeVarint32 v2 @ EncodeVarint32 v3)"

definition PutVarint64 :: "slice \<Rightarrow> u64 \<Rightarrow> slice" where
  "PutVarint64 dst v = dst @ EncodeVarint64 v"

definition PutVarint64Varint64 :: "slice \<Rightarrow> u64 \<Rightarrow> u64 \<Rightarrow> slice" where
  "PutVarint64Varint64 dst v1 v2 = dst @ (EncodeVarint64 v1 @ EncodeVarint64 v2)"

definition PutVarint32Varint64 :: "slice \<Rightarrow> u32 \<Rightarrow> u64 \<Rightarrow> slice" where
  "PutVarint32Varint64 dst v1 v2 = dst @ (EncodeVarint32 v1 @ EncodeVarint64 v2)"

definition PutVarint32Varint32Varint64 :: "slice \<Rightarrow> u32 \<Rightarrow> u32 \<Rightarrow> u64 \<Rightarrow> slice" where
  "PutVarint32Varint32Varint64 dst v1 v2 v3 =
     dst @ (EncodeVarint32 v1 @ EncodeVarint32 v2 @ EncodeVarint64 v3)"

definition GetVarint32 :: "slice \<Rightarrow> u32 option \<times> slice" where
  "GetVarint32 input =
     (case GetVarint32Ptr input of None \<Rightarrow> (None, input) | Some (v, q) \<Rightarrow> (Some v, q))"

definition GetVarint64 :: "slice \<Rightarrow> u64 option \<times> slice" where
  "GetVarint64 input =
     (case GetVarint64Ptr input of None \<Rightarrow> (None, input) | Some (v, q) \<Rightarrow> (Some v, q))"

function VarintLength_loop :: "u64 \<Rightarrow> u16 \<Rightarrow> u16" where
  "VarintLength_loop v len =
     (if v \<ge> 128 then VarintLength_loop (drop_bit 7 v) (len + 1) else len)"
  by pat_completeness auto
termination
  by (relation "measure (unat \<circ> fst)") (auto simp: word_le_nat_alt intro!: drop_bit_7_less)

declare VarintLength_loop.simps [simp del]

definition VarintLength :: "u64 \<Rightarrow> u16" where
  "VarintLength v = VarintLength_loop v 1"

section \<open>Zigzag and signed varints\<close>

text \<open>An \<open>int64_t\<close> is its 64-bit two's complement pattern; \<open>>>\<close> on it is arithmetic.\<close>

definition i64ToZigzag :: "u64 \<Rightarrow> u64" where
  "i64ToZigzag l = push_bit 1 l XOR signed_drop_bit 63 l"

definition zigzagToI64 :: "u64 \<Rightarrow> u64" where
  "zigzagToI64 n = drop_bit 1 n XOR - (n AND 1)"

definition GetVarsignedint64Ptr :: "slice \<Rightarrow> u64 \<times> slice option" where
  "GetVarsignedint64Ptr p =
     (case GetVarint64Ptr p of
        None \<Rightarrow> (zigzagToI64 0, None)
      | Some (u, ret) \<Rightarrow> (zigzagToI64 u, Some ret))"

definition PutVarsignedint64 :: "slice \<Rightarrow> u64 \<Rightarrow> slice" where
  "PutVarsignedint64 dst v = dst @ EncodeVarint64 (i64ToZigzag v)"

definition GetVarsignedint64 :: "slice \<Rightarrow> u64 option \<times> slice" where
  "GetVarsignedint64 input =
     (case GetVarsignedint64Ptr input of
        (value, None) \<Rightarrow> (None, input)
      | (value, Some q) \<Rightarrow> (Some value, q))"

section \<open>Length-prefixed slices\<close>

definition PutLengthPrefixedSlice :: "slice \<Rightarrow> slice \<Rightarrow> slice" where
  "PutLengthPrefixedSlice dst value = PutVarint32 dst (of_nat (length value)) @ value"

definition PutLengthPrefixedSliceParts_total :: "slice \<Rightarrow> nat \<Rightarrow> slice list \<Rightarrow> slice" where
  "PutLengthPrefixedSliceParts_total dst total_bytes slice_parts =
     (let total_bytes = foldl (\<lambda>t part. t + length part) total_bytes slice_parts
      in foldl (\<lambda>d part. d @ part) (PutVarint32 dst (of_nat total_bytes)) slice_parts)"

definition PutLengthPrefixedSliceParts :: "slice \<Rightarrow> slice list \<Rightarrow> slice" where
  "PutLengthPrefixedSliceParts dst slice_parts =
     PutLengthPrefixedSliceParts_total dst 0 slice_parts"

definition PutLengthPrefixedSlicePartsWithPadding ::
    "slice \<Rightarrow> slice list \<Rightarrow> nat \<Rightarrow> slice" where
  "PutLengthPrefixedSlicePartsWithPadding dst slice_parts pad_sz =
     PutLengthPrefixedSliceParts_total dst pad_sz slice_parts @ replicate pad_sz 0"

text \<open>When the length is read but too few bytes follow, the input stays advanced.\<close>

definition GetLengthPrefixedSlice :: "slice \<Rightarrow> slice option \<times> slice" where
  "GetLengthPrefixedSlice input =
     (case GetVarint32 input of
        (None, input) \<Rightarrow> (None, input)
      | (Some len, input) \<Rightarrow>
          if length input \<ge> unat len
          then (Some (take (unat len) input), drop (unat len) input)
          else (None, input))"

section \<open>The contract of an encoding\<close>

text \<open>
  An encoding is a pair of functions where decoding what was encoded, with anything behind
  it, gives the value back and leaves exactly what was behind it. That is all the clients
  of the encodings use; injectivity and unambiguous concatenation follow from it.
\<close>

locale codec =
  fixes enc :: "'a \<Rightarrow> slice"
    and dec :: "slice \<Rightarrow> 'a option \<times> slice"
    and ok :: "'a \<Rightarrow> bool"
  assumes dec_enc: "ok x \<Longrightarrow> dec (enc x @ r) = (Some x, r)"
begin

lemma dec_enc_nil: "ok x \<Longrightarrow> dec (enc x) = (Some x, [])"
  using dec_enc [of x "[]"] by simp

lemma enc_unambiguous:
  assumes "ok x" and "ok y" and "enc x @ r = enc y @ s"
  shows "x = y \<and> r = s"
proof -
  have "(Some x, r) = dec (enc y @ s)" using dec_enc [OF assms(1), of r] assms(3) by simp
  also have "\<dots> = (Some y, s)" using dec_enc [OF assms(2)] .
  finally show ?thesis by simp
qed

lemma enc_inj_on: "inj_on enc {x. ok x}"
  by (rule inj_onI) (use enc_unambiguous [where r = "[]" and s = "[]"] in auto)

end

section \<open>Round trips\<close>

lemma DecodeFixed16_EncodeFixed16: "DecodeFixed16 (EncodeFixed16 v @ r) = v"
  by (rule bit_word_eqI) (auto simp: DecodeFixed16_def EncodeFixed16_def bit_simps)

lemma DecodeFixed32_EncodeFixed32: "DecodeFixed32 (EncodeFixed32 v @ r) = v"
proof (rule bit_word_eqI)
  fix n
  assume "n < LENGTH(32)"
  consider "n < 8" | "8 \<le> n" "n < 16" | "16 \<le> n" "n < 24" | "24 \<le> n" by linarith
  then show "bit (DecodeFixed32 (EncodeFixed32 v @ r)) n = bit v n"
    by cases (use \<open>n < LENGTH(32)\<close> in
      \<open>auto simp: DecodeFixed32_def EncodeFixed32_def bit_simps\<close>)
qed

lemma EncodeFixed64_split:
  "EncodeFixed64 v = EncodeFixed32 (ucast v) @ EncodeFixed32 (ucast (drop_bit 32 v))"
proof -
  have *: "(ucast (drop_bit s (ucast w :: u32)) :: byte) = ucast (drop_bit s w)"
    if "s + 8 \<le> 32" for s and w :: u64
    using that by (intro bit_word_eqI) (auto simp: bit_simps)
  have **: "(ucast (ucast w :: u32) :: byte) = ucast w" for w :: u64
    using * [of 0 w] by simp
  show ?thesis
    by (simp add: EncodeFixed64_def EncodeFixed32_def * **)
qed

lemma length_EncodeFixed [codec_simps, simp]:
  "length (EncodeFixed16 v2) = 2" "length (EncodeFixed32 v4) = 4" "length (EncodeFixed64 v8) = 8"
  by (simp_all add: EncodeFixed16_def EncodeFixed32_def EncodeFixed64_def)

lemma DecodeFixed64_EncodeFixed64: "DecodeFixed64 (EncodeFixed64 v @ r) = v"
proof -
  have lo: "DecodeFixed32 (EncodeFixed64 v @ r) = ucast v"
    by (simp add: EncodeFixed64_split DecodeFixed32_EncodeFixed32)
  have hi: "DecodeFixed32 (drop 4 (EncodeFixed64 v @ r)) = ucast (drop_bit 32 v)"
    by (simp add: EncodeFixed64_split DecodeFixed32_EncodeFixed32)
  show ?thesis
    unfolding DecodeFixed64_def Let_def lo hi
    by (rule bit_word_eqI) (auto simp: bit_simps)
qed

lemmas DecodeFixed_EncodeFixed [codec_round, simp] =
  DecodeFixed16_EncodeFixed16 DecodeFixed32_EncodeFixed32 DecodeFixed64_EncodeFixed64
  DecodeFixed16_EncodeFixed16 [where r = "[]", simplified]
  DecodeFixed32_EncodeFixed32 [where r = "[]", simplified]
  DecodeFixed64_EncodeFixed64 [where r = "[]", simplified]

text \<open>
  Decoding followed by encoding is the identity on fields of the right width: no two byte
  strings decode to one number.
\<close>

lemma length_4_cases:
  assumes "length bs = 4"
  obtains b0 b1 b2 b3 where "bs = [b0, b1, b2, b3]"
  using assms by (auto simp: numeral_eq_Suc length_Suc_conv)

lemma EncodeFixed32_DecodeFixed32:
  assumes "length bs = 4"
  shows "EncodeFixed32 (DecodeFixed32 (bs @ r)) = bs"
proof -
  obtain b0 b1 b2 b3 where bs: "bs = [b0, b1, b2, b3]" using length_4_cases [OF assms] .
  show ?thesis
    unfolding bs EncodeFixed32_def DecodeFixed32_def
    by (auto intro!: bit_word_eqI simp: bit_simps bit_int_consts dest: bit_imp_le_length)
qed

lemma EncodeFixed64_DecodeFixed64:
  assumes "length bs = 8"
  shows "EncodeFixed64 (DecodeFixed64 bs) = bs"
proof -
  have "ucast (DecodeFixed64 bs) = DecodeFixed32 bs"
    unfolding DecodeFixed64_def Let_def
    by (rule bit_word_eqI) (auto simp: bit_simps dest: bit_imp_le_length)
  moreover have "ucast (drop_bit 32 (DecodeFixed64 bs)) = DecodeFixed32 (drop 4 bs)"
    unfolding DecodeFixed64_def Let_def
    by (rule bit_word_eqI) (auto simp: bit_simps dest: bit_imp_le_length)
  moreover have "EncodeFixed32 (DecodeFixed32 (take 4 bs @ drop 4 bs)) = take 4 bs"
    "EncodeFixed32 (DecodeFixed32 (drop 4 bs @ [])) = drop 4 bs"
    by (rule EncodeFixed32_DecodeFixed32, simp add: assms)+
  ultimately show ?thesis by (simp add: EncodeFixed64_split)
qed

interpretation fixed16: codec EncodeFixed16 GetFixed16 "\<lambda>_. True"
  by unfold_locales (simp add: GetFixed16_def)

interpretation fixed32: codec EncodeFixed32 GetFixed32 "\<lambda>_. True"
  by unfold_locales (simp add: GetFixed32_def)

interpretation fixed64: codec EncodeFixed64 GetFixed64 "\<lambda>_. True"
  by unfold_locales (simp add: GetFixed64_def)


lemma and_128_eq_0: "(x AND 128 = (0 :: 'a::len word)) \<longleftrightarrow> \<not> bit x 7"
  using and_exp_eq_0_iff_not_bit [of x 7] by simp

text \<open>One byte of a varint: seven payload bits, and the continuation bit on top.\<close>

lemma more_byte:
  fixes v :: "'a::len word"
  assumes "8 \<le> LENGTH('a)"
  shows "ucast (ucast ((v AND 127) OR 128) :: byte) AND 128 \<noteq> (0 :: 'a word)"
    and "ucast (ucast ((v AND 127) OR 128) :: byte) AND 127 = take_bit 7 v"
proof -
  show "ucast (ucast ((v AND 127) OR 128) :: byte) AND 128 \<noteq> (0 :: 'a word)"
    using assms by (simp add: and_128_eq_0 bit_simps bit_int_consts)
  show "ucast (ucast ((v AND 127) OR 128) :: byte) AND 127 = take_bit 7 v"
    using assms by (intro bit_word_eqI) (auto simp: bit_int_consts bit_simps)
qed

lemma last_byte:
  fixes v :: "'a::len word"
  assumes "8 \<le> LENGTH('a)" and "v < 128"
  shows "ucast (ucast v :: byte) AND 128 = (0 :: 'a word)"
    and "ucast (ucast v :: byte) = v"
    and "take_bit 7 v = v"
proof -
  have "unat (128 :: 'a word) \<le> 128" by (simp add: unsigned_numeral take_bit_nat_less_eq_self)
  moreover have "unat v < unat (128 :: 'a word)" using assms(2) by (simp only: word_less_nat_alt)
  ultimately have "unat v < 128" by (rule less_le_trans [rotated])
  then have "unat v < 2 ^ 7" by simp
  then have hi: "\<not> bit v i" if "7 \<le> i" for i using word_lt_2p_bits that by blast
  then have lo: "i < 7" if "bit v i" for i using that by (meson not_less)
  show "ucast (ucast v :: byte) AND 128 = (0 :: 'a word)"
    by (simp add: and_128_eq_0 bit_simps hi)
  show "ucast (ucast v :: byte) = v"
    using order.strict_trans2 [OF lo, of _ 8] by (intro bit_word_eqI) (auto simp: bit_simps)
  show "take_bit 7 v = v"
    by (intro bit_word_eqI) (auto simp: bit_simps dest: lo)
qed

lemma drop_bit_ge_128_shift:
  fixes v :: u64
  assumes "\<not> drop_bit s v < 128"
  shows "s + 7 < 64"
proof (rule ccontr)
  assume "\<not> s + 7 < 64"
  then have "n < 7" if "bit v (s + n)" for n
    using bit_imp_le_length [OF that] by simp
  then have "drop_bit s v = take_bit 7 (drop_bit s v)"
    by (intro bit_word_eqI) (auto simp: bit_simps)
  then have "unat (drop_bit s v) = take_bit 7 (unat (drop_bit s v))"
    by (metis unsigned_take_bit_eq)
  also have "\<dots> < 2 ^ 7" by (rule take_bit_nat_less_exp)
  finally show False using assms by (simp add: word_less_nat_alt)
qed

lemma take_bit_or_rest:
  fixes v :: "'a::len word"
  shows "take_bit s v OR push_bit s (drop_bit s v) = v"
proof (rule bit_word_eqI)
  fix n
  assume "n < LENGTH('a)"
  then show "bit (take_bit s v OR push_bit s (drop_bit s v)) n = bit v n"
    by (cases "n < s") (auto simp: bit_simps)
qed

lemma GetVarint64Ptr_loop_EncodeVarint64:
  "s \<le> 63 \<Longrightarrow>
   GetVarint64Ptr_loop s (take_bit s v) (EncodeVarint64 (drop_bit s v) @ r) = Some (v, r)"
proof (induction "drop_bit s v" arbitrary: s rule: EncodeVarint64.induct)
  case 1
  show ?case
  proof (cases "drop_bit s v < 128")
    case True
    then have "\<not> 128 \<le> drop_bit s v" by simp
    with True show ?thesis
      using "1.prems" last_byte [of "drop_bit s v"]
      by (simp add: EncodeVarint64.simps [of "drop_bit s v"] take_bit_or_rest)
  next
    case False
    then have ge: "128 \<le> drop_bit s v" by simp
    from False have "s + 7 \<le> 63" using drop_bit_ge_128_shift by fastforce
    then have "GetVarint64Ptr_loop (s + 7) (take_bit (s + 7) v)
        (EncodeVarint64 (drop_bit 7 (drop_bit s v)) @ r) = Some (v, r)"
      using "1.hyps" [OF refl, of "s + 7"] False by (simp add: add.commute)
    then show ?thesis
      using ge "1.prems" more_byte [of "drop_bit s v"]
      by (simp add: EncodeVarint64.simps [of "drop_bit s v"] take_bit_or_push_bit)
  qed
qed

lemma GetVarint64Ptr_EncodeVarint64: "GetVarint64Ptr (EncodeVarint64 v @ r) = Some (v, r)"
  using GetVarint64Ptr_loop_EncodeVarint64 [of 0 v r] by (simp add: GetVarint64Ptr_def)

interpretation varint64: codec EncodeVarint64 GetVarint64 "\<lambda>_. True"
  by unfold_locales (simp add: GetVarint64_def GetVarint64Ptr_EncodeVarint64)

text \<open>
  The unrolled 32-bit encoder is the 64-bit loop on the widened value.
\<close>

lemma ucast_OR_128:
  fixes v :: u32
  shows "(ucast (v OR 128) :: byte) = ucast ((ucast v AND 127 :: u64) OR 128)"
  by (rule bit_word_eqI) (auto simp: bit_simps bit_int_consts)

lemma drop_bit_ucast_u64: "drop_bit n (ucast (v :: u32) :: u64) = ucast (drop_bit n v)"
  by (rule bit_word_eqI) (auto simp: bit_simps dest: bit_imp_le_length)

lemma EncodeVarint64_ucast_step:
  "EncodeVarint64 (ucast (w :: u32)) =
     (if w < 128 then [ucast w] else ucast (w OR 128) # EncodeVarint64 (ucast (drop_bit 7 w)))"
proof -
  have "(ucast (ucast w :: u64) :: byte) = ucast w"
    by (rule bit_word_eqI) (auto simp: bit_simps dest: bit_imp_le_length)
  moreover have "(128 \<le> (ucast w :: u64)) \<longleftrightarrow> \<not> w < 128"
    by (simp add: word_less_nat_alt word_le_nat_alt not_less unat_ucast_up)
  ultimately show ?thesis
    by (simp add: EncodeVarint64.simps [of "ucast w"] drop_bit_ucast_u64 ucast_OR_128)
qed

lemma drop_bit_less_128:
  fixes v :: u32
  shows "drop_bit n v < 128 \<longleftrightarrow> unat v < 2 ^ (n + 7)"
proof -
  have "unat (drop_bit n v) = unat v div 2 ^ n"
    by (subst unat_drop_bit_eq) (simp add: drop_bit_eq_div)
  then show ?thesis
    by (simp add: word_less_nat_alt div_less_iff_less_mult power_add mult.commute)
qed

lemma EncodeVarint32_eq: "EncodeVarint32 v = EncodeVarint64 (ucast v)"
proof -
  have "unat v < 2 ^ (28 + 7)"
    using unat_lt_2p_32 [of v] by simp
  then have top: "drop_bit 28 v < 128" by (simp only: drop_bit_less_128)
  have lims: "v < 16384 \<longleftrightarrow> drop_bit 7 v < 128" "v < 2097152 \<longleftrightarrow> drop_bit 14 v < 128"
      "v < 268435456 \<longleftrightarrow> drop_bit 21 v < 128"
    by (simp_all only: drop_bit_less_128) (simp_all add: word_less_nat_alt)
  show ?thesis
    using top
    by (simp add: EncodeVarint32_def lims EncodeVarint64_ucast_step [of v]
        EncodeVarint64_ucast_step [of "drop_bit _ v"])
qed

lemma GetVarint32PtrFallback_loop_Encode:
  "s \<le> 28 \<Longrightarrow> 7 dvd s \<Longrightarrow>
   GetVarint32PtrFallback_loop s (take_bit s v) (EncodeVarint64 (ucast (drop_bit s v)) @ r)
     = Some (v, r)"
proof (induction "28 - s" arbitrary: s rule: less_induct)
  case less
  let ?w = "drop_bit s v"
  show ?case
  proof (cases "?w < 128")
    case True
    then show ?thesis
      using less.prems last_byte [of ?w]
      by (simp add: EncodeVarint64_ucast_step [of ?w] take_bit_or_rest)
  next
    case False
    have "unat v < 2 ^ 32" using unat_lt_2p_32 [of v] by simp
    moreover have "\<not> unat v < 2 ^ (s + 7)" using False by (simp add: drop_bit_less_128)
    ultimately have "2 ^ (s + 7) < (2 ^ 32 :: nat)" by linarith
    then have "s + 7 < 32" by (simp only: power_strict_increasing_iff)
    with less.prems(2) have s: "s + 7 \<le> 28" "7 dvd s + 7" by presburger+
    have "(ucast (?w OR 128) :: byte) = ucast ((?w AND 127) OR 128)"
      by (rule bit_word_eqI) (auto simp: bit_simps bit_int_consts)
    moreover have "GetVarint32PtrFallback_loop (s + 7) (take_bit (s + 7) v)
        (EncodeVarint64 (ucast (drop_bit 7 ?w)) @ r) = Some (v, r)"
      using less.hyps [of "s + 7"] s by (simp add: add.commute)
    ultimately show ?thesis
      using False less.prems more_byte [of ?w]
      by (simp add: EncodeVarint64_ucast_step [of ?w] take_bit_or_push_bit)
  qed
qed

lemma GetVarint32Ptr_eq_Fallback: "GetVarint32Ptr p = GetVarint32PtrFallback p"
  by (auto simp: GetVarint32Ptr_def GetVarint32PtrFallback_def Let_def split: list.splits)

lemma GetVarint32Ptr_EncodeVarint32: "GetVarint32Ptr (EncodeVarint32 v @ r) = Some (v, r)"
  using GetVarint32PtrFallback_loop_Encode [of 0 v r]
  by (simp add: GetVarint32Ptr_eq_Fallback GetVarint32PtrFallback_def EncodeVarint32_eq)

lemma GetVarint32Ptr_shrinks: "GetVarint32Ptr p = Some (v, r) \<Longrightarrow> length r < length p"
proof -
  have "length r < length d" if "GetVarint32PtrFallback_loop s w d = Some (v, r)" for s w d
    using that
    by (induction s w d rule: GetVarint32PtrFallback_loop.induct)
       (auto split: if_splits simp: Let_def)
  then show "GetVarint32Ptr p = Some (v, r) \<Longrightarrow> length r < length p"
    by (simp add: GetVarint32Ptr_eq_Fallback GetVarint32PtrFallback_def)
qed

interpretation varint32: codec EncodeVarint32 GetVarint32 "\<lambda>_. True"
  by unfold_locales (simp add: GetVarint32_def GetVarint32Ptr_EncodeVarint32)

lemma zigzagToI64_i64ToZigzag: "zigzagToI64 (i64ToZigzag l) = l"
proof (rule bit_word_eqI)
  fix n
  assume n: "n < LENGTH(64)"
  have "bit (i64ToZigzag l) 0 = bit l 63"
    unfolding i64ToZigzag_def bit_xor_iff bit_push_bit_iff bit_signed_drop_bit_iff by simp
  then have "i64ToZigzag l AND 1 = of_bool (bit l 63)"
    by (simp add: and_one_eq mod_2_eq_odd bit_0)
  then have sgn: "- (i64ToZigzag l AND 1) = (if bit l 63 then - 1 else 0 :: u64)"
    by simp
  have "bit (drop_bit 1 (i64ToZigzag l)) n = (if n = 63 then False else bit l n \<noteq> bit l 63)"
    using n unfolding i64ToZigzag_def bit_drop_bit_eq comp_def bit_xor_iff bit_push_bit_iff
      bit_signed_drop_bit_iff
    by (auto dest: bit_imp_le_length)
  then show "bit (zigzagToI64 (i64ToZigzag l)) n = bit l n"
    using n unfolding zigzagToI64_def sgn by (auto simp: bit_simps)
qed

interpretation varsigned64: codec "\<lambda>v. EncodeVarint64 (i64ToZigzag v)" GetVarsignedint64 "\<lambda>_. True"
  by unfold_locales
     (simp add: GetVarsignedint64_def GetVarsignedint64Ptr_def GetVarint64Ptr_EncodeVarint64
        zigzagToI64_i64ToZigzag)

lemma length_EncodeVarint64_pos [simp]: "EncodeVarint64 v \<noteq> []"
  by (subst EncodeVarint64.simps) (simp add: Let_def)

lemma VarintLength_loop_eq:
  "VarintLength_loop v len + 1 = len + of_nat (length (EncodeVarint64 v))"
proof (induction v len rule: VarintLength_loop.induct)
  case (1 v len)
  then show ?case
    by (auto simp: VarintLength_loop.simps [of v] EncodeVarint64.simps [of v] Let_def)
qed

lemma length_EncodeVarint64_le:
  "unat v < 2 ^ (7 * n) \<Longrightarrow> 0 < n \<Longrightarrow> length (EncodeVarint64 v) \<le> n"
proof (induction n arbitrary: v)
  case (Suc n)
  show ?case
  proof (cases "v < 128")
    case True
    then have "\<not> 128 \<le> v" by simp
    then show ?thesis by (simp add: EncodeVarint64.simps [of v] Let_def)
  next
    case False
    have "unat (drop_bit 7 v) = unat v div 2 ^ 7"
      by (subst unat_drop_bit_eq) (simp add: drop_bit_eq_div)
    also have "\<dots> < 2 ^ (7 * n)"
      using Suc.prems(1) by (simp add: div_less_iff_less_mult power_add mult.commute)
    finally have lt: "unat (drop_bit 7 v) < 2 ^ (7 * n)" .
    moreover have "0 < n"
      using False Suc.prems(1) by (cases n) (auto simp: word_less_nat_alt)
    ultimately have "length (EncodeVarint64 (drop_bit 7 v)) \<le> n" by (rule Suc.IH)
    then show ?thesis using False by (simp add: EncodeVarint64.simps [of v] Let_def)
  qed
qed simp

lemma length_EncodeVarint64: "length (EncodeVarint64 v) \<le> 10"
  by (rule length_EncodeVarint64_le) (use unat_lt_2p_64 [of v] in simp_all)

lemma length_EncodeVarint32: "length (EncodeVarint32 v) \<le> 5"
  unfolding EncodeVarint32_eq
  by (rule length_EncodeVarint64_le) (use unat_lt_2p_32 [of v] in \<open>simp_all add: unat_ucast_up\<close>)

lemma EncodeVarint32_nonempty [simp]: "EncodeVarint32 v \<noteq> []"
  by (simp add: EncodeVarint32_eq)

lemma VarintLength_eq: "unat (VarintLength v) = length (EncodeVarint64 v)"
proof -
  have "VarintLength v = of_nat (length (EncodeVarint64 v))"
    using VarintLength_loop_eq [of v 1] by (simp add: VarintLength_def add.commute)
  moreover have "unat (of_nat (length (EncodeVarint64 v)) :: u16) = length (EncodeVarint64 v)"
    using length_EncodeVarint64 [of v] by (simp add: unat_of_nat)
  ultimately show ?thesis by simp
qed

text \<open>A slice shorter than $2^{32}$ bytes survives the 32-bit length prefix.\<close>

definition slice_ok :: "slice \<Rightarrow> bool" where
  "slice_ok s \<longleftrightarrow> length s < 2 ^ 32"

definition EncodeSlice :: "slice \<Rightarrow> slice" where
  "EncodeSlice s = EncodeVarint32 (of_nat (length s)) @ s"

lemma PutLengthPrefixedSlice_eq: "PutLengthPrefixedSlice dst s = dst @ EncodeSlice s"
  by (simp add: PutLengthPrefixedSlice_def PutVarint32_def EncodeSlice_def)

lemma unat_of_nat_slice: "slice_ok s \<Longrightarrow> unat (of_nat (length s) :: u32) = length s"
  by (simp add: slice_ok_def unat_of_nat)

interpretation prefixed: codec EncodeSlice GetLengthPrefixedSlice slice_ok
  by unfold_locales
     (simp add: GetLengthPrefixedSlice_def EncodeSlice_def varint32.dec_enc unat_of_nat_slice)

lemma foldl_length: "foldl (\<lambda>t part. t + length part) n ps = n + length (concat ps)"
  by (induction ps arbitrary: n) auto

lemma foldl_concat: "foldl (\<lambda>d part. d @ part) d ps = d @ concat ps"
  by (induction ps arbitrary: d) auto

lemma PutLengthPrefixedSlicePartsWithPadding_eq:
  "PutLengthPrefixedSlicePartsWithPadding dst ps pad = dst @ EncodeSlice (concat ps @ replicate pad 0)"
  by (simp add: PutLengthPrefixedSlicePartsWithPadding_def PutLengthPrefixedSliceParts_total_def
      foldl_length foldl_concat PutVarint32_def EncodeSlice_def add.commute)

lemma PutLengthPrefixedSliceParts_eq:
  "PutLengthPrefixedSliceParts dst ps = PutLengthPrefixedSlice dst (concat ps)"
  by (simp add: PutLengthPrefixedSliceParts_def PutLengthPrefixedSliceParts_total_def
      foldl_length foldl_concat PutVarint32_def PutLengthPrefixedSlice_def)

section \<open>The coding contracts\<close>

text \<open>
  C25: Every varint written is read back. The 64-bit, 32-bit and signed readers return the
  value that was put and leave exactly the bytes that followed it.
\<close>

theorem varint_round_trip:
  "GetVarint64 (PutVarint64 [] v @ r) = (Some v, r) \<and>
   GetVarint32 (PutVarint32 [] w @ r) = (Some w, r) \<and>
   GetVarsignedint64 (PutVarsignedint64 [] x @ r) = (Some x, r)"
  using varint64.dec_enc [of v r] varint32.dec_enc [of w r] varsigned64.dec_enc [of x r]
  by (simp add: PutVarint64_def PutVarint32_def PutVarsignedint64_def)

text \<open>
  C26: The unrolled 32-bit varint encoder writes the bytes of the 64-bit loop, and
  \<open>VarintLength\<close> is the number of bytes either one writes: at most 5 and at most 10, the sizes
  of the stack buffers of the callers.
\<close>

theorem EncodeVarint32_refines_EncodeVarint64:
  "EncodeVarint32 v = EncodeVarint64 (ucast v) \<and> length (EncodeVarint32 v) \<le> 5 \<and>
   unat (VarintLength w) = length (EncodeVarint64 w) \<and> length (EncodeVarint64 w) \<le> 10"
  by (simp add: EncodeVarint32_eq [symmetric] length_EncodeVarint32 VarintLength_eq
      length_EncodeVarint64)

text \<open>
  C27: The fixed-width encodings are bijective: the readers return what was put and the rest of
  the input, and eight bytes are the encoding of the number they decode to.
\<close>

theorem fixed_width_bijective:
  assumes "length bs = 8"
  shows "GetFixed64 (PutFixed64 [] v @ r) = (Some v, r) \<and>
    GetFixed32 (PutFixed32 [] w @ r) = (Some w, r) \<and>
    GetFixed16 (PutFixed16 [] x @ r) = (Some x, r) \<and>
    EncodeFixed64 (DecodeFixed64 bs) = bs"
  using fixed64.dec_enc [of v r] fixed32.dec_enc [of w r] fixed16.dec_enc [of x r] assms
  by (simp add: PutFixed64_def PutFixed32_def PutFixed16_def EncodeFixed64_DecodeFixed64)

theorem fixed_width_bijective_witness:
  "length [1, 2, 3, 4, 5, 6, 7, 8 :: byte] = 8 \<and>
   EncodeFixed64 (DecodeFixed64 [1, 2, 3, 4, 5, 6, 7, 8]) = [1, 2, 3, 4, 5, 6, 7, 8]"
  using fixed_width_bijective [of "[1, 2, 3, 4, 5, 6, 7, 8]"] by simp

text \<open>
  C28: A length-prefixed slice is read back with the rest of the input, whether it was put whole
  or in parts, as long as its size fits the 32-bit length.
\<close>

theorem length_prefixed_round_trip:
  assumes "length s < 2 ^ 32" and "length (concat parts) < 2 ^ 32"
  shows "GetLengthPrefixedSlice (PutLengthPrefixedSlice [] s @ r) = (Some s, r) \<and>
    GetLengthPrefixedSlice (PutLengthPrefixedSliceParts [] parts @ r) = (Some (concat parts), r)"
  using assms prefixed.dec_enc [of s r] prefixed.dec_enc [of "concat parts" r]
  by (simp add: PutLengthPrefixedSlice_eq PutLengthPrefixedSliceParts_eq slice_ok_def)

theorem length_prefixed_round_trip_witness:
  "length [97, 98 :: byte] < 2 ^ 32 \<and>
   GetLengthPrefixedSlice (PutLengthPrefixedSliceParts [] [[97], [98]] @ [7]) = (Some [97, 98], [7])"
  using length_prefixed_round_trip [of "[97, 98]" "[[97], [98]]" "[7]"] by simp

end
