(* ===== verification/Status.thy ===== *)
theory Status
  imports Prelude
begin

text \<open>
  \<open>Status\<close> of \<open>include/rocksdb/status.h\<close> and \<open>util/status.cc\<close>: the result value that every
  fallible operation of the engine returns, and its printed form, which is what the C
  interface hands to its callers.

  \<open>st_state\<close> is None for the null pointer, otherwise the bytes in front of the terminating
  zero that the constructor adds; a C string ends at its first zero byte.
\<close>

datatype status_code =
  kOk | kNotFound | kCorruption | kNotSupported | kInvalidArgument | kIOError
| kMergeInProgress | kIncomplete | kShutdownInProgress | kTimedOut | kAborted | kBusy
| kExpired | kTryAgain | kCompactionTooLarge | kColumnFamilyDropped

datatype status_subcode =
  kNone | kMutexTimeout | kLockTimeout | kLockLimit | kNoSpace | kDeadlock | kStaleFile
| kMemoryLimit | kSpaceLimit | kPathNotFound | KMergeOperandsInsufficientCapacity
| kManualCompactionPaused | kOverwritten | kTxnNotPrepared | kIOFenced
| kMergeOperatorFailed | kMergeOperandThresholdExceeded | kPrefetchLimitReached
| kNotExpectedCodePath

datatype status_severity =
  kNoError | kSoftError | kHardError | kFatalError | kUnrecoverableError

record status =
  st_code :: status_code
  st_subcode :: status_subcode
  st_sev :: status_severity
  st_retryable :: bool
  st_data_loss :: bool
  st_scope :: byte
  st_state :: "slice option"

section \<open>Construction\<close>

definition str :: "string \<Rightarrow> slice" where
  "str s = map of_char s"

text \<open>\<open>std::to_string\<close> of an unsigned number.\<close>

fun to_string :: "nat \<Rightarrow> slice" where
  "to_string n =
     (if n < 10 then [of_nat (48 + n)] else to_string (n div 10) @ [of_nat (48 + n mod 10)])"

declare to_string.simps [simp del]

definition OK :: status where
  "OK = \<lparr>st_code = kOk, st_subcode = kNone, st_sev = kNoError, st_retryable = False,
         st_data_loss = False, st_scope = 0, st_state = None\<rparr>"

definition Status_code :: "status_code \<Rightarrow> status_subcode \<Rightarrow> status" where
  "Status_code code subcode =
     \<lparr>st_code = code, st_subcode = subcode, st_sev = kNoError, st_retryable = False,
      st_data_loss = False, st_scope = 0, st_state = None\<rparr>"

definition Status_msg ::
    "status_code \<Rightarrow> status_subcode \<Rightarrow> slice \<Rightarrow> slice \<Rightarrow> status_severity \<Rightarrow> status" where
  "Status_msg code subcode msg msg2 sev =
     \<lparr>st_code = code, st_subcode = subcode, st_sev = sev, st_retryable = False,
      st_data_loss = False, st_scope = 0,
      st_state = Some (msg @ (if length msg2 \<noteq> 0 then str '': '' @ msg2 else []))\<rparr>"

definition NotFound :: "slice \<Rightarrow> slice \<Rightarrow> status" where
  "NotFound msg msg2 = Status_msg kNotFound kNone msg msg2 kNoError"

definition Corruption :: "slice \<Rightarrow> slice \<Rightarrow> status" where
  "Corruption msg msg2 = Status_msg kCorruption kNone msg msg2 kNoError"

definition NotSupported :: "slice \<Rightarrow> slice \<Rightarrow> status" where
  "NotSupported msg msg2 = Status_msg kNotSupported kNone msg msg2 kNoError"

definition InvalidArgument :: "slice \<Rightarrow> slice \<Rightarrow> status" where
  "InvalidArgument msg msg2 = Status_msg kInvalidArgument kNone msg msg2 kNoError"

definition IOError :: "slice \<Rightarrow> slice \<Rightarrow> status" where
  "IOError msg msg2 = Status_msg kIOError kNone msg msg2 kNoError"

definition MemoryLimit :: status where
  "MemoryLimit = Status_code kAborted kMemoryLimit"

section \<open>Inspection and combination\<close>

definition ok :: "status \<Rightarrow> bool" where
  "ok s \<longleftrightarrow> st_code s = kOk"

definition IsNotFound :: "status \<Rightarrow> bool" where
  "IsNotFound s \<longleftrightarrow> st_code s = kNotFound"

definition IsTryAgain :: "status \<Rightarrow> bool" where
  "IsTryAgain s \<longleftrightarrow> st_code s = kTryAgain"

definition Status_eq :: "status \<Rightarrow> status \<Rightarrow> bool" where
  "Status_eq s t \<longleftrightarrow> st_code s = st_code t"

definition UpdateIfOk :: "status \<Rightarrow> status \<Rightarrow> status" where
  "UpdateIfOk this s = (if st_code this = kOk then s else this)"

text \<open>A C string read back through a \<open>char *\<close>: the bytes before the first zero.\<close>

definition c_str :: "slice \<Rightarrow> slice" where
  "c_str s = takeWhile (\<lambda>b. b \<noteq> 0) s"

text \<open>
  The message table is an array of \<open>kMaxSubCode\<close> = 19 pointers with 18 initialisers, so the
  last entry is a null pointer, None here.
\<close>

definition msgs :: "slice option list" where
  "msgs =
    [Some (str ''''),
     Some (str ''Timeout Acquiring Mutex''),
     Some (str ''Timeout waiting to lock key''),
     Some (str ''Failed to acquire lock due to max_num_locks limit''),
     Some (str ''No space left on device''),
     Some (str ''Deadlock''),
     Some (str ''Stale file handle''),
     Some (str ''Memory limit reached''),
     Some (str ''Space limit reached''),
     Some (str ''No such file or directory''),
     Some (str ''Insufficient capacity for merge operands''),
     Some (str ''Manual compaction paused''),
     Some (str '' (overwritten)''),
     Some (str ''Txn not prepared''),
     Some (str ''IO fenced off''),
     Some (str ''Merge operator failed''),
     Some (str ''Number of operands merged exceeded threshold''),
     Some (str ''MultiScan reached file prefetch limit''),
     None]"

fun subcode_index :: "status_subcode \<Rightarrow> nat" where
  "subcode_index kNone = 0"
| "subcode_index kMutexTimeout = 1"
| "subcode_index kLockTimeout = 2"
| "subcode_index kLockLimit = 3"
| "subcode_index kNoSpace = 4"
| "subcode_index kDeadlock = 5"
| "subcode_index kStaleFile = 6"
| "subcode_index kMemoryLimit = 7"
| "subcode_index kSpaceLimit = 8"
| "subcode_index kPathNotFound = 9"
| "subcode_index KMergeOperandsInsufficientCapacity = 10"
| "subcode_index kManualCompactionPaused = 11"
| "subcode_index kOverwritten = 12"
| "subcode_index kTxnNotPrepared = 13"
| "subcode_index kIOFenced = 14"
| "subcode_index kMergeOperatorFailed = 15"
| "subcode_index kMergeOperandThresholdExceeded = 16"
| "subcode_index kPrefetchLimitReached = 17"
| "subcode_index kNotExpectedCodePath = 18"

fun code_type :: "status_code \<Rightarrow> slice" where
  "code_type kOk = str ''OK''"
| "code_type kNotFound = str ''NotFound: ''"
| "code_type kCorruption = str ''Corruption: ''"
| "code_type kNotSupported = str ''Not implemented: ''"
| "code_type kInvalidArgument = str ''Invalid argument: ''"
| "code_type kIOError = str ''IO error: ''"
| "code_type kMergeInProgress = str ''Merge in progress: ''"
| "code_type kIncomplete = str ''Result incomplete: ''"
| "code_type kShutdownInProgress = str ''Shutdown in progress: ''"
| "code_type kTimedOut = str ''Operation timed out: ''"
| "code_type kAborted = str ''Operation aborted: ''"
| "code_type kBusy = str ''Resource busy: ''"
| "code_type kExpired = str ''Operation expired: ''"
| "code_type kTryAgain = str ''Operation failed. Try again.: ''"
| "code_type kCompactionTooLarge = str ''Compaction too large: ''"
| "code_type kColumnFamilyDropped = str ''Column family dropped: ''"

text \<open>None is the undefined behaviour of appending a null \<open>char *\<close> to a string.\<close>

definition Status_ToString :: "status \<Rightarrow> slice option" where
  "Status_ToString s =
     (if st_code s = kOk then Some (code_type kOk)
      else
        let result = code_type (st_code s);
            with_sub =
              (if st_subcode s \<noteq> kNone
               then map_option (\<lambda>m. result @ m) (msgs ! subcode_index (st_subcode s))
               else Some result)
        in case with_sub of
             None \<Rightarrow> None
           | Some result \<Rightarrow>
               Some (case st_state s of
                       None \<Rightarrow> result
                     | Some st \<Rightarrow>
                         (if st_subcode s \<noteq> kNone then result @ str '': '' else result) @ c_str st))"

section \<open>Properties\<close>

lemma ok_OK [simp]: "ok OK"
  by (simp add: ok_def OK_def)

lemma not_ok_msg [simp]:
  "\<not> ok (NotFound m n)" "\<not> ok (Corruption m n)" "\<not> ok (NotSupported m n)"
  "\<not> ok (InvalidArgument m n)" "\<not> ok (IOError m n)"
  by (simp_all add: ok_def Status_msg_def NotFound_def Corruption_def NotSupported_def
      InvalidArgument_def IOError_def)

lemma UpdateIfOk_ok [simp]: "ok (UpdateIfOk s t) \<longleftrightarrow> ok s \<and> ok t"
  by (auto simp: UpdateIfOk_def ok_def)

text \<open>
  The first failing status of a chain of updates is the one that is kept.
\<close>

lemma foldl_UpdateIfOk:
  "foldl UpdateIfOk s ts = (case find (\<lambda>t. \<not> ok t) (s # ts) of
      Some t \<Rightarrow> t | None \<Rightarrow> last (s # ts))"
proof (induction ts arbitrary: s)
  case (Cons t ts)
  then show ?case by (cases "ok s") (auto simp: UpdateIfOk_def ok_def split: option.splits)
qed (simp split: option.splits)

lemma msgs_None: "msgs ! subcode_index c = None \<longleftrightarrow> c = kNotExpectedCodePath"
  by (cases c) (simp_all add: msgs_def)

section \<open>The status contracts\<close>

text \<open>
  C33: A chain of \<open>UpdateIfOk\<close> keeps the first failure, and is ok exactly when every status of
  the chain is.
\<close>

theorem UpdateIfOk_first_failure:
  "foldl UpdateIfOk s ts =
     (case find (\<lambda>t. \<not> ok t) (s # ts) of Some t \<Rightarrow> t | None \<Rightarrow> last (s # ts)) \<and>
   ok (foldl UpdateIfOk s ts) = list_all ok (s # ts)"
  by (rule conjI [OF foldl_UpdateIfOk], induction ts arbitrary: s) auto

text \<open>
  C34: \<open>Status::ToString\<close> has no defined result exactly on a failure whose subcode is
  \<open>kNotExpectedCodePath\<close>: the message table has one entry fewer than there are subcodes.
\<close>

theorem Status_ToString_undefined_iff:
  "Status_ToString s = None \<longleftrightarrow> st_code s \<noteq> kOk \<and> st_subcode s = kNotExpectedCodePath"
proof (cases "st_code s = kOk \<or> st_subcode s = kNone")
  case False
  then show ?thesis using msgs_None [of "st_subcode s"]
    by (cases "msgs ! subcode_index (st_subcode s)") (auto simp: Status_ToString_def Let_def)
qed (auto simp: Status_ToString_def Let_def)

end
