(* ===== verification/Comparators.thy ===== *)
theory Comparators
  imports Slices Coding Status
begin

text \<open>
  The built-in key orders of \<open>util/comparator.cc\<close>: bytewise, reverse bytewise, and the two
  with a 64-bit timestamp suffix, with the key-shortening functions that the index blocks
  of a table use. The locales state the contract of \<open>include/rocksdb/comparator.h\<close> that
  the sorted structures of the engine rely on.
\<close>

unbundle bit_operations_syntax

section \<open>The bytewise comparator\<close>

definition BytewiseCompare :: "slice \<Rightarrow> slice \<Rightarrow> int" where
  "BytewiseCompare a b = compare a b"

function common_prefix_loop :: "slice \<Rightarrow> slice \<Rightarrow> nat \<Rightarrow> nat \<Rightarrow> nat" where
  "common_prefix_loop start limit min_length diff_index =
     (if diff_index < min_length \<and> start ! diff_index = limit ! diff_index
      then common_prefix_loop start limit min_length (diff_index + 1)
      else diff_index)"
  by pat_completeness auto
termination
  by (relation "measure (\<lambda>(start, limit, min_length, diff_index). min_length - diff_index)") auto

declare common_prefix_loop.simps [simp del]

function increment_first_non_ff :: "slice \<Rightarrow> nat \<Rightarrow> slice" where
  "increment_first_non_ff start diff_index =
     (if diff_index < length start then
        (if start ! diff_index < 255
         then take (diff_index + 1) (start[diff_index := start ! diff_index + 1])
         else increment_first_non_ff start (diff_index + 1))
      else start)"
  by pat_completeness auto
termination
  by (relation "measure (\<lambda>(start, diff_index). length start - diff_index)") auto

declare increment_first_non_ff.simps [simp del]

definition FindShortestSeparator :: "slice \<Rightarrow> slice \<Rightarrow> slice" where
  "FindShortestSeparator start limit =
     (let min_length = min (length start) (length limit);
          diff_index = common_prefix_loop start limit min_length 0
      in if diff_index \<ge> min_length then start
         else
           let start_byte = start ! diff_index; limit_byte = limit ! diff_index
           in if start_byte \<ge> limit_byte then start
              else if diff_index < length limit - 1 \<or> uint start_byte + 1 < uint limit_byte
              then take (diff_index + 1) (start[diff_index := start ! diff_index + 1])
              else increment_first_non_ff start (diff_index + 1))"

function FindShortSuccessor_loop :: "slice \<Rightarrow> nat \<Rightarrow> slice" where
  "FindShortSuccessor_loop key i =
     (if i < length key then
        (let byte = key ! i in
         if byte \<noteq> 255 then take (i + 1) (key[i := byte + 1])
         else FindShortSuccessor_loop key (i + 1))
      else key)"
  by pat_completeness auto
termination
  by (relation "measure (\<lambda>(key, i). length key - i)") auto

declare FindShortSuccessor_loop.simps [simp del]

definition FindShortSuccessor :: "slice \<Rightarrow> slice" where
  "FindShortSuccessor key = FindShortSuccessor_loop key 0"

function successor_tail_loop :: "slice \<Rightarrow> slice \<Rightarrow> nat \<Rightarrow> bool" where
  "successor_tail_loop s t i =
     (if i < length s then
        (if s ! i \<noteq> 255 \<or> t ! i \<noteq> 0 then False else successor_tail_loop s t (i + 1))
      else True)"
  by pat_completeness auto
termination
  by (relation "measure (\<lambda>(s, t, i). length s - i)") auto

declare successor_tail_loop.simps [simp del]

definition IsSameLengthImmediateSuccessor :: "slice \<Rightarrow> slice \<Rightarrow> bool" where
  "IsSameLengthImmediateSuccessor s t =
     (if length s \<noteq> length t \<or> length s = 0 then False
      else
        let diff_ind = difference_offset s t
        in if diff_ind \<ge> length s then False
           else
             let byte_s = s ! diff_ind; byte_t = t ! diff_ind
             in if byte_s \<noteq> 255 \<and> uint byte_s + 1 = uint byte_t
                then successor_tail_loop s t (diff_ind + 1)
                else False)"

section \<open>The reverse bytewise comparator\<close>

definition ReverseBytewiseCompare :: "slice \<Rightarrow> slice \<Rightarrow> int" where
  "ReverseBytewiseCompare a b = - compare a b"

definition ReverseFindShortestSeparator :: "slice \<Rightarrow> slice \<Rightarrow> slice" where
  "ReverseFindShortestSeparator start limit =
     (let min_length = min (length start) (length limit);
          diff_index = common_prefix_loop start limit min_length 0
      in if diff_index = min_length then start
         else
           let start_byte = start ! diff_index; limit_byte = limit ! diff_index
           in if start_byte > limit_byte \<and> diff_index < length start - 1
              then take (diff_index + 1) start
              else start)"

definition ReverseFindShortSuccessor :: "slice \<Rightarrow> slice" where
  "ReverseFindShortSuccessor key = key"

definition ReverseIsSameLengthImmediateSuccessor :: "slice \<Rightarrow> slice \<Rightarrow> bool" where
  "ReverseIsSameLengthImmediateSuccessor s t = False"

section \<open>Comparators with a 64-bit timestamp\<close>

text \<open>
  A user key is followed by its timestamp. \<open>cmp\<close> is \<open>cmp_without_ts_.Compare\<close>, the order of
  the template argument. The timestamp helpers are those of \<open>db/dbformat.h\<close>.
\<close>

definition StripTimestampFromUserKey :: "slice \<Rightarrow> nat \<Rightarrow> slice" where
  "StripTimestampFromUserKey user_key ts_sz = take (length user_key - ts_sz) user_key"

definition ExtractTimestampFromUserKey :: "slice \<Rightarrow> nat \<Rightarrow> slice" where
  "ExtractTimestampFromUserKey user_key ts_sz =
     take ts_sz (drop (length user_key - ts_sz) user_key)"

definition CompareTimestamp :: "slice \<Rightarrow> slice \<Rightarrow> int" where
  "CompareTimestamp ts1 ts2 =
     (let lhs = DecodeFixed64 ts1; rhs = DecodeFixed64 ts2
      in if lhs < rhs then -1 else if lhs > rhs then 1 else 0)"

definition U64TsCompareWithoutTimestamp ::
    "(slice \<Rightarrow> slice \<Rightarrow> int) \<Rightarrow> slice \<Rightarrow> bool \<Rightarrow> slice \<Rightarrow> bool \<Rightarrow> int" where
  "U64TsCompareWithoutTimestamp cmp a a_has_ts b b_has_ts =
     (let ts_sz = 8;
          lhs = (if a_has_ts then StripTimestampFromUserKey a ts_sz else a);
          rhs = (if b_has_ts then StripTimestampFromUserKey b ts_sz else b)
      in cmp lhs rhs)"

definition U64TsCompare :: "(slice \<Rightarrow> slice \<Rightarrow> int) \<Rightarrow> slice \<Rightarrow> slice \<Rightarrow> int" where
  "U64TsCompare cmp a b =
     (let ret = U64TsCompareWithoutTimestamp cmp a True b True; ts_sz = 8
      in if ret \<noteq> 0 then ret
         else - CompareTimestamp (ExtractTimestampFromUserKey a ts_sz)
                  (ExtractTimestampFromUserKey b ts_sz))"

definition DecodeU64Ts :: "slice \<Rightarrow> status \<times> u64 option" where
  "DecodeU64Ts ts =
     (if length ts \<noteq> 8 then (InvalidArgument (str ''U64Ts timestamp size mismatch.'') [], None)
      else (OK, Some (DecodeFixed64 ts)))"

definition EncodeU64Ts :: "u64 \<Rightarrow> slice" where
  "EncodeU64Ts ts = EncodeFixed64 ts"

definition MaxU64Ts :: slice where
  "MaxU64Ts = replicate 8 255"

definition MinU64Ts :: slice where
  "MinU64Ts = replicate 8 0"

section \<open>The contract of a comparator\<close>

text \<open>
  \<open>valid\<close> are the keys the order is for (with a timestamp suffix: keys long enough for it).
\<close>

locale user_comparator =
  fixes cmp :: "slice \<Rightarrow> slice \<Rightarrow> int"
    and valid :: "slice \<Rightarrow> bool"
  assumes cmp_self: "valid a \<Longrightarrow> cmp a a = 0"
    and cmp_swap: "valid a \<Longrightarrow> valid b \<Longrightarrow> cmp a b < 0 \<longleftrightarrow> cmp b a > 0"
    and cmp_le_trans:
      "valid a \<Longrightarrow> valid b \<Longrightarrow> valid c \<Longrightarrow> cmp a b \<le> 0 \<Longrightarrow> cmp b c \<le> 0 \<Longrightarrow> cmp a c \<le> 0"
begin

lemma cmp_zero_sym: "valid a \<Longrightarrow> valid b \<Longrightarrow> cmp a b = 0 \<longleftrightarrow> cmp b a = 0"
  using cmp_swap [of a b] cmp_swap [of b a] by linarith

lemma cmp_le_swap: "valid a \<Longrightarrow> valid b \<Longrightarrow> cmp a b \<le> 0 \<longleftrightarrow> cmp b a \<ge> 0"
  using cmp_swap [of b a] by linarith

lemma cmp_less_le_trans:
  assumes "valid a" "valid b" "valid c" "cmp a b < 0" "cmp b c \<le> 0"
  shows "cmp a c < 0"
proof (rule ccontr)
  assume "\<not> cmp a c < 0"
  then have "cmp c a \<le> 0" using assms cmp_swap [of a c] by linarith
  then have "cmp b a \<le> 0" using assms cmp_le_trans [of b c a] by blast
  then show False using assms cmp_swap [of a b] by linarith
qed

lemma cmp_le_less_trans:
  assumes "valid a" "valid b" "valid c" "cmp a b \<le> 0" "cmp b c < 0"
  shows "cmp a c < 0"
proof (rule ccontr)
  assume "\<not> cmp a c < 0"
  then have "cmp c a \<le> 0" using assms cmp_swap [of a c] by linarith
  then have "cmp c b \<le> 0" using assms cmp_le_trans [of c a b] by blast
  then show False using assms cmp_swap [of b c] by linarith
qed

lemma cmp_eq_trans:
  assumes "valid a" "valid b" "valid c" "cmp a b = 0" "cmp b c = 0"
  shows "cmp a c = 0"
proof -
  have "cmp a c \<le> 0" using assms cmp_le_trans [of a b c] by simp
  moreover have "cmp c a \<le> 0"
    using assms cmp_le_trans [of c b a] cmp_zero_sym [of a b] cmp_zero_sym [of b c] by simp
  ultimately show ?thesis using assms cmp_le_swap [of c a] by linarith
qed

end

text \<open>
  The shortening functions: a separator lies between two neighbouring keys, a successor
  lies at or above its key.
\<close>

locale shortening_comparator = user_comparator +
  fixes separator :: "slice \<Rightarrow> slice \<Rightarrow> slice"
    and successor :: "slice \<Rightarrow> slice"
  assumes separator_valid:
      "valid start \<Longrightarrow> valid limit \<Longrightarrow> cmp start limit < 0 \<Longrightarrow> valid (separator start limit)"
    and separator_ge:
      "valid start \<Longrightarrow> valid limit \<Longrightarrow> cmp start limit < 0 \<Longrightarrow>
       cmp start (separator start limit) \<le> 0"
    and separator_less:
      "valid start \<Longrightarrow> valid limit \<Longrightarrow> cmp start limit < 0 \<Longrightarrow>
       cmp (separator start limit) limit < 0"
    and successor_valid: "valid key \<Longrightarrow> valid (successor key)"
    and successor_ge: "valid key \<Longrightarrow> cmp key (successor key) \<le> 0"
begin

text \<open>
  What an index block needs: every key up to \<open>start\<close> is at or below the separator and every
  key from \<open>limit\<close> on is above it.
\<close>

lemma separator_splits:
  assumes "valid k" "valid start" "valid limit" "cmp start limit < 0"
  shows "cmp k start \<le> 0 \<Longrightarrow> cmp k (separator start limit) \<le> 0"
    and "cmp limit k \<le> 0 \<Longrightarrow> cmp (separator start limit) k < 0"
  using assms separator_valid separator_ge separator_less cmp_le_trans cmp_less_le_trans
  by blast+

lemma successor_bounds:
  "valid k \<Longrightarrow> valid key \<Longrightarrow> cmp k key \<le> 0 \<Longrightarrow> cmp k (successor key) \<le> 0"
  using successor_valid successor_ge cmp_le_trans by blast

end

section \<open>Facts on the loops\<close>

lemma common_prefix_loop_eq:
  "common_prefix_loop a b len off = difference_offset_loop a b len off"
proof (induction a b len off rule: common_prefix_loop.induct)
  case (1 a b len off)
  then show ?case
    by (auto simp: common_prefix_loop.simps [of a b len off]
        difference_offset_loop.simps [of a b len off])
qed

lemma common_prefix_difference_offset:
  "common_prefix_loop a b (min (length a) (length b)) 0 = difference_offset a b"
  by (simp add: common_prefix_loop_eq difference_offset_def Let_def min_def)

lemma byte_increment:
  fixes x y :: byte
  assumes "x < y"
  shows "x < x + 1" and "x + 1 \<le> y" and "uint x + 1 < uint y \<Longrightarrow> x + 1 < y"
proof -
  have y: "uint y \<le> 255" using uint_lt2p [of y] by simp
  have "uint x + 1 \<le> 255" using assms y by (simp add: word_less_def)
  then have u: "uint (x + 1) = uint x + 1"
    using uint_plus_if' [of x 1] by simp
  show "x < x + 1" "x + 1 \<le> y" using assms u by (simp_all add: word_less_def word_le_def)
  show "uint x + 1 < uint y \<Longrightarrow> x + 1 < y" using u by (simp add: word_less_def)
qed

lemma byte_lt_255: "(x :: byte) \<noteq> 255 \<longleftrightarrow> x < 255"
proof -
  have "x \<le> 255" using uint_lt2p [of x] by (simp add: word_le_def)
  then show ?thesis by auto
qed

lemma take_Suc_update:
  "i < length xs \<Longrightarrow> take (Suc i) (xs[i := y]) = take i xs @ [y]"
  by (simp add: take_Suc_conv_app_nth)

lemma increment_first_non_ff_shape:
  "i \<le> length xs \<Longrightarrow>
   \<exists>t. increment_first_non_ff xs i = take i xs @ t \<and> drop i xs \<le> t \<and> length t \<le> length xs - i"
proof (induction xs i rule: increment_first_non_ff.induct)
  case (1 xs i)
  show ?case
  proof (cases "i < length xs")
    case True
    then have d: "drop i xs = xs ! i # drop (i + 1) xs" by (simp add: Cons_nth_drop_Suc)
    show ?thesis
    proof (cases "xs ! i < 255")
      case inc: True
      then have "drop i xs \<le> [xs ! i + 1]" using byte_increment [OF inc] d by simp
      then show ?thesis
        using True inc
        by (auto simp: increment_first_non_ff.simps [of xs i] take_Suc_update)
    next
      case False
      then obtain t where t: "increment_first_non_ff xs (i + 1) = take (i + 1) xs @ t"
          "drop (i + 1) xs \<le> t" "length t \<le> length xs - (i + 1)"
        using 1 True by auto
      have "increment_first_non_ff xs i = take i xs @ (xs ! i # t)"
        using True False t(1)
        by (simp add: increment_first_non_ff.simps [of xs i] take_Suc_conv_app_nth)
      moreover have "drop i xs \<le> xs ! i # t" using t(2) d by simp
      moreover have "length (xs ! i # t) \<le> length xs - i" using t(3) True by simp
      ultimately show ?thesis by blast
    qed
  qed (auto simp: increment_first_non_ff.simps [of xs i] "1.prems")
qed

lemma FindShortSuccessor_loop_eq: "FindShortSuccessor_loop key i = increment_first_non_ff key i"
proof (induction key i rule: FindShortSuccessor_loop.induct)
  case (1 key i)
  then show ?case
    by (auto simp: FindShortSuccessor_loop.simps [of key i]
        increment_first_non_ff.simps [of key i] Let_def byte_lt_255)
qed

lemma append_less_cancel [simp]: "(p @ a < p @ b) \<longleftrightarrow> a < b"
    and append_le_cancel [simp]: "(p @ a \<le> p @ b) \<longleftrightarrow> a \<le> b"
  for p :: "byte list"
  by (induction p) auto

section \<open>The bytewise order keeps the contract\<close>

lemma FindShortestSeparator_bytewise:
  assumes "start < limit"
  shows "start \<le> FindShortestSeparator start limit"
    and "FindShortestSeparator start limit < limit"
    and "length (FindShortestSeparator start limit) \<le> length start"
proof -
  let ?d = "difference_offset start limit" and ?r = "FindShortestSeparator start limit"
  have "start \<le> ?r \<and> ?r < limit \<and> length ?r \<le> length start"
  proof (cases "?d < min (length start) (length limit)")
    case False
    then have "?r = start"
      by (auto simp: FindShortestSeparator_def common_prefix_difference_offset Let_def)
    then show ?thesis using assms by simp
  next
    case True
    then obtain p x y s l where split: "start = p @ x # s" "limit = p @ y # l"
      and xy: "x \<noteq> y" and d: "length p = ?d"
      by (rule difference_offset_split)
    have less: "x < y" using assms split xy by simp
    note inc = byte_increment [OF less]
    have at: "start ! ?d = x" "limit ! ?d = y" unfolding d [symmetric] by (simp_all add: split)
    show ?thesis
    proof (cases "?d < length limit - 1 \<or> uint x + 1 < uint y")
      case short: True
      then have "?r = take (?d + 1) (start[?d := x + 1])"
        using True less at
        by (auto simp: FindShortestSeparator_def Let_def common_prefix_difference_offset)
      then have r: "?r = p @ [x + 1]"
        unfolding d [symmetric] by (simp add: take_Suc_update split)
      have "l \<noteq> [] \<or> x + 1 < y" using short inc(3) split d by auto
      then have "?r < limit" using r split inc(2) by (cases l) auto
      then show ?thesis using r split inc(1) by simp
    next
      case long: False
      then have "?r = increment_first_non_ff start (?d + 1)"
        using True less at
        by (auto simp: FindShortestSeparator_def Let_def common_prefix_difference_offset)
      then obtain t where t: "?r = take (?d + 1) start @ t" "drop (?d + 1) start \<le> t"
          "length t \<le> length start - (?d + 1)"
        using increment_first_non_ff_shape [of "?d + 1" start] True by auto
      then have "?r = p @ x # t" "s \<le> t" unfolding d [symmetric] by (simp_all add: split)
      then show ?thesis using split less t(3) d by simp
    qed
  qed
  then show "start \<le> ?r" "?r < limit" "length ?r \<le> length start" by blast+
qed

lemma FindShortSuccessor_bytewise:
  "key \<le> FindShortSuccessor key" "length (FindShortSuccessor key) \<le> length key"
  using increment_first_non_ff_shape [of 0 key]
  by (auto simp: FindShortSuccessor_def FindShortSuccessor_loop_eq)

interpretation bytewise: shortening_comparator BytewiseCompare "\<lambda>_. True"
    FindShortestSeparator FindShortSuccessor
  by unfold_locales
     (auto simp: BytewiseCompare_def compare_iffs FindShortestSeparator_bytewise
        FindShortSuccessor_bytewise)

section \<open>The reverse bytewise order keeps the contract\<close>

lemma ReverseFindShortestSeparator_reverse:
  assumes "limit < start"
  shows "ReverseFindShortestSeparator start limit \<le> start"
    and "limit < ReverseFindShortestSeparator start limit"
proof -
  let ?d = "difference_offset start limit" and ?r = "ReverseFindShortestSeparator start limit"
  have "?r \<le> start \<and> limit < ?r"
  proof (cases "?d < min (length start) (length limit)")
    case True
    then obtain p x y s l where split: "start = p @ x # s" "limit = p @ y # l"
      and xy: "x \<noteq> y" and d: "length p = ?d"
      by (rule difference_offset_split)
    have less: "y < x" using assms split xy by simp
    have at: "start ! ?d = x" "limit ! ?d = y" unfolding d [symmetric] by (simp_all add: split)
    have "?r = start \<or> ?r = take (?d + 1) start"
      by (simp add: ReverseFindShortestSeparator_def Let_def common_prefix_difference_offset)
    then have "?r = start \<or> ?r = p @ [x]" unfolding d [symmetric] by (simp add: split)
    then show ?thesis using assms split less by auto
  next
    case False
    have "?d \<le> min (length start) (length limit)"
      unfolding common_prefix_difference_offset [symmetric] common_prefix_loop_eq
      by (rule difference_offset_loop_le) simp
    with False have "?r = start"
      by (auto simp: ReverseFindShortestSeparator_def Let_def common_prefix_difference_offset)
    then show ?thesis using assms by simp
  qed
  then show "?r \<le> start" "limit < ?r" by blast+
qed

interpretation reverse_bytewise: shortening_comparator ReverseBytewiseCompare "\<lambda>_. True"
    ReverseFindShortestSeparator ReverseFindShortSuccessor
  by unfold_locales
     (auto simp: ReverseBytewiseCompare_def compare_iffs ReverseFindShortestSeparator_reverse
        ReverseFindShortSuccessor_def)

section \<open>Timestamped orders keep the contract\<close>

context user_comparator
begin

lemma U64TsCompare_user_comparator:
  "user_comparator (U64TsCompare cmp)
     (\<lambda>a. length a \<ge> 8 \<and> valid (StripTimestampFromUserKey a 8))"
proof unfold_locales
  let ?s = "\<lambda>a. StripTimestampFromUserKey a 8"
  let ?t = "\<lambda>a. DecodeFixed64 (ExtractTimestampFromUserKey a 8)"
  have eq: "U64TsCompare cmp a b =
      (if cmp (?s a) (?s b) \<noteq> 0 then cmp (?s a) (?s b)
       else if ?t a < ?t b then 1 else if ?t a > ?t b then -1 else 0)" for a b
    by (simp add: U64TsCompare_def U64TsCompareWithoutTimestamp_def CompareTimestamp_def Let_def)
  fix a b c
  assume a: "8 \<le> length a \<and> valid (?s a)"
  then show "U64TsCompare cmp a a = 0" by (simp add: eq cmp_self)
  assume b: "8 \<le> length b \<and> valid (?s b)"
  show "(U64TsCompare cmp a b < 0) = (0 < U64TsCompare cmp b a)"
    using a b cmp_swap [of "?s a" "?s b"] cmp_zero_sym [of "?s a" "?s b"] by (auto simp: eq)
  assume c: "8 \<le> length c \<and> valid (?s c)"
    and "U64TsCompare cmp a b \<le> 0" and "U64TsCompare cmp b c \<le> 0"
  then have ab: "cmp (?s a) (?s b) < 0 \<or> cmp (?s a) (?s b) = 0 \<and> ?t b \<le> ?t a"
    and bc: "cmp (?s b) (?s c) < 0 \<or> cmp (?s b) (?s c) = 0 \<and> ?t c \<le> ?t b"
    by (auto simp: eq split: if_splits)
  have "cmp (?s a) (?s c) < 0 \<or> cmp (?s a) (?s c) = 0 \<and> ?t c \<le> ?t a"
    using ab bc a b c cmp_less_le_trans [of "?s a" "?s b" "?s c"]
      cmp_le_less_trans [of "?s a" "?s b" "?s c"] cmp_eq_trans [of "?s a" "?s b" "?s c"]
    by force
  then show "U64TsCompare cmp a c \<le> 0" by (auto simp: eq)
qed

end

interpretation bytewise_ts: user_comparator "U64TsCompare BytewiseCompare"
    "\<lambda>a. length a \<ge> 8 \<and> True"
  by (rule bytewise.U64TsCompare_user_comparator)

interpretation reverse_bytewise_ts: user_comparator "U64TsCompare ReverseBytewiseCompare"
    "\<lambda>a. length a \<ge> 8 \<and> True"
  by (rule reverse_bytewise.U64TsCompare_user_comparator)

section \<open>Immediate successors\<close>

text \<open>Keys of one length are big-endian numbers, and the test recognises consecutive ones.\<close>

fun be_value :: "slice \<Rightarrow> nat" where
  "be_value [] = 0"
| "be_value (x # xs) = unat x * 256 ^ length xs + be_value xs"

lemma be_value_less: "be_value xs < 256 ^ length xs"
proof (induction xs)
  case (Cons x xs)
  have "unat x \<le> 255" using unsigned_less [of x, where 'a = nat] by simp
  then have "unat x * 256 ^ length xs \<le> 255 * 256 ^ length xs" by (rule mult_right_mono) simp
  then have "unat x * 256 ^ length xs + be_value xs < 255 * 256 ^ length xs + 256 ^ length xs"
    using Cons by linarith
  then show ?case by simp
qed simp

lemma be_value_0_iff: "be_value xs = 0 \<longleftrightarrow> (\<forall>x\<in>set xs. x = 0)"
  by (induction xs) (auto simp: unat_eq_zero)

lemma be_value_max_iff: "be_value xs + 1 = 256 ^ length xs \<longleftrightarrow> (\<forall>x\<in>set xs. x = 255)"
proof (induction xs)
  case (Cons x xs)
  let ?B = "256 ^ length xs :: nat"
  have x: "unat x \<le> 255" using unsigned_less [of x, where 'a = nat] by simp
  have "unat x * ?B + be_value xs + 1 = 256 * ?B \<longleftrightarrow> unat x = 255 \<and> be_value xs + 1 = ?B"
  proof
    assume eq: "unat x * ?B + be_value xs + 1 = 256 * ?B"
    have "\<not> unat x < 255"
    proof
      assume "unat x < 255"
      then have "unat x * ?B \<le> 254 * ?B" by (intro mult_right_mono) auto
      then show False using eq be_value_less [of xs] by linarith
    qed
    with x eq show "unat x = 255 \<and> be_value xs + 1 = ?B" by simp
  qed simp
  moreover have "unat x = 255 \<longleftrightarrow> x = 255" by (simp add: word_unat_eq_iff)
  ultimately show ?case using Cons by simp
qed simp

lemma successor_tail_loop_iff:
  "successor_tail_loop s t i \<longleftrightarrow> (\<forall>j. i \<le> j \<and> j < length s \<longrightarrow> s ! j = 255 \<and> t ! j = 0)"
proof (induction s t i rule: successor_tail_loop.induct)
  case (1 s t i)
  show ?case
  proof (cases "i < length s")
    case True
    then show ?thesis
      unfolding all_from_step [OF True] using 1
      by (subst successor_tail_loop.simps) auto
  qed (subst successor_tail_loop.simps, auto)
qed

lemma successor_tail_Cons:
  assumes "length as = length bs"
  shows "successor_tail_loop (a # as) (b # bs) (Suc 0) \<longleftrightarrow>
      (\<forall>x\<in>set as. x = 255) \<and> (\<forall>y\<in>set bs. y = 0)"
    and "successor_tail_loop (a # as) (b # bs) (Suc i) \<longleftrightarrow> successor_tail_loop as bs i"
proof -
  have *: "successor_tail_loop (a # as) (b # bs) (Suc i) \<longleftrightarrow>
      (\<forall>j. i \<le> j \<and> j < length as \<longrightarrow> as ! j = 255 \<and> bs ! j = 0)" for i
    by (simp add: successor_tail_loop_iff all_from_Suc)
  show "successor_tail_loop (a # as) (b # bs) (Suc 0) \<longleftrightarrow>
      (\<forall>x\<in>set as. x = 255) \<and> (\<forall>y\<in>set bs. y = 0)"
    unfolding * all_set_conv_all_nth using assms by auto
  show "successor_tail_loop (a # as) (b # bs) (Suc i) \<longleftrightarrow> successor_tail_loop as bs i"
    unfolding * by (simp add: successor_tail_loop_iff)
qed

lemma IsSameLengthImmediateSuccessor_Cons:
  "IsSameLengthImmediateSuccessor (a # as) (b # bs) \<longleftrightarrow> length as = length bs \<and>
     (if a = b then IsSameLengthImmediateSuccessor as bs
      else uint a + 1 = uint b \<and> (\<forall>x\<in>set as. x = 255) \<and> (\<forall>y\<in>set bs. y = 0))"
proof (cases "length as = length bs \<and> a \<noteq> b")
  case True
  have "uint a + 1 = uint b \<Longrightarrow> a \<noteq> 255" using uint_lt2p [of b] by auto
  then show ?thesis using True
    by (auto simp: IsSameLengthImmediateSuccessor_def successor_tail_Cons(1))
next
  case False
  then show ?thesis
    by (cases "as = []") (auto simp: IsSameLengthImmediateSuccessor_def successor_tail_Cons(2) Let_def)
qed

text \<open>
  C23: \<open>IsSameLengthImmediateSuccessor\<close> holds exactly for two keys of one length of which the
  second is the first plus one as big-endian numbers.
\<close>

theorem immediate_successor_is_increment:
  "IsSameLengthImmediateSuccessor s t \<longleftrightarrow> length s = length t \<and> be_value t = be_value s + 1"
proof (induction s t rule: list_induct2')
  case (4 a as b bs)
  show ?case
  proof (cases "length as = length bs \<and> a \<noteq> b")
    case True
    let ?B = "256 ^ length as :: nat"
    have u: "be_value as < ?B" "be_value bs < ?B"
      using be_value_less [of as] be_value_less [of bs] True by simp_all
    have "unat b * ?B + be_value bs = unat a * ?B + be_value as + 1 \<longleftrightarrow>
      unat b = unat a + 1 \<and> be_value bs = 0 \<and> be_value as + 1 = ?B"
    proof
      assume eq: "unat b * ?B + be_value bs = unat a * ?B + be_value as + 1"
      have "unat b \<noteq> unat a" using True by (simp add: word_unat_eq_iff)
      moreover have "\<not> unat b < unat a"
      proof
        assume "unat b < unat a"
        then have "(unat b + 1) * ?B \<le> unat a * ?B" by (intro mult_right_mono) auto
        then show False using eq u unfolding add_mult_distrib by linarith
      qed
      moreover have "\<not> unat a + 1 < unat b"
      proof
        assume "unat a + 1 < unat b"
        then have "(unat a + 2) * ?B \<le> unat b * ?B" by (intro mult_right_mono) auto
        then show False using eq u unfolding add_mult_distrib by linarith
      qed
      ultimately have "unat b = unat a + 1" by simp
      then show "unat b = unat a + 1 \<and> be_value bs = 0 \<and> be_value as + 1 = ?B"
        using eq u by simp
    qed simp
    moreover have "uint a + 1 = uint b \<longleftrightarrow> unat b = unat a + 1"
      unfolding uint_nat by linarith
    ultimately have "be_value (b # bs) = be_value (a # as) + 1 \<longleftrightarrow>
        uint a + 1 = uint b \<and> be_value bs = 0 \<and> be_value as + 1 = ?B"
      using True by simp
    then show ?thesis using True
      unfolding IsSameLengthImmediateSuccessor_Cons be_value_0_iff be_value_max_iff by auto
  qed (use 4 in \<open>auto simp: IsSameLengthImmediateSuccessor_Cons\<close>)
qed (auto simp: IsSameLengthImmediateSuccessor_def)

section \<open>The comparator contracts\<close>

text \<open>
  C20: What an index block relies on. For keys in order, the bytewise separator is at or after
  every key up to \<open>start\<close> and strictly before every key from \<open>limit\<close> on, and the short
  successor is at or after every key up to \<open>key\<close>.
\<close>

theorem bytewise_separator_splits:
  assumes "BytewiseCompare start limit < 0"
  shows "(BytewiseCompare k start \<le> 0 \<longrightarrow> BytewiseCompare k (FindShortestSeparator start limit) \<le> 0) \<and>
    (BytewiseCompare limit k \<le> 0 \<longrightarrow> BytewiseCompare (FindShortestSeparator start limit) k < 0) \<and>
    (BytewiseCompare k key \<le> 0 \<longrightarrow> BytewiseCompare k (FindShortSuccessor key) \<le> 0)"
  using assms bytewise.separator_splits [where k = k and start = start and limit = limit] bytewise.successor_bounds [of k key]
  by blast

theorem bytewise_separator_splits_witness:
  "FindShortestSeparator [97, 97, 97, 97] [97, 100, 99] = [97, 98] \<and>
   BytewiseCompare (FindShortestSeparator [97, 97, 97, 97] [97, 100, 99]) [97, 100, 99] < 0"
proof
  show "FindShortestSeparator [97, 97, 97, 97] [97, 100, 99] = [97, 98]" by code_simp
  have "BytewiseCompare [97, 97, 97, 97] [97, 100, 99] < 0"
    "BytewiseCompare [97, 100, 99] [97, 100, 99] \<le> 0" by code_simp+
  then show "BytewiseCompare (FindShortestSeparator [97, 97, 97, 97] [97, 100, 99]) [97, 100, 99] < 0"
    using bytewise_separator_splits [of "[97, 97, 97, 97]" "[97, 100, 99]" "[97, 100, 99]"] by blast
qed

text \<open>
  C21: The same contract for the reverse bytewise comparator, whose separator truncates
  instead of incrementing.
\<close>

theorem reverse_separator_splits:
  assumes "ReverseBytewiseCompare start limit < 0"
  shows "(ReverseBytewiseCompare k start \<le> 0 \<longrightarrow>
      ReverseBytewiseCompare k (ReverseFindShortestSeparator start limit) \<le> 0) \<and>
    (ReverseBytewiseCompare limit k \<le> 0 \<longrightarrow>
      ReverseBytewiseCompare (ReverseFindShortestSeparator start limit) k < 0)"
  using assms reverse_bytewise.separator_splits [where k = k and start = start and limit = limit] by blast

theorem reverse_separator_splits_witness:
  "ReverseFindShortestSeparator [97, 100, 99] [97, 97, 98, 98] = [97, 100] \<and>
   ReverseBytewiseCompare (ReverseFindShortestSeparator [97, 100, 99] [97, 97, 98, 98])
     [97, 97, 98, 98] < 0"
proof
  show "ReverseFindShortestSeparator [97, 100, 99] [97, 97, 98, 98] = [97, 100]" by code_simp
  have "ReverseBytewiseCompare [97, 100, 99] [97, 97, 98, 98] < 0"
    "ReverseBytewiseCompare [97, 97, 98, 98] [97, 97, 98, 98] \<le> 0" by code_simp+
  then show "ReverseBytewiseCompare (ReverseFindShortestSeparator [97, 100, 99] [97, 97, 98, 98])
     [97, 97, 98, 98] < 0"
    using reverse_separator_splits [of "[97, 100, 99]" "[97, 97, 98, 98]" "[97, 97, 98, 98]"] by blast
qed

text \<open>
  C24: On keys that carry a timestamp of eight bytes the timestamped bytewise comparator is a
  total preorder, and of two versions of one key it puts the newer first.
\<close>

theorem timestamped_order:
  assumes "8 \<le> length a" "8 \<le> length b" "8 \<le> length c"
  shows "(U64TsCompare BytewiseCompare a b < 0 \<longleftrightarrow> U64TsCompare BytewiseCompare b a > 0) \<and>
    (U64TsCompare BytewiseCompare a b \<le> 0 \<longrightarrow> U64TsCompare BytewiseCompare b c \<le> 0 \<longrightarrow>
      U64TsCompare BytewiseCompare a c \<le> 0) \<and>
    (t > t' \<longrightarrow> U64TsCompare BytewiseCompare (k @ EncodeU64Ts t) (k @ EncodeU64Ts t') < 0)"
proof -
  have "t > t' \<longrightarrow> U64TsCompare BytewiseCompare (k @ EncodeU64Ts t) (k @ EncodeU64Ts t') < 0"
    by (auto simp: U64TsCompare_def U64TsCompareWithoutTimestamp_def CompareTimestamp_def
        DecodeU64Ts_def EncodeU64Ts_def PutFixed64_def StripTimestampFromUserKey_def
        ExtractTimestampFromUserKey_def BytewiseCompare_def compare_cases Let_def)
  then show ?thesis
    using bytewise_ts.cmp_swap [of a b] bytewise_ts.cmp_le_trans [of a b c] assms by blast
qed

theorem timestamped_order_witness:
  "8 \<le> length (EncodeU64Ts 5) \<and>
   U64TsCompare BytewiseCompare ([97] @ EncodeU64Ts 9) ([97] @ EncodeU64Ts 5) < 0"
  using timestamped_order [of "[97] @ EncodeU64Ts 9" "[97] @ EncodeU64Ts 9" "[97] @ EncodeU64Ts 9" 5 9 "[97]"]
  by (simp add: EncodeU64Ts_def PutFixed64_def)

end
