(* ===== verification/Dbformat.thy ===== *)
theory Dbformat
  imports Comparators
begin

text \<open>
  Internal keys (\<open>db/dbformat.h\<close>, \<open>db/dbformat.cc\<close>, \<open>db/lookup_key.h\<close>): a user key followed
  by eight bytes that pack the sequence number and the value type, the order on them, the
  lookup key that a read at a snapshot seeks to, range tombstones as internal keys, and the
  timestamp surgery on keys. The functions run with assertions compiled out, as the build
  does; what an \<open>assert\<close> says is a hypothesis where a lemma needs it.

  A \<open>ValueType\<close> is its byte: the decoders cast any byte to the enumeration.
\<close>

unbundle bit_operations_syntax

section \<open>Value types\<close>

type_synonym value_type = byte

definition kTypeDeletion :: value_type where "kTypeDeletion = 0x0"
definition kTypeValue :: value_type where "kTypeValue = 0x1"
definition kTypeMerge :: value_type where "kTypeMerge = 0x2"
definition kTypeLogData :: value_type where "kTypeLogData = 0x3"
definition kTypeColumnFamilyDeletion :: value_type where "kTypeColumnFamilyDeletion = 0x4"
definition kTypeColumnFamilyValue :: value_type where "kTypeColumnFamilyValue = 0x5"
definition kTypeColumnFamilyMerge :: value_type where "kTypeColumnFamilyMerge = 0x6"
definition kTypeSingleDeletion :: value_type where "kTypeSingleDeletion = 0x7"
definition kTypeColumnFamilySingleDeletion :: value_type where
  "kTypeColumnFamilySingleDeletion = 0x8"
definition kTypeBeginPrepareXID :: value_type where "kTypeBeginPrepareXID = 0x9"
definition kTypeEndPrepareXID :: value_type where "kTypeEndPrepareXID = 0xA"
definition kTypeCommitXID :: value_type where "kTypeCommitXID = 0xB"
definition kTypeRollbackXID :: value_type where "kTypeRollbackXID = 0xC"
definition kTypeNoop :: value_type where "kTypeNoop = 0xD"
definition kTypeColumnFamilyRangeDeletion :: value_type where
  "kTypeColumnFamilyRangeDeletion = 0xE"
definition kTypeRangeDeletion :: value_type where "kTypeRangeDeletion = 0xF"
definition kTypeColumnFamilyBlobIndex :: value_type where "kTypeColumnFamilyBlobIndex = 0x10"
definition kTypeBlobIndex :: value_type where "kTypeBlobIndex = 0x11"
definition kTypeBeginPersistedPrepareXID :: value_type where
  "kTypeBeginPersistedPrepareXID = 0x12"
definition kTypeBeginUnprepareXID :: value_type where "kTypeBeginUnprepareXID = 0x13"
definition kTypeDeletionWithTimestamp :: value_type where "kTypeDeletionWithTimestamp = 0x14"
definition kTypeCommitXIDAndTimestamp :: value_type where "kTypeCommitXIDAndTimestamp = 0x15"
definition kTypeWideColumnEntity :: value_type where "kTypeWideColumnEntity = 0x16"
definition kTypeColumnFamilyWideColumnEntity :: value_type where
  "kTypeColumnFamilyWideColumnEntity = 0x17"
definition kTypeValuePreferredSeqno :: value_type where "kTypeValuePreferredSeqno = 0x18"
definition kTypeColumnFamilyValuePreferredSeqno :: value_type where
  "kTypeColumnFamilyValuePreferredSeqno = 0x19"
definition kTypeMaxValid :: value_type where "kTypeMaxValid = 0x1A"

lemmas value_type_defs =
  kTypeDeletion_def kTypeValue_def kTypeMerge_def kTypeLogData_def
  kTypeColumnFamilyDeletion_def kTypeColumnFamilyValue_def kTypeColumnFamilyMerge_def
  kTypeSingleDeletion_def kTypeColumnFamilySingleDeletion_def kTypeBeginPrepareXID_def
  kTypeEndPrepareXID_def kTypeCommitXID_def kTypeRollbackXID_def kTypeNoop_def
  kTypeColumnFamilyRangeDeletion_def kTypeRangeDeletion_def kTypeColumnFamilyBlobIndex_def
  kTypeBlobIndex_def kTypeBeginPersistedPrepareXID_def kTypeBeginUnprepareXID_def
  kTypeDeletionWithTimestamp_def kTypeCommitXIDAndTimestamp_def kTypeWideColumnEntity_def
  kTypeColumnFamilyWideColumnEntity_def kTypeValuePreferredSeqno_def
  kTypeColumnFamilyValuePreferredSeqno_def kTypeMaxValid_def

definition kValueTypeForSeek :: value_type where
  "kValueTypeForSeek = kTypeValuePreferredSeqno"

definition kValueTypeForSeekForPrev :: value_type where
  "kValueTypeForSeekForPrev = kTypeDeletion"

definition IsValueType :: "value_type \<Rightarrow> bool" where
  "IsValueType t \<longleftrightarrow>
     t \<le> kTypeMerge \<or> kTypeSingleDeletion = t \<or> kTypeBlobIndex = t \<or>
     kTypeDeletionWithTimestamp = t \<or> kTypeWideColumnEntity = t \<or>
     kTypeValuePreferredSeqno = t"

definition IsExtendedValueType :: "value_type \<Rightarrow> bool" where
  "IsExtendedValueType t \<longleftrightarrow> IsValueType t \<or> t = kTypeRangeDeletion \<or> t = kTypeMaxValid"

datatype entry_type =
  kEntryPut | kEntryDelete | kEntrySingleDelete | kEntryMerge | kEntryRangeDeletion
| kEntryBlobIndex | kEntryDeleteWithTimestamp | kEntryWideColumnEntity | kEntryTimedPut
| kEntryOther

definition GetEntryType :: "value_type \<Rightarrow> entry_type" where
  "GetEntryType value_type =
     (if value_type = kTypeValue then kEntryPut
      else if value_type = kTypeDeletion then kEntryDelete
      else if value_type = kTypeDeletionWithTimestamp then kEntryDeleteWithTimestamp
      else if value_type = kTypeSingleDeletion then kEntrySingleDelete
      else if value_type = kTypeMerge then kEntryMerge
      else if value_type = kTypeRangeDeletion then kEntryRangeDeletion
      else if value_type = kTypeBlobIndex then kEntryBlobIndex
      else if value_type = kTypeWideColumnEntity then kEntryWideColumnEntity
      else if value_type = kTypeValuePreferredSeqno then kEntryTimedPut
      else kEntryOther)"

section \<open>Packing\<close>

definition kMaxSequenceNumber :: u64 where
  "kMaxSequenceNumber = push_bit 56 1 - 1"

definition kDisableGlobalSequenceNumber :: u64 where
  "kDisableGlobalSequenceNumber = -1"

definition kNumInternalBytes :: nat where
  "kNumInternalBytes = 8"

record ParsedInternalKey =
  user_key :: slice
  sequence :: u64
  type :: value_type

definition InternalKeyEncodingLength :: "ParsedInternalKey \<Rightarrow> nat" where
  "InternalKeyEncodingLength key = length (user_key key) + kNumInternalBytes"

definition PackSequenceAndType :: "u64 \<Rightarrow> value_type \<Rightarrow> u64" where
  "PackSequenceAndType seq t = push_bit 8 seq OR ucast t"

definition UnPackSequenceAndType :: "u64 \<Rightarrow> u64 \<times> value_type" where
  "UnPackSequenceAndType packed = (drop_bit 8 packed, ucast (packed AND 255))"

definition kRangeTombstoneSentinel :: u64 where
  "kRangeTombstoneSentinel = PackSequenceAndType kMaxSequenceNumber kTypeRangeDeletion"

section \<open>Building and taking apart internal keys\<close>

definition AppendInternalKeyFooter :: "slice \<Rightarrow> u64 \<Rightarrow> value_type \<Rightarrow> slice" where
  "AppendInternalKeyFooter result s t = PutFixed64 result (PackSequenceAndType s t)"

definition AppendInternalKey :: "slice \<Rightarrow> ParsedInternalKey \<Rightarrow> slice" where
  "AppendInternalKey result key =
     PutFixed64 (result @ user_key key) (PackSequenceAndType (sequence key) (type key))"

definition AppendInternalKeyWithDifferentTimestamp ::
    "slice \<Rightarrow> ParsedInternalKey \<Rightarrow> slice \<Rightarrow> slice" where
  "AppendInternalKeyWithDifferentTimestamp result key ts =
     PutFixed64 (result @ take (length (user_key key) - length ts) (user_key key) @ ts)
       (PackSequenceAndType (sequence key) (type key))"

definition AppendUserKeyWithDifferentTimestamp :: "slice \<Rightarrow> slice \<Rightarrow> slice \<Rightarrow> slice" where
  "AppendUserKeyWithDifferentTimestamp result key ts =
     result @ take (length key - length ts) key @ ts"

definition AppendKeyWithMinTimestamp :: "slice \<Rightarrow> slice \<Rightarrow> nat \<Rightarrow> slice" where
  "AppendKeyWithMinTimestamp result key ts_sz = result @ key @ replicate ts_sz 0"

definition AppendKeyWithMaxTimestamp :: "slice \<Rightarrow> slice \<Rightarrow> nat \<Rightarrow> slice" where
  "AppendKeyWithMaxTimestamp result key ts_sz = result @ key @ replicate ts_sz 255"

definition AppendUserKeyWithMinTimestamp :: "slice \<Rightarrow> slice \<Rightarrow> nat \<Rightarrow> slice" where
  "AppendUserKeyWithMinTimestamp result key ts_sz =
     result @ take (length key - ts_sz) key @ replicate ts_sz 0"

text \<open>The constant string holds nine bytes; longer timestamps take the other branch.\<close>

definition AppendUserKeyWithMaxTimestamp :: "slice \<Rightarrow> slice \<Rightarrow> nat \<Rightarrow> slice" where
  "AppendUserKeyWithMaxTimestamp result key ts_sz =
     (let kTsMax = replicate 9 255 in
      result @ take (length key - ts_sz) key @
        (if ts_sz < length kTsMax then take ts_sz kTsMax else replicate ts_sz 255))"

definition PadInternalKeyWithMinTimestamp :: "slice \<Rightarrow> slice \<Rightarrow> nat \<Rightarrow> slice" where
  "PadInternalKeyWithMinTimestamp result key ts_sz =
     (let user_key_size = length key - kNumInternalBytes
      in result @ take user_key_size key @ replicate ts_sz 0 @
           take kNumInternalBytes (drop user_key_size key))"

definition PadInternalKeyWithMaxTimestamp :: "slice \<Rightarrow> slice \<Rightarrow> nat \<Rightarrow> slice" where
  "PadInternalKeyWithMaxTimestamp result key ts_sz =
     (let user_key_size = length key - kNumInternalBytes
      in result @ take user_key_size key @ replicate ts_sz 255 @
           take kNumInternalBytes (drop user_key_size key))"

definition StripTimestampFromInternalKey :: "slice \<Rightarrow> slice \<Rightarrow> nat \<Rightarrow> slice" where
  "StripTimestampFromInternalKey result key ts_sz =
     result @ take (length key - kNumInternalBytes - ts_sz) key @
       take kNumInternalBytes (drop (length key - kNumInternalBytes) key)"

definition ReplaceInternalKeyWithMinTimestamp :: "slice \<Rightarrow> slice \<Rightarrow> nat \<Rightarrow> slice" where
  "ReplaceInternalKeyWithMinTimestamp result key ts_sz =
     (let key_sz = length key
      in result @ take (key_sz - kNumInternalBytes - ts_sz) key @ replicate ts_sz 0 @
           take kNumInternalBytes (drop (key_sz - kNumInternalBytes) key))"

definition ExtractUserKey :: "slice \<Rightarrow> slice" where
  "ExtractUserKey internal_key = take (length internal_key - kNumInternalBytes) internal_key"

definition ExtractUserKeyAndStripTimestamp :: "slice \<Rightarrow> nat \<Rightarrow> slice" where
  "ExtractUserKeyAndStripTimestamp internal_key ts_sz =
     take (length internal_key - (kNumInternalBytes + ts_sz)) internal_key"

definition ExtractTimestampFromKey :: "slice \<Rightarrow> nat \<Rightarrow> slice" where
  "ExtractTimestampFromKey internal_key ts_sz =
     (let key_size = length internal_key
      in take ts_sz (drop (key_size - ts_sz - kNumInternalBytes) internal_key))"

definition ExtractInternalKeyFooter :: "slice \<Rightarrow> u64" where
  "ExtractInternalKeyFooter internal_key =
     (let n = length internal_key in DecodeFixed64 (drop (n - kNumInternalBytes) internal_key))"

definition ExtractValueType :: "slice \<Rightarrow> value_type" where
  "ExtractValueType internal_key =
     (let num = ExtractInternalKeyFooter internal_key in ucast (num AND 255))"

definition UpdateInternalKey :: "slice \<Rightarrow> u64 \<Rightarrow> value_type \<Rightarrow> slice" where
  "UpdateInternalKey ikey seq t =
     (let ikey_sz = length ikey; newval = push_bit 8 seq OR ucast t
      in take (ikey_sz - kNumInternalBytes) ikey @ EncodeFixed64 newval)"

definition GetInternalKeySeqno :: "slice \<Rightarrow> u64" where
  "GetInternalKeySeqno internal_key =
     (let n = length internal_key; num = DecodeFixed64 (drop (n - kNumInternalBytes) internal_key)
      in drop_bit 8 num)"

text \<open>
  \<open>DebugString\<close> with the timestamp size and the timestamp printer of the comparator argument;
  None is the null comparator.
\<close>

definition ParsedInternalKey_DebugString ::
    "ParsedInternalKey \<Rightarrow> bool \<Rightarrow> bool \<Rightarrow> (nat \<times> (slice \<Rightarrow> slice)) option \<Rightarrow> slice" where
  "ParsedInternalKey_DebugString k log_err_key hex ucmp =
     (let result = [39];
          ts_sz_for_debug = (case ucmp of None \<Rightarrow> 0 | Some (ts_sz, _) \<Rightarrow> ts_sz);
          result =
            (if log_err_key then
               (if ts_sz_for_debug = 0 then result @ ToString (user_key k) hex
                else
                  let user_key_without_ts = remove_suffix (user_key k) ts_sz_for_debug;
                      ts = take ts_sz_for_debug
                             (drop (length (user_key k) - ts_sz_for_debug) (user_key k))
                  in result @ ToString user_key_without_ts hex @ str ''|timestamp:'' @
                     (case ucmp of None \<Rightarrow> [] | Some (_, TimestampToString) \<Rightarrow> TimestampToString ts))
             else result @ str ''<redacted>'')
      in result @ [39] @ str '' seq:'' @ to_string (unat (sequence k)) @
         str '', type:'' @ to_string (unat (type k)))"

definition ParseInternalKey :: "slice \<Rightarrow> bool \<Rightarrow> status \<times> ParsedInternalKey option" where
  "ParseInternalKey internal_key log_err_key =
     (let n = length internal_key in
      if n < kNumInternalBytes then
        (Corruption (str ''Corrupted Key: Internal Key too small. Size='' @ to_string n @ str ''. '')
           [], None)
      else
        let num = DecodeFixed64 (drop (n - kNumInternalBytes) internal_key);
            c = ucast (num AND 255);
            result = \<lparr>user_key = take (n - kNumInternalBytes) internal_key,
                      sequence = drop_bit 8 num, type = c\<rparr>
        in if IsExtendedValueType (type result) then (OK, Some result)
           else (Corruption (str ''Corrupted Key'')
                   (ParsedInternalKey_DebugString result log_err_key True None), Some result))"

section \<open>The order on internal keys\<close>

text \<open>\<open>ucmp\<close> is \<open>user_comparator_.Compare\<close>.\<close>

definition InternalKeyCompare :: "(slice \<Rightarrow> slice \<Rightarrow> int) \<Rightarrow> slice \<Rightarrow> slice \<Rightarrow> int" where
  "InternalKeyCompare ucmp akey bkey =
     (let r = ucmp (ExtractUserKey akey) (ExtractUserKey bkey) in
      if r = 0 then
        let anum = DecodeFixed64 (drop (length akey - kNumInternalBytes) akey);
            bnum = DecodeFixed64 (drop (length bkey - kNumInternalBytes) bkey)
        in if anum > bnum then -1 else if anum < bnum then 1 else r
      else r)"

definition CompareKeySeq :: "(slice \<Rightarrow> slice \<Rightarrow> int) \<Rightarrow> slice \<Rightarrow> slice \<Rightarrow> int" where
  "CompareKeySeq ucmp akey bkey =
     (let r = ucmp (ExtractUserKey akey) (ExtractUserKey bkey) in
      if r = 0 then
        let anum = drop_bit 8 (DecodeFixed64 (drop (length akey - kNumInternalBytes) akey));
            bnum = drop_bit 8 (DecodeFixed64 (drop (length bkey - kNumInternalBytes) bkey))
        in if anum > bnum then -1 else if anum < bnum then 1 else r
      else r)"

definition CompareKeySeq_parsed ::
    "(slice \<Rightarrow> slice \<Rightarrow> int) \<Rightarrow> ParsedInternalKey \<Rightarrow> slice \<Rightarrow> int" where
  "CompareKeySeq_parsed ucmp a b =
     (let r = ucmp (user_key a) (ExtractUserKey b) in
      if r = 0 then
        let anum = sequence a;
            bnum = drop_bit 8 (DecodeFixed64 (drop (length b - kNumInternalBytes) b))
        in if anum > bnum then -1 else if anum < bnum then 1 else r
      else r)"

definition InternalKeyCompare_parsed ::
    "(slice \<Rightarrow> slice \<Rightarrow> int) \<Rightarrow> ParsedInternalKey \<Rightarrow> ParsedInternalKey \<Rightarrow> int" where
  "InternalKeyCompare_parsed ucmp a b =
     (let r = ucmp (user_key a) (user_key b) in
      if r = 0 then
        (if sequence a > sequence b then -1
         else if sequence a < sequence b then 1
         else if type a > type b then -1
         else if type a < type b then 1
         else r)
      else r)"

definition InternalKeyCompare_slice_parsed ::
    "(slice \<Rightarrow> slice \<Rightarrow> int) \<Rightarrow> slice \<Rightarrow> ParsedInternalKey \<Rightarrow> int" where
  "InternalKeyCompare_slice_parsed ucmp a b =
     (let r = ucmp (ExtractUserKey a) (user_key b) in
      if r = 0 then
        let anum = DecodeFixed64 (drop (length a - kNumInternalBytes) a);
            bnum = push_bit 8 (sequence b) OR ucast (type b)
        in if anum > bnum then -1 else if anum < bnum then 1 else r
      else r)"

definition InternalKeyCompare_parsed_slice ::
    "(slice \<Rightarrow> slice \<Rightarrow> int) \<Rightarrow> ParsedInternalKey \<Rightarrow> slice \<Rightarrow> int" where
  "InternalKeyCompare_parsed_slice ucmp a b = - InternalKeyCompare_slice_parsed ucmp b a"

definition InternalKeyCompare_global ::
    "(slice \<Rightarrow> slice \<Rightarrow> int) \<Rightarrow> slice \<Rightarrow> u64 \<Rightarrow> slice \<Rightarrow> u64 \<Rightarrow> int" where
  "InternalKeyCompare_global ucmp a a_global_seqno b b_global_seqno =
     (let r = ucmp (ExtractUserKey a) (ExtractUserKey b) in
      if r = 0 then
        let a_footer =
              (if a_global_seqno = kDisableGlobalSequenceNumber then ExtractInternalKeyFooter a
               else PackSequenceAndType a_global_seqno (ExtractValueType a));
            b_footer =
              (if b_global_seqno = kDisableGlobalSequenceNumber then ExtractInternalKeyFooter b
               else PackSequenceAndType b_global_seqno (ExtractValueType b))
        in if a_footer > b_footer then -1 else if a_footer < b_footer then 1 else r
      else r)"

section \<open>Encoded keys for seeking\<close>

text \<open>An \<open>InternalKey\<close> is its \<open>rep_\<close> string.\<close>

definition InternalKey :: "slice \<Rightarrow> u64 \<Rightarrow> value_type \<Rightarrow> slice" where
  "InternalKey k s t = AppendInternalKey [] \<lparr>user_key = k, sequence = s, type = t\<rparr>"

definition InternalKey_ts :: "slice \<Rightarrow> u64 \<Rightarrow> value_type \<Rightarrow> slice \<Rightarrow> slice" where
  "InternalKey_ts k s t ts =
     AppendInternalKeyWithDifferentTimestamp [] \<lparr>user_key = k, sequence = s, type = t\<rparr> ts"

definition SetMaxPossibleForUserKey :: "slice \<Rightarrow> slice \<Rightarrow> slice" where
  "SetMaxPossibleForUserKey rep k =
     AppendInternalKey rep \<lparr>user_key = k, sequence = 0, type = 0\<rparr>"

definition SetMinPossibleForUserKey :: "slice \<Rightarrow> slice \<Rightarrow> slice" where
  "SetMinPossibleForUserKey rep k =
     AppendInternalKey rep
       \<lparr>user_key = k, sequence = kMaxSequenceNumber, type = kValueTypeForSeek\<rparr>"

definition InternalKey_Valid :: "slice \<Rightarrow> bool" where
  "InternalKey_Valid rep = ok (fst (ParseInternalKey rep False))"

definition InternalKey_Set :: "slice \<Rightarrow> u64 \<Rightarrow> value_type \<Rightarrow> slice" where
  "InternalKey_Set k s t = AppendInternalKey [] \<lparr>user_key = k, sequence = s, type = t\<rparr>"

definition ConvertFromUserKey :: "slice \<Rightarrow> u64 \<Rightarrow> value_type \<Rightarrow> slice" where
  "ConvertFromUserKey rep s t = AppendInternalKeyFooter rep s t"

text \<open>
  The lookup key is one buffer; \<open>lk_kstart\<close> is the offset of \<open>kstart_\<close> in it.
\<close>

record LookupKey =
  lk_buf :: slice
  lk_kstart :: nat

definition LookupKey_make :: "slice \<Rightarrow> u64 \<Rightarrow> slice option \<Rightarrow> LookupKey" where
  "LookupKey_make k s ts =
     (let usize = length k; ts_sz = (case ts of None \<Rightarrow> 0 | Some t \<Rightarrow> length t);
          len = EncodeVarint32 (of_nat (usize + ts_sz + 8))
      in \<lparr>lk_buf = len @ k @ (case ts of None \<Rightarrow> [] | Some t \<Rightarrow> t) @
                   EncodeFixed64 (PackSequenceAndType s kValueTypeForSeek),
          lk_kstart = length len\<rparr>)"

definition memtable_key :: "LookupKey \<Rightarrow> slice" where
  "memtable_key lk = lk_buf lk"

definition internal_key :: "LookupKey \<Rightarrow> slice" where
  "internal_key lk = drop (lk_kstart lk) (lk_buf lk)"

definition lookup_user_key :: "LookupKey \<Rightarrow> slice" where
  "lookup_user_key lk =
     take (length (lk_buf lk) - lk_kstart lk - 8) (drop (lk_kstart lk) (lk_buf lk))"

definition InternalKeySliceTransform :: "slice_transform \<Rightarrow> slice_transform" where
  "InternalKeySliceTransform transform =
     \<lparr>Transform = (\<lambda>src. Transform transform (ExtractUserKey src)),
      InDomain = (\<lambda>src. InDomain transform (ExtractUserKey src)),
      InRange = (\<lambda>dst. InRange transform (ExtractUserKey dst)),
      SameResultWhenAppended = (\<lambda>_. False)\<rparr>"

section \<open>Range tombstones\<close>

record RangeTombstone =
  start_key :: slice
  end_key :: slice
  tomb_seq :: u64
  tomb_ts :: slice

definition RangeTombstone_make :: "slice \<Rightarrow> slice \<Rightarrow> u64 \<Rightarrow> RangeTombstone" where
  "RangeTombstone_make sk ek sn = \<lparr>start_key = sk, end_key = ek, tomb_seq = sn, tomb_ts = []\<rparr>"

definition RangeTombstone_make_ts :: "slice \<Rightarrow> slice \<Rightarrow> u64 \<Rightarrow> slice \<Rightarrow> RangeTombstone" where
  "RangeTombstone_make_ts sk ek sn ts =
     (let ts_sz = length ts;
          pinned_start_key = AppendUserKeyWithDifferentTimestamp [] sk ts;
          pinned_end_key = AppendUserKeyWithDifferentTimestamp [] ek ts
      in \<lparr>start_key = pinned_start_key, end_key = pinned_end_key, tomb_seq = sn,
          tomb_ts = take ts_sz (drop (length sk - ts_sz) pinned_start_key)\<rparr>)"

definition RangeTombstone_parsed :: "ParsedInternalKey \<Rightarrow> slice \<Rightarrow> RangeTombstone" where
  "RangeTombstone_parsed parsed_key value =
     \<lparr>start_key = user_key parsed_key, end_key = value, tomb_seq = sequence parsed_key,
      tomb_ts = []\<rparr>"

definition SerializeKey :: "RangeTombstone \<Rightarrow> slice" where
  "SerializeKey t = InternalKey (start_key t) (tomb_seq t) kTypeRangeDeletion"

definition Serialize :: "RangeTombstone \<Rightarrow> slice \<times> slice" where
  "Serialize t = (InternalKey (start_key t) (tomb_seq t) kTypeRangeDeletion, end_key t)"

definition SerializeEndKey :: "RangeTombstone \<Rightarrow> slice" where
  "SerializeEndKey t =
     (if tomb_ts t \<noteq> [] then
        let kTsMax = replicate 9 255 in
        if length (tomb_ts t) \<le> length kTsMax
        then InternalKey_ts (end_key t) kMaxSequenceNumber kTypeRangeDeletion
               (take (length (tomb_ts t)) kTsMax)
        else InternalKey_ts (end_key t) kMaxSequenceNumber kTypeRangeDeletion
               (replicate (length (tomb_ts t)) 255)
      else InternalKey (end_key t) kMaxSequenceNumber kTypeRangeDeletion)"

section \<open>Predecessor log information\<close>

record PredecessorWALInfo =
  wal_log_number :: u64
  wal_size_bytes :: u64
  wal_last_seqno_recorded :: u64
  wal_initialized :: bool

definition PredecessorWALInfo_default :: PredecessorWALInfo where
  "PredecessorWALInfo_default =
     \<lparr>wal_log_number = 0, wal_size_bytes = 0, wal_last_seqno_recorded = 0,
      wal_initialized = False\<rparr>"

definition PredecessorWALInfo_EncodeTo :: "slice \<Rightarrow> PredecessorWALInfo \<Rightarrow> slice" where
  "PredecessorWALInfo_EncodeTo dst info =
     PutFixed64 (PutFixed64 (PutFixed64 dst (wal_log_number info)) (wal_size_bytes info))
       (wal_last_seqno_recorded info)"

text \<open>Fields decoded before a failure stay decoded.\<close>

definition PredecessorWALInfo_DecodeFrom ::
    "PredecessorWALInfo \<Rightarrow> slice \<Rightarrow> status \<times> PredecessorWALInfo \<times> slice" where
  "PredecessorWALInfo_DecodeFrom info src =
     (case GetFixed64 src of
        (None, src) \<Rightarrow> (Corruption (str ''Error decoding log number'') [], info, src)
      | (Some n, src) \<Rightarrow>
          let info = info\<lparr>wal_log_number := n\<rparr> in
          case GetFixed64 src of
            (None, src) \<Rightarrow> (Corruption (str ''Error decoding size bytes'') [], info, src)
          | (Some b, src) \<Rightarrow>
              let info = info\<lparr>wal_size_bytes := b\<rparr> in
              case GetFixed64 src of
                (None, src) \<Rightarrow>
                  (Corruption (str ''Error decoding last seqno recorded'') [], info, src)
              | (Some q, src) \<Rightarrow>
                  (OK, info\<lparr>wal_last_seqno_recorded := q, wal_initialized := True\<rparr>, src))"

section \<open>Packing and parsing\<close>

lemma kMaxSequenceNumber_val: "kMaxSequenceNumber = 72057594037927935"
  by (simp add: kMaxSequenceNumber_def)

lemma seq_le_max_bits:
  assumes "seq \<le> kMaxSequenceNumber" and "56 \<le> i"
  shows "\<not> bit seq i"
proof (rule word_lt_2p_bits [where n = 56])
  show "unat seq < 2 ^ 56" using assms(1) by (simp add: kMaxSequenceNumber_val word_le_nat_alt)
qed (use assms(2) in simp)

lemma UnPackSequenceAndType_Pack:
  assumes "seq \<le> kMaxSequenceNumber"
  shows "UnPackSequenceAndType (PackSequenceAndType seq t) = (seq, t)"
proof -
  have lt: "i < 56" if "bit seq i" for i
    using seq_le_max_bits [OF assms, of i] that by force
  have "drop_bit 8 (PackSequenceAndType seq t) = seq"
    unfolding PackSequenceAndType_def
    by (rule bit_word_eqI) (auto simp: bit_simps dest: lt bit_imp_le_length)
  moreover have "(ucast (PackSequenceAndType seq t) :: byte) = t"
    unfolding PackSequenceAndType_def by (rule bit_word_eqI) (auto simp: bit_simps)
  ultimately show ?thesis by (simp add: UnPackSequenceAndType_def)
qed

lemma unat_Pack:
  assumes "seq \<le> kMaxSequenceNumber"
  shows "unat (PackSequenceAndType seq t) = unat seq * 256 + unat t"
proof -
  have disj: "push_bit 8 seq AND ucast t = 0"
    by (rule bit_word_eqI) (auto simp: bit_simps dest: bit_imp_le_length)
  have "unat seq < 2 ^ 56" using assms by (simp add: kMaxSequenceNumber_val word_le_nat_alt)
  moreover have t: "unat t < 256" using unsigned_less [of t, where 'a = nat] by simp
  ultimately have fit: "unat seq * 256 + unat t < 2 ^ 64" by simp
  have "PackSequenceAndType seq t = push_bit 8 seq + ucast t"
    using disj by (simp only: PackSequenceAndType_def disjunctive_add_eq_or)
  also have "\<dots> = of_nat (unat seq * 256 + unat t)"
    by (simp add: push_bit_eq_mult mult.commute)
  finally have "unat (PackSequenceAndType seq t) = (unat seq * 256 + unat t) mod 2 ^ 64"
    by (simp only: unat_of_nat) simp
  then show ?thesis using fit by simp
qed

lemma Pack_less_iff:
  assumes "s \<le> kMaxSequenceNumber" and "s' \<le> kMaxSequenceNumber"
  shows "PackSequenceAndType s t < PackSequenceAndType s' t' \<longleftrightarrow> s < s' \<or> s = s' \<and> t < t'"
proof -
  have t: "unat t < 256" "unat t' < 256"
    using unsigned_less [of t, where 'a = nat] unsigned_less [of t', where 'a = nat] by simp_all
  have "unat s * 256 + unat t < unat s' * 256 + unat t' \<longleftrightarrow>
      unat s < unat s' \<or> unat s = unat s' \<and> unat t < unat t'"
    using t by linarith
  then show ?thesis by (simp add: word_less_nat_alt unat_Pack assms word_unat_eq_iff)
qed

lemma drop_8_Pack:
  "s \<le> kMaxSequenceNumber \<Longrightarrow> drop_bit 8 (PackSequenceAndType s t) = s"
  using UnPackSequenceAndType_Pack [of s t] by (simp add: UnPackSequenceAndType_def)

lemma ucast_Pack: "(ucast (PackSequenceAndType s t) :: byte) = t"
  unfolding PackSequenceAndType_def by (rule bit_word_eqI) (auto simp: bit_simps)

lemma InternalKey_eq: "InternalKey k s t = k @ EncodeFixed64 (PackSequenceAndType s t)"
  by (simp add: InternalKey_def AppendInternalKey_def PutFixed64_def)

lemma AppendInternalKey_eq:
  "AppendInternalKey r k = r @ InternalKey (user_key k) (sequence k) (type k)"
  by (simp add: InternalKey_eq AppendInternalKey_def PutFixed64_def)

lemma length_InternalKey [simp]: "length (InternalKey k s t) = length k + 8"
  by (simp add: InternalKey_eq)

lemma ExtractUserKey_InternalKey [simp]: "ExtractUserKey (InternalKey k s t) = k"
  by (simp add: ExtractUserKey_def InternalKey_eq kNumInternalBytes_def)

lemma footer_InternalKey [simp]:
  "ExtractInternalKeyFooter (InternalKey k s t) = PackSequenceAndType s t"
  by (simp add: ExtractInternalKeyFooter_def InternalKey_eq kNumInternalBytes_def)

lemma ExtractValueType_InternalKey [simp]: "ExtractValueType (InternalKey k s t) = t"
  by (simp add: ExtractValueType_def ucast_Pack)

lemma GetInternalKeySeqno_InternalKey:
  "s \<le> kMaxSequenceNumber \<Longrightarrow> GetInternalKeySeqno (InternalKey k s t) = s"
  by (simp add: GetInternalKeySeqno_def InternalKey_eq kNumInternalBytes_def drop_8_Pack)

text \<open>Every string of at least eight bytes is its user key followed by its footer.\<close>

lemma internal_key_split:
  assumes "8 \<le> length a"
  shows "a = ExtractUserKey a @ EncodeFixed64 (ExtractInternalKeyFooter a)"
  using assms EncodeFixed64_DecodeFixed64 [of "drop (length a - 8) a"]
  by (simp add: ExtractUserKey_def ExtractInternalKeyFooter_def kNumInternalBytes_def)

lemma internal_key_InternalKey:
  assumes "8 \<le> length a"
  shows "a = InternalKey (ExtractUserKey a) (GetInternalKeySeqno a) (ExtractValueType a)"
    and "GetInternalKeySeqno a \<le> kMaxSequenceNumber"
proof -
  let ?f = "ExtractInternalKeyFooter a"
  have "PackSequenceAndType (drop_bit 8 ?f) (ucast ?f) = ?f"
    unfolding PackSequenceAndType_def by (rule bit_word_eqI) (auto simp: bit_simps)
  then show "a = InternalKey (ExtractUserKey a) (GetInternalKeySeqno a) (ExtractValueType a)"
    using internal_key_split [OF assms]
    by (simp add: InternalKey_eq GetInternalKeySeqno_def ExtractValueType_def
        ExtractInternalKeyFooter_def)
  have "unat (drop_bit 8 ?f) \<le> 72057594037927935"
    using unsigned_less [of ?f, where 'a = nat]
    by (subst unat_drop_bit_eq) (simp add: drop_bit_eq_div)
  then show "GetInternalKeySeqno a \<le> kMaxSequenceNumber"
    by (simp add: word_le_nat_alt kMaxSequenceNumber_val GetInternalKeySeqno_def
        ExtractInternalKeyFooter_def)
qed

lemma ParseInternalKey_InternalKey:
  assumes "s \<le> kMaxSequenceNumber"
  shows "snd (ParseInternalKey (InternalKey k s t) e) = Some \<lparr>user_key = k, sequence = s, type = t\<rparr>"
    and "ok (fst (ParseInternalKey (InternalKey k s t) e)) \<longleftrightarrow> IsExtendedValueType t"
    and "IsExtendedValueType t \<Longrightarrow> fst (ParseInternalKey (InternalKey k s t) e) = OK"
  using assms
  by (simp_all add: ParseInternalKey_def InternalKey_eq kNumInternalBytes_def Let_def ucast_Pack
      drop_8_Pack)

lemma ParseInternalKey_ok_iff:
  "ok (fst (ParseInternalKey a e)) \<longleftrightarrow> 8 \<le> length a \<and> IsExtendedValueType (ExtractValueType a)"
proof (cases "8 \<le> length a")
  case True
  note k = internal_key_InternalKey [OF True]
  have "ok (fst (ParseInternalKey (InternalKey (ExtractUserKey a) (GetInternalKeySeqno a)
      (ExtractValueType a)) e)) \<longleftrightarrow> IsExtendedValueType (ExtractValueType a)"
    by (rule ParseInternalKey_InternalKey(2) [OF k(2)])
  then show ?thesis using True by (simp flip: k(1))
next
  case False
  then show ?thesis by (simp add: ParseInternalKey_def kNumInternalBytes_def)
qed

section \<open>The internal key order\<close>

lemma InternalKeyCompare_footer:
  "InternalKeyCompare ucmp a b =
     (let r = ucmp (ExtractUserKey a) (ExtractUserKey b)
      in if r = 0 then
           (if ExtractInternalKeyFooter a > ExtractInternalKeyFooter b then -1
            else if ExtractInternalKeyFooter a < ExtractInternalKeyFooter b then 1 else 0)
         else r)"
  by (simp add: InternalKeyCompare_def ExtractInternalKeyFooter_def Let_def)

lemma InternalKeyCompare_overloads:
  assumes "s \<le> kMaxSequenceNumber" and "s' \<le> kMaxSequenceNumber"
  shows "InternalKeyCompare_parsed ucmp \<lparr>user_key = k, sequence = s, type = t\<rparr>
           \<lparr>user_key = k', sequence = s', type = t'\<rparr> =
         InternalKeyCompare ucmp (InternalKey k s t) (InternalKey k' s' t')" (is ?pp)
    and "InternalKeyCompare_slice_parsed ucmp (InternalKey k s t)
           \<lparr>user_key = k', sequence = s', type = t'\<rparr> =
         InternalKeyCompare ucmp (InternalKey k s t) (InternalKey k' s' t')" (is ?sp)
    and "InternalKeyCompare_global ucmp (InternalKey k s0 t) g (InternalKey k' s0' t') g' =
         InternalKeyCompare ucmp
           (InternalKey k (if g = kDisableGlobalSequenceNumber then s0 else g) t)
           (InternalKey k' (if g' = kDisableGlobalSequenceNumber then s0' else g') t')" (is ?gl)
proof -
  show ?pp
    unfolding InternalKeyCompare_footer InternalKeyCompare_parsed_def Let_def
    by (auto simp: Pack_less_iff assms)
  show ?sp
    unfolding InternalKeyCompare_footer InternalKeyCompare_slice_parsed_def Let_def
      PackSequenceAndType_def [symmetric] ExtractInternalKeyFooter_def [symmetric, unfolded Let_def]
    by simp
  show ?gl
    unfolding InternalKeyCompare_footer InternalKeyCompare_global_def Let_def by simp
qed

lemma InternalKeyCompare_swap_sign:
  assumes "sgn (ucmp (ExtractUserKey b) (ExtractUserKey a)) = - sgn (ucmp (ExtractUserKey a) (ExtractUserKey b))"
  shows "sgn (InternalKeyCompare ucmp b a) = - sgn (InternalKeyCompare ucmp a b)"
  using assms by (auto simp: InternalKeyCompare_footer Let_def sgn_0_0)

lemma InternalKeyCompare_parsed_slice_sign:
  assumes "s \<le> kMaxSequenceNumber" and "s' \<le> kMaxSequenceNumber" and "sgn (ucmp k' k) = - sgn (ucmp k k')"
  shows "sgn (InternalKeyCompare_parsed_slice ucmp \<lparr>user_key = k, sequence = s, type = t\<rparr> (InternalKey k' s' t')) =
    sgn (InternalKeyCompare ucmp (InternalKey k s t) (InternalKey k' s' t'))"
  using InternalKeyCompare_overloads(2) [OF assms(2,1)]
    InternalKeyCompare_swap_sign [of ucmp "InternalKey k' s' t'" "InternalKey k s t"] assms(3)
  by (simp add: InternalKeyCompare_parsed_slice_def sgn_minus)

text \<open>
  Over any user comparator that keeps its contract the internal comparator keeps it too, on
  the keys that have a footer.
\<close>

definition internal_valid :: "(slice \<Rightarrow> bool) \<Rightarrow> slice \<Rightarrow> bool" where
  "internal_valid valid a \<longleftrightarrow> 8 \<le> length a \<and> valid (ExtractUserKey a)"

context user_comparator
begin

lemma InternalKeyCompare_user_comparator:
  "user_comparator (InternalKeyCompare cmp) (internal_valid valid)"
proof
  fix a b c
  assume a: "internal_valid valid a"
  then show "InternalKeyCompare cmp a a = 0"
    by (simp add: InternalKeyCompare_footer internal_valid_def cmp_self)
  assume b: "internal_valid valid b"
  show "InternalKeyCompare cmp a b < 0 \<longleftrightarrow> InternalKeyCompare cmp b a > 0"
    using a b cmp_swap [of "ExtractUserKey a" "ExtractUserKey b"]
      cmp_zero_sym [of "ExtractUserKey a" "ExtractUserKey b"]
    by (auto simp: InternalKeyCompare_footer internal_valid_def Let_def)
  assume c: "internal_valid valid c"
    and ab: "InternalKeyCompare cmp a b \<le> 0" and bc: "InternalKeyCompare cmp b c \<le> 0"
  let ?a = "ExtractUserKey a" and ?b = "ExtractUserKey b" and ?c = "ExtractUserKey c"
  have v: "valid ?a" "valid ?b" "valid ?c" using a b c by (simp_all add: internal_valid_def)
  have le: "cmp ?a ?b \<le> 0" "cmp ?b ?c \<le> 0"
    using ab bc by (auto simp: InternalKeyCompare_footer Let_def split: if_splits)
  show "InternalKeyCompare cmp a c \<le> 0"
  proof (cases "cmp ?a ?c = 0")
    case True
    have "cmp ?c ?a = 0" using True v cmp_zero_sym by blast
    then have "cmp ?b ?a \<le> 0" "cmp ?c ?b \<le> 0"
      using v le cmp_le_trans [of ?b ?c ?a] cmp_le_trans [of ?c ?a ?b] by simp_all
    then have "cmp ?a ?b = 0" "cmp ?b ?c = 0"
      using le v cmp_le_swap [of ?b ?a] cmp_le_swap [of ?c ?b] by simp_all
    then show ?thesis using ab bc True
      by (auto simp: InternalKeyCompare_footer Let_def split: if_splits)
  next
    case False
    then show ?thesis using cmp_le_trans [of ?a ?b ?c] v le
      by (simp add: InternalKeyCompare_footer Let_def)
  qed
qed

end

interpretation internal_bytewise: user_comparator "InternalKeyCompare BytewiseCompare"
    "internal_valid (\<lambda>_. True)"
  by (rule bytewise.InternalKeyCompare_user_comparator)

interpretation internal_reverse: user_comparator "InternalKeyCompare ReverseBytewiseCompare"
    "internal_valid (\<lambda>_. True)"
  by (rule reverse_bytewise.InternalKeyCompare_user_comparator)

interpretation internal_ts: user_comparator "InternalKeyCompare (U64TsCompare BytewiseCompare)"
    "internal_valid (\<lambda>a. length a \<ge> 8 \<and> True)"
  by (rule bytewise_ts.InternalKeyCompare_user_comparator)

section \<open>Seeking\<close>

lemma InternalKeyCompare_InternalKey:
  assumes "s \<le> kMaxSequenceNumber" and "s' \<le> kMaxSequenceNumber"
  shows "InternalKeyCompare ucmp (InternalKey k s t) (InternalKey k' s' t') < 0 \<longleftrightarrow>
    ucmp k k' < 0 \<or> ucmp k k' = 0 \<and> (s > s' \<or> s = s' \<and> t > t')"
  by (auto simp: InternalKeyCompare_footer Let_def Pack_less_iff assms)

lemma internal_key_LookupKey_make:
  "internal_key (LookupKey_make k s ts) =
     InternalKey (k @ (case ts of None \<Rightarrow> [] | Some t \<Rightarrow> t)) s kValueTypeForSeek"
  by (simp add: internal_key_def LookupKey_make_def InternalKey_eq Let_def split: option.split)

lemma lookup_user_key_LookupKey_make:
  "lookup_user_key (LookupKey_make k s ts) = k @ (case ts of None \<Rightarrow> [] | Some t \<Rightarrow> t)"
  by (simp add: lookup_user_key_def LookupKey_make_def Let_def split: option.split)

lemma memtable_key_LookupKey_make:
  assumes "length k + 8 < 2 ^ 32"
  shows "GetLengthPrefixedSlice (memtable_key (LookupKey_make k s None) @ r) =
    (Some (InternalKey k s kValueTypeForSeek), r)"
proof -
  have "memtable_key (LookupKey_make k s None) = EncodeSlice (InternalKey k s kValueTypeForSeek)"
    by (simp add: memtable_key_def LookupKey_make_def EncodeSlice_def InternalKey_eq Let_def)
  then show ?thesis using prefixed.dec_enc [of "InternalKey k s kValueTypeForSeek" r] assms
    by (simp add: slice_ok_def)
qed

lemma seek_type_max: "IsExtendedValueType t \<Longrightarrow> t \<le> kValueTypeForSeek \<or> t = kTypeMaxValid"
  by (auto simp: IsExtendedValueType_def IsValueType_def kValueTypeForSeek_def value_type_defs
      intro: order_trans)

text \<open>
  In a run of internal keys sorted by the internal comparator, the versions of one user key
  stand newest first, so the first entry that is not before the lookup key of a snapshot is
  the newest version visible in it.
\<close>

definition visible :: "slice \<Rightarrow> u64 \<Rightarrow> slice \<Rightarrow> bool" where
  "visible k s e \<longleftrightarrow> ExtractUserKey e = k \<and> GetInternalKeySeqno e \<le> s"

definition seek_first :: "slice \<Rightarrow> u64 \<Rightarrow> slice list \<Rightarrow> slice option" where
  "seek_first k s es =
     find (\<lambda>e. InternalKeyCompare BytewiseCompare e (internal_key (LookupKey_make k s None)) \<ge> 0) es"

abbreviation internal_sorted :: "slice list \<Rightarrow> bool" where
  "internal_sorted \<equiv> sorted_wrt (\<lambda>a b. InternalKeyCompare BytewiseCompare a b < 0)"

lemma internal_less_iff:
  assumes "8 \<le> length a" and "8 \<le> length b"
  shows "InternalKeyCompare BytewiseCompare a b < 0 \<longleftrightarrow>
    ExtractUserKey a < ExtractUserKey b \<or> ExtractUserKey a = ExtractUserKey b \<and>
      (GetInternalKeySeqno a > GetInternalKeySeqno b \<or>
       GetInternalKeySeqno a = GetInternalKeySeqno b \<and> ExtractValueType a > ExtractValueType b)"
  using InternalKeyCompare_InternalKey [OF internal_key_InternalKey(2) [OF assms(1)]
      internal_key_InternalKey(2) [OF assms(2)], of BytewiseCompare "ExtractUserKey a"
      "ExtractValueType a" "ExtractUserKey b" "ExtractValueType b"]
  by (simp add: BytewiseCompare_def compare_iffs
      flip: internal_key_InternalKey(1) [OF assms(1)] internal_key_InternalKey(1) [OF assms(2)])

lemma before_lookup_iff:
  assumes "8 \<le> length e" and "ExtractValueType e \<le> kValueTypeForSeek" and "s \<le> kMaxSequenceNumber"
  shows "InternalKeyCompare BytewiseCompare e (internal_key (LookupKey_make k s None)) < 0 \<longleftrightarrow>
    ExtractUserKey e < k \<or> ExtractUserKey e = k \<and> GetInternalKeySeqno e > s"
  using assms internal_less_iff [of e "InternalKey k s kValueTypeForSeek"]
  by (auto simp: internal_key_LookupKey_make GetInternalKeySeqno_InternalKey)

lemma seek_first_newest:
  assumes sorted: "internal_sorted es" and "s \<le> kMaxSequenceNumber"
    and wf: "\<forall>e\<in>set es. 8 \<le> length e \<and> ExtractValueType e \<le> kValueTypeForSeek"
    and e: "seek_first k s es = Some e" and e': "e' \<in> set es" "visible k s e'"
  shows "ExtractUserKey e = k" and "visible k s e" and "e' = e \<or> InternalKeyCompare BytewiseCompare e e' < 0"
proof -
  note before = before_lookup_iff [OF _ _ assms(2)]
  obtain i where i: "i < length es" "e = es ! i"
    "\<not> InternalKeyCompare BytewiseCompare e (internal_key (LookupKey_make k s None)) < 0"
    "\<And>j. j < i \<Longrightarrow>
       InternalKeyCompare BytewiseCompare (es ! j) (internal_key (LookupKey_make k s None)) < 0"
    using e unfolding seek_first_def find_Some_iff by (auto simp: not_le)
  obtain j where j: "j < length es" "e' = es ! j" using e'(1) by (auto simp: in_set_conv_nth)
  have "i \<le> j"
  proof (rule ccontr)
    assume "\<not> i \<le> j"
    then have "InternalKeyCompare BytewiseCompare e' (internal_key (LookupKey_make k s None)) < 0"
      using i(4) j by simp
    then show False using before [of e' k] wf e' by (auto simp: visible_def)
  qed
  then show eq: "e' = e \<or> InternalKeyCompare BytewiseCompare e e' < 0"
    using sorted i j by (cases "i = j") (auto simp: sorted_wrt_iff_nth_less)
  have we: "8 \<le> length e" "ExtractValueType e \<le> kValueTypeForSeek" "8 \<le> length e'"
    using wf e'(1) i by auto
  have "\<not> ExtractUserKey e < k"
    "ExtractUserKey e = k \<Longrightarrow> GetInternalKeySeqno e \<le> s"
    using before [OF we(1,2), of k] i(3) by auto
  then show "ExtractUserKey e = k" "visible k s e"
    using eq e' internal_less_iff [OF we(1,3)] by (auto simp: visible_def)
qed

lemma seek_first_finds:
  assumes "s \<le> kMaxSequenceNumber"
    and "\<forall>e\<in>set es. 8 \<le> length e \<and> ExtractValueType e \<le> kValueTypeForSeek"
    and "e' \<in> set es" "visible k s e'"
  shows "seek_first k s es \<noteq> None"
  using assms before_lookup_iff [of e' s k]
  by (auto simp: seek_first_def find_None_iff visible_def not_le)

section \<open>Extreme keys and tombstone ends\<close>

lemma possible_for_user_key_bounds:
  assumes "s \<le> kMaxSequenceNumber" and "t \<le> kValueTypeForSeek" and "ucmp k k = 0"
  shows "InternalKeyCompare ucmp (SetMinPossibleForUserKey [] k) (InternalKey k s t) \<le> 0"
    and "InternalKeyCompare ucmp (InternalKey k s t) (SetMaxPossibleForUserKey [] k) \<le> 0"
proof -
  have min: "\<not> PackSequenceAndType kMaxSequenceNumber kValueTypeForSeek < PackSequenceAndType s t"
    using assms by (simp add: Pack_less_iff not_less)
  have max: "\<not> PackSequenceAndType s t < PackSequenceAndType 0 0"
    using assms Pack_less_iff [of s 0 t 0] by (simp add: kMaxSequenceNumber_val)
  show "InternalKeyCompare ucmp (SetMinPossibleForUserKey [] k) (InternalKey k s t) \<le> 0"
    using min assms(3)
    by (simp add: SetMinPossibleForUserKey_def AppendInternalKey_eq InternalKeyCompare_footer Let_def)
  show "InternalKeyCompare ucmp (InternalKey k s t) (SetMaxPossibleForUserKey [] k) \<le> 0"
    using max assms(3)
    by (simp add: SetMaxPossibleForUserKey_def AppendInternalKey_eq InternalKeyCompare_footer Let_def)
qed

text \<open>The end key a tombstone serialises to: the end key with the largest timestamp.\<close>

lemma SerializeEndKey_eq:
  "SerializeEndKey t =
     InternalKey (take (length (end_key t) - length (tomb_ts t)) (end_key t) @
       replicate (length (tomb_ts t)) 255) kMaxSequenceNumber kTypeRangeDeletion"
proof -
  have "take n (replicate 9 255 :: slice) = replicate n 255" if "n \<le> 9" for n
    using that by (simp add: min_absorb1)
  then show ?thesis
    by (auto simp: SerializeEndKey_def InternalKey_ts_def AppendInternalKeyWithDifferentTimestamp_def
        InternalKey_eq PutFixed64_def Let_def)
qed

lemma end_key_sides:
  assumes "s < kMaxSequenceNumber"
  shows "cmp e k \<le> 0 \<Longrightarrow>
      InternalKeyCompare cmp (InternalKey e kMaxSequenceNumber kTypeRangeDeletion) (InternalKey k s v) < 0"
    and "cmp k e < 0 \<Longrightarrow>
      InternalKeyCompare cmp (InternalKey k s v) (InternalKey e kMaxSequenceNumber kTypeRangeDeletion) < 0"
  using assms InternalKeyCompare_InternalKey [OF order_refl, of s] InternalKeyCompare_InternalKey [OF _ order_refl, of s]
  by auto

lemma U64TsCompare_max_ts:
  assumes "length ts = 8"
  shows "ucmp e k = 0 \<Longrightarrow> U64TsCompare ucmp (e @ replicate 8 255) (k @ ts) \<le> 0"
    and "ucmp k e < 0 \<Longrightarrow> U64TsCompare ucmp (k @ ts) (e @ replicate 8 255) < 0"
proof -
  have "DecodeFixed64 (replicate 8 255) = -1" by code_simp
  then have "\<not> DecodeFixed64 (replicate 8 255) < x" for x by simp
  then show "ucmp e k = 0 \<Longrightarrow> U64TsCompare ucmp (e @ replicate 8 255) (k @ ts) \<le> 0"
    "ucmp k e < 0 \<Longrightarrow> U64TsCompare ucmp (k @ ts) (e @ replicate 8 255) < 0"
    using assms by (simp_all add: U64TsCompare_def U64TsCompareWithoutTimestamp_def CompareTimestamp_def
        StripTimestampFromUserKey_def ExtractTimestampFromUserKey_def Let_def)
qed

section \<open>Timestamps in keys\<close>

lemma StripTimestamp_Pad:
  assumes "8 \<le> length key"
  shows "StripTimestampFromInternalKey [] (PadInternalKeyWithMinTimestamp [] key n) n = key"
    and "StripTimestampFromInternalKey [] (PadInternalKeyWithMaxTimestamp [] key n) n = key"
  using assms
  by (simp_all add: StripTimestampFromInternalKey_def PadInternalKeyWithMinTimestamp_def
      PadInternalKeyWithMaxTimestamp_def kNumInternalBytes_def Let_def)

lemma Pad_InternalKey:
  "PadInternalKeyWithMinTimestamp [] (InternalKey k s t) n = InternalKey (k @ replicate n 0) s t"
  "PadInternalKeyWithMaxTimestamp [] (InternalKey k s t) n = InternalKey (k @ replicate n 255) s t"
  by (simp_all add: PadInternalKeyWithMinTimestamp_def PadInternalKeyWithMaxTimestamp_def
      InternalKey_eq kNumInternalBytes_def Let_def)

lemma timestamp_surgery_InternalKey:
  assumes "length ts = n"
  shows "ExtractTimestampFromKey (InternalKey (k @ ts) s t) n = ts"
    and "ExtractUserKeyAndStripTimestamp (InternalKey (k @ ts) s t) n = k"
    and "StripTimestampFromInternalKey [] (InternalKey (k @ ts) s t) n = InternalKey k s t"
    and "ReplaceInternalKeyWithMinTimestamp [] (InternalKey (k @ ts) s t) n =
      InternalKey (k @ replicate n 0) s t"
  using assms
  by (simp_all add: ExtractTimestampFromKey_def ExtractUserKeyAndStripTimestamp_def
      StripTimestampFromInternalKey_def ReplaceInternalKeyWithMinTimestamp_def
      InternalKey_eq kNumInternalBytes_def Let_def)

lemma AppendUserKeyWithMaxTimestamp_eq:
  "AppendUserKeyWithMaxTimestamp [] (k @ ts) (length ts) = k @ replicate (length ts) 255"
  by (simp add: AppendUserKeyWithMaxTimestamp_def Let_def min_def)

lemma UpdateInternalKey_InternalKey:
  "UpdateInternalKey (InternalKey k s t) s' t' = InternalKey k s' t'"
  by (simp add: UpdateInternalKey_def InternalKey_eq kNumInternalBytes_def PackSequenceAndType_def)

section \<open>Predecessor log information round trip\<close>

lemma PredecessorWALInfo_EncodeTo_eq:
  "PredecessorWALInfo_EncodeTo dst info = dst @ EncodeFixed64 (wal_log_number info) @
     EncodeFixed64 (wal_size_bytes info) @ EncodeFixed64 (wal_last_seqno_recorded info)"
  by (simp add: PredecessorWALInfo_EncodeTo_def PutFixed64_def)

lemma PredecessorWALInfo_DecodeFrom_EncodeTo:
  "PredecessorWALInfo_DecodeFrom old (PredecessorWALInfo_EncodeTo [] info @ r) =
     (OK, info\<lparr>wal_initialized := True\<rparr>, r)"
  by (simp add: PredecessorWALInfo_EncodeTo_eq PredecessorWALInfo_DecodeFrom_def fixed64.dec_enc)

lemma PredecessorWALInfo_DecodeFrom_short:
  "ok (fst (PredecessorWALInfo_DecodeFrom old src)) \<longleftrightarrow> 24 \<le> length src"
  by (auto simp: PredecessorWALInfo_DecodeFrom_def GetFixed64_def Let_def)

section \<open>The internal key contracts\<close>

text \<open>
  C13: Parsing an appended internal key returns its user key, sequence number and type, for
  every sequence number of 56 bits; and a string parses exactly when it has a footer whose
  type byte is one that a key may carry.
\<close>

theorem ParseInternalKey_round_trip:
  assumes "sequence k \<le> kMaxSequenceNumber" and "IsExtendedValueType (type k)"
  shows "ParseInternalKey (AppendInternalKey [] k) e = (OK, Some k) \<and>
    (ok (fst (ParseInternalKey a e)) \<longleftrightarrow>
       8 \<le> length a \<and> IsExtendedValueType (ExtractValueType a))"
  using ParseInternalKey_InternalKey(1,3) [OF assms(1), where k = "user_key k" and t = "type k" and e = e]
    assms(2) ParseInternalKey_ok_iff [of a e]
  by (simp add: AppendInternalKey_eq prod_eq_iff)

theorem ParseInternalKey_round_trip_witness:
  "ParseInternalKey (AppendInternalKey [] \<lparr>user_key = [97], sequence = 7, type = kTypeValue\<rparr>) True =
     (OK, Some \<lparr>user_key = [97], sequence = 7, type = kTypeValue\<rparr>)"
  using ParseInternalKey_round_trip [of "\<lparr>user_key = [97], sequence = 7, type = kTypeValue\<rparr>" True]
  by (simp add: kMaxSequenceNumber_val IsExtendedValueType_def IsValueType_def value_type_defs)

text \<open>
  C12: All overloads of the internal comparator give one order. Comparing two parsed keys, or a slice
  with a parsed key, gives the number that comparing the encoded keys gives; a parsed key against
  a slice, which the code computes from the swapped arguments, gives a number of the same sign
  whenever the user comparator changes its sign when its arguments are swapped. Comparing slices
  under global sequence numbers is comparing the keys with each sequence number replaced by the
  global one of its side, or kept where that side has none (\<open>kDisableGlobalSequenceNumber\<close>).
\<close>

theorem InternalKeyComparator_overloads_agree:
  assumes "s \<le> kMaxSequenceNumber" and "s' \<le> kMaxSequenceNumber"
  shows "InternalKeyCompare_parsed ucmp \<lparr>user_key = k, sequence = s, type = t\<rparr>
           \<lparr>user_key = k', sequence = s', type = t'\<rparr> =
         InternalKeyCompare ucmp (InternalKey k s t) (InternalKey k' s' t') \<and>
    InternalKeyCompare_slice_parsed ucmp (InternalKey k s t)
           \<lparr>user_key = k', sequence = s', type = t'\<rparr> =
         InternalKeyCompare ucmp (InternalKey k s t) (InternalKey k' s' t') \<and>
    (sgn (ucmp k' k) = - sgn (ucmp k k') \<longrightarrow>
      sgn (InternalKeyCompare_parsed_slice ucmp \<lparr>user_key = k, sequence = s, type = t\<rparr>
             (InternalKey k' s' t')) =
      sgn (InternalKeyCompare ucmp (InternalKey k s t) (InternalKey k' s' t'))) \<and>
    InternalKeyCompare_global ucmp (InternalKey k s t) g (InternalKey k' s' t') g' =
         InternalKeyCompare ucmp
           (InternalKey k (if g = kDisableGlobalSequenceNumber then s else g) t)
           (InternalKey k' (if g' = kDisableGlobalSequenceNumber then s' else g') t')"
  by (intro conjI impI InternalKeyCompare_overloads [OF assms] InternalKeyCompare_parsed_slice_sign [OF assms])

theorem InternalKeyComparator_overloads_agree_witness:
  "InternalKeyCompare_parsed BytewiseCompare \<lparr>user_key = [97], sequence = 9, type = kTypeValue\<rparr>
     \<lparr>user_key = [97], sequence = 5, type = kTypeDeletion\<rparr> =
   InternalKeyCompare BytewiseCompare (InternalKey [97] 9 kTypeValue) (InternalKey [97] 5 kTypeDeletion) \<and>
   sgn (InternalKeyCompare_parsed_slice BytewiseCompare
          \<lparr>user_key = [97], sequence = 9, type = kTypeValue\<rparr> (InternalKey [97] 5 kTypeDeletion)) =
   sgn (InternalKeyCompare BytewiseCompare (InternalKey [97] 9 kTypeValue) (InternalKey [97] 5 kTypeDeletion))"
proof -
  have "sgn (BytewiseCompare [97] [97]) = - sgn (BytewiseCompare [97] [97])" by code_simp
  then show ?thesis
    using InternalKeyComparator_overloads_agree [of 9 5 BytewiseCompare "[97]" kTypeValue "[97]" kTypeDeletion]
    by (simp add: kMaxSequenceNumber_val)
qed

text \<open>
  C7: A read at a snapshot finds the newest version visible in it. In a run of internal keys
  sorted by the internal comparator, the first entry at or after the lookup key of (k, s)
  belongs to k and is the first in internal order of all versions of k with a sequence number
  of at most s, whenever there is one.
\<close>

theorem lookup_key_seeks_newest_visible:
  assumes "internal_sorted es" and "s \<le> kMaxSequenceNumber"
    and "\<forall>e\<in>set es. 8 \<le> length e \<and> ExtractValueType e \<le> kValueTypeForSeek"
    and "e' \<in> set es" and "visible k s e'"
  shows "\<exists>e\<in>set es. seek_first k s es = Some e \<and> visible k s e \<and>
    GetInternalKeySeqno e' \<le> GetInternalKeySeqno e"
proof -
  obtain e where e: "seek_first k s es = Some e"
    using seek_first_finds [OF assms(2-5)] by blast
  then have mem: "e \<in> set es" unfolding seek_first_def find_Some_iff by auto
  note newest = seek_first_newest [OF assms(1-3) e assms(4,5)]
  have "8 \<le> length e" "8 \<le> length e'" using assms(3,4) mem by auto
  then have "GetInternalKeySeqno e' \<le> GetInternalKeySeqno e"
    using newest assms(5) internal_less_iff [of e e'] by (auto simp: visible_def)
  then show ?thesis using e mem newest(2) by blast
qed

theorem lookup_key_seeks_newest_visible_witness:
  "\<exists>e\<in>set [InternalKey [97] 9 kTypeValue, InternalKey [97] 5 kTypeValue, InternalKey [97] 3 kTypeValue].
     seek_first [97] 7
       [InternalKey [97] 9 kTypeValue, InternalKey [97] 5 kTypeValue, InternalKey [97] 3 kTypeValue] = Some e \<and>
     visible [97] 7 e \<and> GetInternalKeySeqno (InternalKey [97] 3 kTypeValue) \<le> GetInternalKeySeqno e"
proof (rule lookup_key_seeks_newest_visible)
  show "internal_sorted
      [InternalKey [97] 9 kTypeValue, InternalKey [97] 5 kTypeValue, InternalKey [97] 3 kTypeValue]"
    by code_simp
qed (simp_all add: kMaxSequenceNumber_val kValueTypeForSeek_def value_type_defs visible_def
      GetInternalKeySeqno_InternalKey)

text \<open>
  C22: The key a range tombstone ends at is in front of every version of its end key and behind every
  version of any smaller key, whatever the user comparator. Without timestamps this holds of the
  versions below the maximal sequence number. With 64-bit timestamps, which the order puts newest
  first, it holds of the versions with any timestamp: the end key is serialized with the maximal
  timestamp in place of the tombstone's own.
\<close>

theorem SerializeEndKey_is_boundary:
  assumes "s < kMaxSequenceNumber"
  shows "(tomb_ts t = [] \<longrightarrow>
      (ucmp (end_key t) k = 0 \<longrightarrow>
        InternalKeyCompare ucmp (SerializeEndKey t) (InternalKey k s v) < 0) \<and>
      (ucmp k (end_key t) < 0 \<longrightarrow>
        InternalKeyCompare ucmp (InternalKey k s v) (SerializeEndKey t) < 0)) \<and>
    (length (tomb_ts t) = 8 \<longrightarrow> 8 \<le> length (end_key t) \<longrightarrow> length ts = 8 \<longrightarrow>
      (ucmp (StripTimestampFromUserKey (end_key t) 8) k = 0 \<longrightarrow>
        InternalKeyCompare (U64TsCompare ucmp) (SerializeEndKey t) (InternalKey (k @ ts) s v) < 0) \<and>
      (ucmp k (StripTimestampFromUserKey (end_key t) 8) < 0 \<longrightarrow>
        InternalKeyCompare (U64TsCompare ucmp) (InternalKey (k @ ts) s v) (SerializeEndKey t) < 0))"
proof -
  let ?e = "StripTimestampFromUserKey (end_key t) 8"
  have plain: "SerializeEndKey t = InternalKey (end_key t) kMaxSequenceNumber kTypeRangeDeletion" if "tomb_ts t = []"
    unfolding SerializeEndKey_eq by (simp add: that)
  have stamped: "SerializeEndKey t = InternalKey (?e @ replicate 8 255) kMaxSequenceNumber kTypeRangeDeletion"
    if "length (tomb_ts t) = 8"
    unfolding SerializeEndKey_eq StripTimestampFromUserKey_def that ..
  show ?thesis
    using end_key_sides [OF assms] U64TsCompare_max_ts(1) [of ts ucmp ?e k]
      U64TsCompare_max_ts(2) [of ts ucmp k ?e] plain stamped
    by (metis order_refl)
qed

theorem SerializeEndKey_is_boundary_witness:
  "InternalKeyCompare BytewiseCompare (SerializeEndKey (RangeTombstone_make [97] [99] 4))
     (InternalKey [99] 100 kTypeValue) < 0 \<and>
   InternalKeyCompare (U64TsCompare BytewiseCompare)
     (SerializeEndKey (RangeTombstone_make_ts (97 # replicate 8 0) (99 # replicate 8 0) 4 (replicate 8 1)))
     (InternalKey ([99] @ replicate 8 2) 100 kTypeValue) < 0"
proof -
  have "BytewiseCompare [99] [99] = 0" by code_simp
  then show ?thesis
    using SerializeEndKey_is_boundary [of 100 "RangeTombstone_make [97] [99] 4" BytewiseCompare "[99]" kTypeValue "[]"]
      SerializeEndKey_is_boundary [of 100
        "RangeTombstone_make_ts (97 # replicate 8 0) (99 # replicate 8 0) 4 (replicate 8 1)"
        BytewiseCompare "[99]" kTypeValue "replicate 8 2"]
    by (simp add: kMaxSequenceNumber_val RangeTombstone_make_def RangeTombstone_make_ts_def
        AppendUserKeyWithDifferentTimestamp_def StripTimestampFromUserKey_def Let_def)
qed

text \<open>
  C29: Timestamp surgery on internal keys. Padding with a timestamp and stripping it is the
  identity, and on a key that carries a timestamp the extractors return its parts.
\<close>

theorem timestamp_padding_round_trip:
  assumes "8 \<le> length key" and "length ts = n"
  shows "StripTimestampFromInternalKey [] (PadInternalKeyWithMinTimestamp [] key n) n = key \<and>
    StripTimestampFromInternalKey [] (PadInternalKeyWithMaxTimestamp [] key n) n = key \<and>
    ExtractTimestampFromKey (InternalKey (k @ ts) s t) n = ts \<and>
    ExtractUserKeyAndStripTimestamp (InternalKey (k @ ts) s t) n = k \<and>
    ReplaceInternalKeyWithMinTimestamp [] (InternalKey (k @ ts) s t) n =
      InternalKey (k @ replicate n 0) s t"
  by (simp add: StripTimestamp_Pad [OF assms(1)] timestamp_surgery_InternalKey [OF assms(2)])

theorem timestamp_padding_round_trip_witness:
  "StripTimestampFromInternalKey [] (PadInternalKeyWithMinTimestamp [] (InternalKey [97] 1 1) 2) 2 =
     InternalKey [97] 1 1"
  using timestamp_padding_round_trip [of "InternalKey [97] 1 1" "[0, 0]" 2] by simp

text \<open>
  C30: The predecessor log record decodes to the record that was encoded, marked initialised,
  and decoding fails exactly on fewer than 24 bytes.
\<close>

theorem PredecessorWALInfo_round_trip:
  "PredecessorWALInfo_DecodeFrom old (PredecessorWALInfo_EncodeTo [] info @ r) =
     (OK, info\<lparr>wal_initialized := True\<rparr>, r) \<and>
   (ok (fst (PredecessorWALInfo_DecodeFrom old src)) \<longleftrightarrow> 24 \<le> length src)"
  by (simp add: PredecessorWALInfo_DecodeFrom_EncodeTo PredecessorWALInfo_DecodeFrom_short)

end
