(* ===== verification/Crc32c.thy ===== *)
theory Crc32c
  imports Coding
begin

text \<open>
  CRC-32C checksums (\<open>util/crc32c.h\<close>, \<open>util/crc32c.cc\<close>): the table-driven \<open>ExtendImpl\<close> of the
  portable build, the combination of two checksums by multiplication in the field of the
  polynomial, and the masking of stored checksums. The lemmas relate all of them to the
  bit-by-bit checksum, so that the log and the table formats may use the algebra of
  concatenation. The hardware variants (SSE, ARM, POWER) are not modelled.
\<close>

unbundle bit_operations_syntax

section \<open>The tables\<close>

definition table0 :: "u32 list" where
  "table0 = [
     0x00000000, 0xf26b8303, 0xe13b70f7, 0x1350f3f4, 0xc79a971f, 0x35f1141c, 0x26a1e7e8,
     0xd4ca64eb, 0x8ad958cf, 0x78b2dbcc, 0x6be22838, 0x9989ab3b, 0x4d43cfd0, 0xbf284cd3,
     0xac78bf27, 0x5e133c24, 0x105ec76f, 0xe235446c, 0xf165b798, 0x030e349b, 0xd7c45070,
     0x25afd373, 0x36ff2087, 0xc494a384, 0x9a879fa0, 0x68ec1ca3, 0x7bbcef57, 0x89d76c54,
     0x5d1d08bf, 0xaf768bbc, 0xbc267848, 0x4e4dfb4b, 0x20bd8ede, 0xd2d60ddd, 0xc186fe29,
     0x33ed7d2a, 0xe72719c1, 0x154c9ac2, 0x061c6936, 0xf477ea35, 0xaa64d611, 0x580f5512,
     0x4b5fa6e6, 0xb93425e5, 0x6dfe410e, 0x9f95c20d, 0x8cc531f9, 0x7eaeb2fa, 0x30e349b1,
     0xc288cab2, 0xd1d83946, 0x23b3ba45, 0xf779deae, 0x05125dad, 0x1642ae59, 0xe4292d5a,
     0xba3a117e, 0x4851927d, 0x5b016189, 0xa96ae28a, 0x7da08661, 0x8fcb0562, 0x9c9bf696,
     0x6ef07595, 0x417b1dbc, 0xb3109ebf, 0xa0406d4b, 0x522bee48, 0x86e18aa3, 0x748a09a0,
     0x67dafa54, 0x95b17957, 0xcba24573, 0x39c9c670, 0x2a993584, 0xd8f2b687, 0x0c38d26c,
     0xfe53516f, 0xed03a29b, 0x1f682198, 0x5125dad3, 0xa34e59d0, 0xb01eaa24, 0x42752927,
     0x96bf4dcc, 0x64d4cecf, 0x77843d3b, 0x85efbe38, 0xdbfc821c, 0x2997011f, 0x3ac7f2eb,
     0xc8ac71e8, 0x1c661503, 0xee0d9600, 0xfd5d65f4, 0x0f36e6f7, 0x61c69362, 0x93ad1061,
     0x80fde395, 0x72966096, 0xa65c047d, 0x5437877e, 0x4767748a, 0xb50cf789, 0xeb1fcbad,
     0x197448ae, 0x0a24bb5a, 0xf84f3859, 0x2c855cb2, 0xdeeedfb1, 0xcdbe2c45, 0x3fd5af46,
     0x7198540d, 0x83f3d70e, 0x90a324fa, 0x62c8a7f9, 0xb602c312, 0x44694011, 0x5739b3e5,
     0xa55230e6, 0xfb410cc2, 0x092a8fc1, 0x1a7a7c35, 0xe811ff36, 0x3cdb9bdd, 0xceb018de,
     0xdde0eb2a, 0x2f8b6829, 0x82f63b78, 0x709db87b, 0x63cd4b8f, 0x91a6c88c, 0x456cac67,
     0xb7072f64, 0xa457dc90, 0x563c5f93, 0x082f63b7, 0xfa44e0b4, 0xe9141340, 0x1b7f9043,
     0xcfb5f4a8, 0x3dde77ab, 0x2e8e845f, 0xdce5075c, 0x92a8fc17, 0x60c37f14, 0x73938ce0,
     0x81f80fe3, 0x55326b08, 0xa759e80b, 0xb4091bff, 0x466298fc, 0x1871a4d8, 0xea1a27db,
     0xf94ad42f, 0x0b21572c, 0xdfeb33c7, 0x2d80b0c4, 0x3ed04330, 0xccbbc033, 0xa24bb5a6,
     0x502036a5, 0x4370c551, 0xb11b4652, 0x65d122b9, 0x97baa1ba, 0x84ea524e, 0x7681d14d,
     0x2892ed69, 0xdaf96e6a, 0xc9a99d9e, 0x3bc21e9d, 0xef087a76, 0x1d63f975, 0x0e330a81,
     0xfc588982, 0xb21572c9, 0x407ef1ca, 0x532e023e, 0xa145813d, 0x758fe5d6, 0x87e466d5,
     0x94b49521, 0x66df1622, 0x38cc2a06, 0xcaa7a905, 0xd9f75af1, 0x2b9cd9f2, 0xff56bd19,
     0x0d3d3e1a, 0x1e6dcdee, 0xec064eed, 0xc38d26c4, 0x31e6a5c7, 0x22b65633, 0xd0ddd530,
     0x0417b1db, 0xf67c32d8, 0xe52cc12c, 0x1747422f, 0x49547e0b, 0xbb3ffd08, 0xa86f0efc,
     0x5a048dff, 0x8ecee914, 0x7ca56a17, 0x6ff599e3, 0x9d9e1ae0, 0xd3d3e1ab, 0x21b862a8,
     0x32e8915c, 0xc083125f, 0x144976b4, 0xe622f5b7, 0xf5720643, 0x07198540, 0x590ab964,
     0xab613a67, 0xb831c993, 0x4a5a4a90, 0x9e902e7b, 0x6cfbad78, 0x7fab5e8c, 0x8dc0dd8f,
     0xe330a81a, 0x115b2b19, 0x020bd8ed, 0xf0605bee, 0x24aa3f05, 0xd6c1bc06, 0xc5914ff2,
     0x37faccf1, 0x69e9f0d5, 0x9b8273d6, 0x88d28022, 0x7ab90321, 0xae7367ca, 0x5c18e4c9,
     0x4f48173d, 0xbd23943e, 0xf36e6f75, 0x0105ec76, 0x12551f82, 0xe03e9c81, 0x34f4f86a,
     0xc69f7b69, 0xd5cf889d, 0x27a40b9e, 0x79b737ba, 0x8bdcb4b9, 0x988c474d, 0x6ae7c44e,
     0xbe2da0a5, 0x4c4623a6, 0x5f16d052, 0xad7d5351]"

definition table1 :: "u32 list" where
  "table1 = [
     0x00000000, 0x13a29877, 0x274530ee, 0x34e7a899, 0x4e8a61dc, 0x5d28f9ab, 0x69cf5132,
     0x7a6dc945, 0x9d14c3b8, 0x8eb65bcf, 0xba51f356, 0xa9f36b21, 0xd39ea264, 0xc03c3a13,
     0xf4db928a, 0xe7790afd, 0x3fc5f181, 0x2c6769f6, 0x1880c16f, 0x0b225918, 0x714f905d,
     0x62ed082a, 0x560aa0b3, 0x45a838c4, 0xa2d13239, 0xb173aa4e, 0x859402d7, 0x96369aa0,
     0xec5b53e5, 0xfff9cb92, 0xcb1e630b, 0xd8bcfb7c, 0x7f8be302, 0x6c297b75, 0x58ced3ec,
     0x4b6c4b9b, 0x310182de, 0x22a31aa9, 0x1644b230, 0x05e62a47, 0xe29f20ba, 0xf13db8cd,
     0xc5da1054, 0xd6788823, 0xac154166, 0xbfb7d911, 0x8b507188, 0x98f2e9ff, 0x404e1283,
     0x53ec8af4, 0x670b226d, 0x74a9ba1a, 0x0ec4735f, 0x1d66eb28, 0x298143b1, 0x3a23dbc6,
     0xdd5ad13b, 0xcef8494c, 0xfa1fe1d5, 0xe9bd79a2, 0x93d0b0e7, 0x80722890, 0xb4958009,
     0xa737187e, 0xff17c604, 0xecb55e73, 0xd852f6ea, 0xcbf06e9d, 0xb19da7d8, 0xa23f3faf,
     0x96d89736, 0x857a0f41, 0x620305bc, 0x71a19dcb, 0x45463552, 0x56e4ad25, 0x2c896460,
     0x3f2bfc17, 0x0bcc548e, 0x186eccf9, 0xc0d23785, 0xd370aff2, 0xe797076b, 0xf4359f1c,
     0x8e585659, 0x9dface2e, 0xa91d66b7, 0xbabffec0, 0x5dc6f43d, 0x4e646c4a, 0x7a83c4d3,
     0x69215ca4, 0x134c95e1, 0x00ee0d96, 0x3409a50f, 0x27ab3d78, 0x809c2506, 0x933ebd71,
     0xa7d915e8, 0xb47b8d9f, 0xce1644da, 0xddb4dcad, 0xe9537434, 0xfaf1ec43, 0x1d88e6be,
     0x0e2a7ec9, 0x3acdd650, 0x296f4e27, 0x53028762, 0x40a01f15, 0x7447b78c, 0x67e52ffb,
     0xbf59d487, 0xacfb4cf0, 0x981ce469, 0x8bbe7c1e, 0xf1d3b55b, 0xe2712d2c, 0xd69685b5,
     0xc5341dc2, 0x224d173f, 0x31ef8f48, 0x050827d1, 0x16aabfa6, 0x6cc776e3, 0x7f65ee94,
     0x4b82460d, 0x5820de7a, 0xfbc3faf9, 0xe861628e, 0xdc86ca17, 0xcf245260, 0xb5499b25,
     0xa6eb0352, 0x920cabcb, 0x81ae33bc, 0x66d73941, 0x7575a136, 0x419209af, 0x523091d8,
     0x285d589d, 0x3bffc0ea, 0x0f186873, 0x1cbaf004, 0xc4060b78, 0xd7a4930f, 0xe3433b96,
     0xf0e1a3e1, 0x8a8c6aa4, 0x992ef2d3, 0xadc95a4a, 0xbe6bc23d, 0x5912c8c0, 0x4ab050b7,
     0x7e57f82e, 0x6df56059, 0x1798a91c, 0x043a316b, 0x30dd99f2, 0x237f0185, 0x844819fb,
     0x97ea818c, 0xa30d2915, 0xb0afb162, 0xcac27827, 0xd960e050, 0xed8748c9, 0xfe25d0be,
     0x195cda43, 0x0afe4234, 0x3e19eaad, 0x2dbb72da, 0x57d6bb9f, 0x447423e8, 0x70938b71,
     0x63311306, 0xbb8de87a, 0xa82f700d, 0x9cc8d894, 0x8f6a40e3, 0xf50789a6, 0xe6a511d1,
     0xd242b948, 0xc1e0213f, 0x26992bc2, 0x353bb3b5, 0x01dc1b2c, 0x127e835b, 0x68134a1e,
     0x7bb1d269, 0x4f567af0, 0x5cf4e287, 0x04d43cfd, 0x1776a48a, 0x23910c13, 0x30339464,
     0x4a5e5d21, 0x59fcc556, 0x6d1b6dcf, 0x7eb9f5b8, 0x99c0ff45, 0x8a626732, 0xbe85cfab,
     0xad2757dc, 0xd74a9e99, 0xc4e806ee, 0xf00fae77, 0xe3ad3600, 0x3b11cd7c, 0x28b3550b,
     0x1c54fd92, 0x0ff665e5, 0x759baca0, 0x663934d7, 0x52de9c4e, 0x417c0439, 0xa6050ec4,
     0xb5a796b3, 0x81403e2a, 0x92e2a65d, 0xe88f6f18, 0xfb2df76f, 0xcfca5ff6, 0xdc68c781,
     0x7b5fdfff, 0x68fd4788, 0x5c1aef11, 0x4fb87766, 0x35d5be23, 0x26772654, 0x12908ecd,
     0x013216ba, 0xe64b1c47, 0xf5e98430, 0xc10e2ca9, 0xd2acb4de, 0xa8c17d9b, 0xbb63e5ec,
     0x8f844d75, 0x9c26d502, 0x449a2e7e, 0x5738b609, 0x63df1e90, 0x707d86e7, 0x0a104fa2,
     0x19b2d7d5, 0x2d557f4c, 0x3ef7e73b, 0xd98eedc6, 0xca2c75b1, 0xfecbdd28, 0xed69455f,
     0x97048c1a, 0x84a6146d, 0xb041bcf4, 0xa3e32483]"

definition table2 :: "u32 list" where
  "table2 = [
     0x00000000, 0xa541927e, 0x4f6f520d, 0xea2ec073, 0x9edea41a, 0x3b9f3664, 0xd1b1f617,
     0x74f06469, 0x38513ec5, 0x9d10acbb, 0x773e6cc8, 0xd27ffeb6, 0xa68f9adf, 0x03ce08a1,
     0xe9e0c8d2, 0x4ca15aac, 0x70a27d8a, 0xd5e3eff4, 0x3fcd2f87, 0x9a8cbdf9, 0xee7cd990,
     0x4b3d4bee, 0xa1138b9d, 0x045219e3, 0x48f3434f, 0xedb2d131, 0x079c1142, 0xa2dd833c,
     0xd62de755, 0x736c752b, 0x9942b558, 0x3c032726, 0xe144fb14, 0x4405696a, 0xae2ba919,
     0x0b6a3b67, 0x7f9a5f0e, 0xdadbcd70, 0x30f50d03, 0x95b49f7d, 0xd915c5d1, 0x7c5457af,
     0x967a97dc, 0x333b05a2, 0x47cb61cb, 0xe28af3b5, 0x08a433c6, 0xade5a1b8, 0x91e6869e,
     0x34a714e0, 0xde89d493, 0x7bc846ed, 0x0f382284, 0xaa79b0fa, 0x40577089, 0xe516e2f7,
     0xa9b7b85b, 0x0cf62a25, 0xe6d8ea56, 0x43997828, 0x37691c41, 0x92288e3f, 0x78064e4c,
     0xdd47dc32, 0xc76580d9, 0x622412a7, 0x880ad2d4, 0x2d4b40aa, 0x59bb24c3, 0xfcfab6bd,
     0x16d476ce, 0xb395e4b0, 0xff34be1c, 0x5a752c62, 0xb05bec11, 0x151a7e6f, 0x61ea1a06,
     0xc4ab8878, 0x2e85480b, 0x8bc4da75, 0xb7c7fd53, 0x12866f2d, 0xf8a8af5e, 0x5de93d20,
     0x29195949, 0x8c58cb37, 0x66760b44, 0xc337993a, 0x8f96c396, 0x2ad751e8, 0xc0f9919b,
     0x65b803e5, 0x1148678c, 0xb409f5f2, 0x5e273581, 0xfb66a7ff, 0x26217bcd, 0x8360e9b3,
     0x694e29c0, 0xcc0fbbbe, 0xb8ffdfd7, 0x1dbe4da9, 0xf7908dda, 0x52d11fa4, 0x1e704508,
     0xbb31d776, 0x511f1705, 0xf45e857b, 0x80aee112, 0x25ef736c, 0xcfc1b31f, 0x6a802161,
     0x56830647, 0xf3c29439, 0x19ec544a, 0xbcadc634, 0xc85da25d, 0x6d1c3023, 0x8732f050,
     0x2273622e, 0x6ed23882, 0xcb93aafc, 0x21bd6a8f, 0x84fcf8f1, 0xf00c9c98, 0x554d0ee6,
     0xbf63ce95, 0x1a225ceb, 0x8b277743, 0x2e66e53d, 0xc448254e, 0x6109b730, 0x15f9d359,
     0xb0b84127, 0x5a968154, 0xffd7132a, 0xb3764986, 0x1637dbf8, 0xfc191b8b, 0x595889f5,
     0x2da8ed9c, 0x88e97fe2, 0x62c7bf91, 0xc7862def, 0xfb850ac9, 0x5ec498b7, 0xb4ea58c4,
     0x11abcaba, 0x655baed3, 0xc01a3cad, 0x2a34fcde, 0x8f756ea0, 0xc3d4340c, 0x6695a672,
     0x8cbb6601, 0x29faf47f, 0x5d0a9016, 0xf84b0268, 0x1265c21b, 0xb7245065, 0x6a638c57,
     0xcf221e29, 0x250cde5a, 0x804d4c24, 0xf4bd284d, 0x51fcba33, 0xbbd27a40, 0x1e93e83e,
     0x5232b292, 0xf77320ec, 0x1d5de09f, 0xb81c72e1, 0xccec1688, 0x69ad84f6, 0x83834485,
     0x26c2d6fb, 0x1ac1f1dd, 0xbf8063a3, 0x55aea3d0, 0xf0ef31ae, 0x841f55c7, 0x215ec7b9,
     0xcb7007ca, 0x6e3195b4, 0x2290cf18, 0x87d15d66, 0x6dff9d15, 0xc8be0f6b, 0xbc4e6b02,
     0x190ff97c, 0xf321390f, 0x5660ab71, 0x4c42f79a, 0xe90365e4, 0x032da597, 0xa66c37e9,
     0xd29c5380, 0x77ddc1fe, 0x9df3018d, 0x38b293f3, 0x7413c95f, 0xd1525b21, 0x3b7c9b52,
     0x9e3d092c, 0xeacd6d45, 0x4f8cff3b, 0xa5a23f48, 0x00e3ad36, 0x3ce08a10, 0x99a1186e,
     0x738fd81d, 0xd6ce4a63, 0xa23e2e0a, 0x077fbc74, 0xed517c07, 0x4810ee79, 0x04b1b4d5,
     0xa1f026ab, 0x4bdee6d8, 0xee9f74a6, 0x9a6f10cf, 0x3f2e82b1, 0xd50042c2, 0x7041d0bc,
     0xad060c8e, 0x08479ef0, 0xe2695e83, 0x4728ccfd, 0x33d8a894, 0x96993aea, 0x7cb7fa99,
     0xd9f668e7, 0x9557324b, 0x3016a035, 0xda386046, 0x7f79f238, 0x0b899651, 0xaec8042f,
     0x44e6c45c, 0xe1a75622, 0xdda47104, 0x78e5e37a, 0x92cb2309, 0x378ab177, 0x437ad51e,
     0xe63b4760, 0x0c158713, 0xa954156d, 0xe5f54fc1, 0x40b4ddbf, 0xaa9a1dcc, 0x0fdb8fb2,
     0x7b2bebdb, 0xde6a79a5, 0x3444b9d6, 0x91052ba8]"

definition table3 :: "u32 list" where
  "table3 = [
     0x00000000, 0xdd45aab8, 0xbf672381, 0x62228939, 0x7b2231f3, 0xa6679b4b, 0xc4451272,
     0x1900b8ca, 0xf64463e6, 0x2b01c95e, 0x49234067, 0x9466eadf, 0x8d665215, 0x5023f8ad,
     0x32017194, 0xef44db2c, 0xe964b13d, 0x34211b85, 0x560392bc, 0x8b463804, 0x924680ce,
     0x4f032a76, 0x2d21a34f, 0xf06409f7, 0x1f20d2db, 0xc2657863, 0xa047f15a, 0x7d025be2,
     0x6402e328, 0xb9474990, 0xdb65c0a9, 0x06206a11, 0xd725148b, 0x0a60be33, 0x6842370a,
     0xb5079db2, 0xac072578, 0x71428fc0, 0x136006f9, 0xce25ac41, 0x2161776d, 0xfc24ddd5,
     0x9e0654ec, 0x4343fe54, 0x5a43469e, 0x8706ec26, 0xe524651f, 0x3861cfa7, 0x3e41a5b6,
     0xe3040f0e, 0x81268637, 0x5c632c8f, 0x45639445, 0x98263efd, 0xfa04b7c4, 0x27411d7c,
     0xc805c650, 0x15406ce8, 0x7762e5d1, 0xaa274f69, 0xb327f7a3, 0x6e625d1b, 0x0c40d422,
     0xd1057e9a, 0xaba65fe7, 0x76e3f55f, 0x14c17c66, 0xc984d6de, 0xd0846e14, 0x0dc1c4ac,
     0x6fe34d95, 0xb2a6e72d, 0x5de23c01, 0x80a796b9, 0xe2851f80, 0x3fc0b538, 0x26c00df2,
     0xfb85a74a, 0x99a72e73, 0x44e284cb, 0x42c2eeda, 0x9f874462, 0xfda5cd5b, 0x20e067e3,
     0x39e0df29, 0xe4a57591, 0x8687fca8, 0x5bc25610, 0xb4868d3c, 0x69c32784, 0x0be1aebd,
     0xd6a40405, 0xcfa4bccf, 0x12e11677, 0x70c39f4e, 0xad8635f6, 0x7c834b6c, 0xa1c6e1d4,
     0xc3e468ed, 0x1ea1c255, 0x07a17a9f, 0xdae4d027, 0xb8c6591e, 0x6583f3a6, 0x8ac7288a,
     0x57828232, 0x35a00b0b, 0xe8e5a1b3, 0xf1e51979, 0x2ca0b3c1, 0x4e823af8, 0x93c79040,
     0x95e7fa51, 0x48a250e9, 0x2a80d9d0, 0xf7c57368, 0xeec5cba2, 0x3380611a, 0x51a2e823,
     0x8ce7429b, 0x63a399b7, 0xbee6330f, 0xdcc4ba36, 0x0181108e, 0x1881a844, 0xc5c402fc,
     0xa7e68bc5, 0x7aa3217d, 0x52a0c93f, 0x8fe56387, 0xedc7eabe, 0x30824006, 0x2982f8cc,
     0xf4c75274, 0x96e5db4d, 0x4ba071f5, 0xa4e4aad9, 0x79a10061, 0x1b838958, 0xc6c623e0,
     0xdfc69b2a, 0x02833192, 0x60a1b8ab, 0xbde41213, 0xbbc47802, 0x6681d2ba, 0x04a35b83,
     0xd9e6f13b, 0xc0e649f1, 0x1da3e349, 0x7f816a70, 0xa2c4c0c8, 0x4d801be4, 0x90c5b15c,
     0xf2e73865, 0x2fa292dd, 0x36a22a17, 0xebe780af, 0x89c50996, 0x5480a32e, 0x8585ddb4,
     0x58c0770c, 0x3ae2fe35, 0xe7a7548d, 0xfea7ec47, 0x23e246ff, 0x41c0cfc6, 0x9c85657e,
     0x73c1be52, 0xae8414ea, 0xcca69dd3, 0x11e3376b, 0x08e38fa1, 0xd5a62519, 0xb784ac20,
     0x6ac10698, 0x6ce16c89, 0xb1a4c631, 0xd3864f08, 0x0ec3e5b0, 0x17c35d7a, 0xca86f7c2,
     0xa8a47efb, 0x75e1d443, 0x9aa50f6f, 0x47e0a5d7, 0x25c22cee, 0xf8878656, 0xe1873e9c,
     0x3cc29424, 0x5ee01d1d, 0x83a5b7a5, 0xf90696d8, 0x24433c60, 0x4661b559, 0x9b241fe1,
     0x8224a72b, 0x5f610d93, 0x3d4384aa, 0xe0062e12, 0x0f42f53e, 0xd2075f86, 0xb025d6bf,
     0x6d607c07, 0x7460c4cd, 0xa9256e75, 0xcb07e74c, 0x16424df4, 0x106227e5, 0xcd278d5d,
     0xaf050464, 0x7240aedc, 0x6b401616, 0xb605bcae, 0xd4273597, 0x09629f2f, 0xe6264403,
     0x3b63eebb, 0x59416782, 0x8404cd3a, 0x9d0475f0, 0x4041df48, 0x22635671, 0xff26fcc9,
     0x2e238253, 0xf36628eb, 0x9144a1d2, 0x4c010b6a, 0x5501b3a0, 0x88441918, 0xea669021,
     0x37233a99, 0xd867e1b5, 0x05224b0d, 0x6700c234, 0xba45688c, 0xa345d046, 0x7e007afe,
     0x1c22f3c7, 0xc167597f, 0xc747336e, 0x1a0299d6, 0x782010ef, 0xa565ba57, 0xbc65029d,
     0x6120a825, 0x0302211c, 0xde478ba4, 0x31035088, 0xec46fa30, 0x8e647309, 0x5321d9b1,
     0x4a21617b, 0x9764cbc3, 0xf54642fa, 0x2803e842]"
section \<open>Extending a checksum\<close>

definition LE_LOAD32 :: "slice \<Rightarrow> u32" where
  "LE_LOAD32 p = DecodeFixed32 p"

definition DefaultCRC32 :: "u64 \<Rightarrow> slice \<Rightarrow> u64 \<times> slice" where
  "DefaultCRC32 l p =
     (let c = ucast (l XOR ucast (LE_LOAD32 p)) :: u32;
          p = drop 4 p;
          l = ucast (table3 ! unat (c AND 255) XOR table2 ! unat (drop_bit 8 c AND 255) XOR
                     table1 ! unat (drop_bit 16 c AND 255) XOR table0 ! unat (drop_bit 24 c)) :: u64;
          c = ucast (l XOR ucast (LE_LOAD32 p)) :: u32;
          p = drop 4 p;
          l = ucast (table3 ! unat (c AND 255) XOR table2 ! unat (drop_bit 8 c AND 255) XOR
                     table1 ! unat (drop_bit 16 c AND 255) XOR table0 ! unat (drop_bit 24 c))
      in (l, p))"

definition STEP1 :: "u64 \<Rightarrow> byte \<Rightarrow> u64" where
  "STEP1 l b = (let c = (l AND 255) XOR ucast b in ucast (table0 ! unat c) XOR drop_bit 8 l)"

function ExtendImpl_loop16 :: "u64 \<Rightarrow> slice \<Rightarrow> u64 \<times> slice" where
  "ExtendImpl_loop16 l p =
     (if length p \<ge> 16 then
        let (l, p) = DefaultCRC32 l p; (l, p) = DefaultCRC32 l p in ExtendImpl_loop16 l p
      else (l, p))"
  by pat_completeness auto
termination
  by (relation "measure (\<lambda>(l, p). length p)") (auto simp: DefaultCRC32_def Let_def)

function ExtendImpl_loop8 :: "u64 \<Rightarrow> slice \<Rightarrow> u64 \<times> slice" where
  "ExtendImpl_loop8 l p =
     (if length p \<ge> 8 then let (l, p) = DefaultCRC32 l p in ExtendImpl_loop8 l p else (l, p))"
  by pat_completeness auto
termination
  by (relation "measure (\<lambda>(l, p). length p)") (auto simp: DefaultCRC32_def Let_def)

declare ExtendImpl_loop16.simps [simp del] ExtendImpl_loop8.simps [simp del]

text \<open>
  \<open>pval\<close> is the address of the buffer: the bytes before the first address that is a multiple
  of 16 are taken one at a time.
\<close>

definition ExtendImpl :: "nat \<Rightarrow> u32 \<Rightarrow> slice \<Rightarrow> u32" where
  "ExtendImpl pval crc p =
     (let l = ucast (crc XOR 0xffffffff);
          x = (pval + 15) div 16 * 16 - pval;
          (l, p) = (if x \<le> length p then (foldl STEP1 l (take x p), drop x p) else (l, p));
          (l, p) = ExtendImpl_loop16 l p;
          (l, p) = ExtendImpl_loop8 l p;
          l = foldl STEP1 l p
      in ucast (l XOR 0xffffffff))"

text \<open>
  \<open>Extend\<close> dispatches to \<open>ExtendImpl\<close> in the portable build. The address does not matter
  (\<open>ExtendImpl_crc_bits\<close> below), so callers use an aligned one.
\<close>

definition Extend :: "u32 \<Rightarrow> slice \<Rightarrow> u32" where
  "Extend crc buf = ExtendImpl 0 crc buf"

definition Value :: "slice \<Rightarrow> u32" where
  "Value data = Extend 0 data"

section \<open>Masking\<close>

definition kMaskDelta :: u32 where
  "kMaskDelta = 0xa282ead8"

definition Mask :: "u32 \<Rightarrow> u32" where
  "Mask crc = (drop_bit 15 crc OR push_bit 17 crc) + kMaskDelta"

definition Unmask :: "u32 \<Rightarrow> u32" where
  "Unmask masked_crc =
     (let rot = masked_crc - kMaskDelta in drop_bit 17 rot OR push_bit 15 rot)"

section \<open>Combining checksums\<close>

text \<open>The recursion starts at 0 and stops at 32.\<close>

function gf_multiply_sw_1 :: "nat \<Rightarrow> u32 \<Rightarrow> u32 \<Rightarrow> u32 \<Rightarrow> u32 \<Rightarrow> u32" where
  "gf_multiply_sw_1 i p a b m =
     (if i \<ge> 32 then p
      else gf_multiply_sw_1 (i + 1) (p XOR ((0 - (drop_bit 31 b AND 1)) AND a))
             (drop_bit 1 a XOR ((0 - (a AND 1)) AND m)) (push_bit 1 b) m)"
  by pat_completeness auto
termination
  by (relation "measure (\<lambda>(i, p, a, b, m). 32 - i)") auto

declare gf_multiply_sw_1.simps [simp del]

definition gf_multiply_sw :: "u32 \<Rightarrow> u32 \<Rightarrow> u32 \<Rightarrow> u32" where
  "gf_multiply_sw a b m = gf_multiply_sw_1 0 0 a b m"

definition gf_square_sw :: "u32 \<Rightarrow> u32 \<Rightarrow> u32" where
  "gf_square_sw a m = gf_multiply_sw a a m"

primrec gf_powers_memo :: "nat \<Rightarrow> u32 \<Rightarrow> u32" where
  "gf_powers_memo 0 m = m"
| "gf_powers_memo (Suc i) m = gf_square_sw (gf_powers_memo i m) m"

definition crc32c_m :: u32 where
  "crc32c_m = 0x82f63b78"

definition crc32c_powers :: "u32 list" where
  "crc32c_powers = map (\<lambda>i. gf_powers_memo i crc32c_m) [0..<62]"

definition CountTrailingZeroBits :: "u64 \<Rightarrow> nat" where
  "CountTrailingZeroBits v = (case find (bit v) [0..<64] of Some i \<Rightarrow> i | None \<Rightarrow> 64)"

lemma unat_drop_bit_less:
  assumes "v \<noteq> (0 :: u64)" and "0 < n"
  shows "unat (drop_bit n v) < unat v"
proof -
  have "0 < unat v" using assms(1) by (simp add: unat_gt_0)
  moreover have "unat (drop_bit n v) = unat v div 2 ^ n"
    by (subst unat_drop_bit_eq) (simp add: drop_bit_eq_div)
  moreover have "1 < (2 :: nat) ^ n" by (rule one_less_power) (use assms(2) in simp_all)
  ultimately show ?thesis by (simp add: div_less_dividend del: one_less_power)
qed

function Crc32AppendZeroes_loop :: "u32 \<Rightarrow> u64 \<Rightarrow> nat \<Rightarrow> u32 \<Rightarrow> u32 list \<Rightarrow> u32" where
  "Crc32AppendZeroes_loop crc len_bits powers polynomial powers_array =
     (if len_bits = 0 then crc
      else
        let r = CountTrailingZeroBits len_bits;
            len_bits' = drop_bit r len_bits;
            powers = powers + r;
            crc = gf_multiply_sw crc (powers_array ! powers) polynomial
        in Crc32AppendZeroes_loop crc (drop_bit 1 len_bits') (powers + 1) polynomial powers_array)"
  by pat_completeness auto
termination
  by (relation "measure (\<lambda>(crc, len_bits, p, poly, arr). unat len_bits)")
     (auto simp: drop_bit_drop_bit intro!: unat_drop_bit_less)

declare Crc32AppendZeroes_loop.simps [simp del]

definition Crc32AppendZeroes :: "u32 \<Rightarrow> nat \<Rightarrow> u32 \<Rightarrow> u32 list \<Rightarrow> u32" where
  "Crc32AppendZeroes crc len_over_4 polynomial powers_array =
     Crc32AppendZeroes_loop crc (of_nat len_over_4) 0 polynomial powers_array"

definition InvertedToPure :: "u32 \<Rightarrow> u32" where
  "InvertedToPure crc = NOT crc"

definition PureToInverted :: "u32 \<Rightarrow> u32" where
  "PureToInverted crc = NOT crc"

definition PureExtend :: "u32 \<Rightarrow> slice \<Rightarrow> u32" where
  "PureExtend crc buf = InvertedToPure (Extend (PureToInverted crc) buf)"

definition Crc32cCombine :: "u32 \<Rightarrow> u32 \<Rightarrow> nat \<Rightarrow> u32" where
  "Crc32cCombine crc1 crc2 crc2len =
     (let pure_crc1_with_init = InvertedToPure crc1;
          pure_crc2_with_init = InvertedToPure crc2;
          pure_crc2_init = -1;
          len = crc2len mod 4;
          tmp = pure_crc1_with_init XOR pure_crc2_init;
          tmp = (if len \<noteq> 0 then PureExtend tmp (replicate len 0) else tmp)
      in PureToInverted
           (Crc32AppendZeroes tmp (crc2len div 4) crc32c_m crc32c_powers XOR pure_crc2_with_init))"

section \<open>The bit-by-bit checksum\<close>

text \<open>
  One step divides by the reflected polynomial's generator: the register moves by one bit and
  the bit that falls out folds the polynomial in. A byte is eight steps.
\<close>

definition bitstep :: "u32 \<Rightarrow> u32" where
  "bitstep x = drop_bit 1 x XOR (if bit x 0 then crc32c_m else 0)"

definition bytestep :: "u32 \<Rightarrow> byte \<Rightarrow> u32" where
  "bytestep l b = (bitstep ^^ 8) (l XOR ucast b)"

definition crc_bits :: "u32 \<Rightarrow> slice \<Rightarrow> u32" where
  "crc_bits crc buf = NOT (foldl bytestep (NOT crc) buf)"

subsection \<open>Linear maps on registers\<close>

definition xor_linear :: "(u32 \<Rightarrow> u32) \<Rightarrow> bool" where
  "xor_linear f \<longleftrightarrow> (\<forall>x y. f (x XOR y) = f x XOR f y)"

lemma xor_linearD: "xor_linear f \<Longrightarrow> f (x XOR y) = f x XOR f y"
  by (simp add: xor_linear_def)

lemma xor_linear_0: "xor_linear f \<Longrightarrow> f 0 = 0"
  using xor_linearD [of f 0 0] by simp

lemma xor_left_swap: "(a :: 'a::len word) XOR (b XOR c) = b XOR (a XOR c)"
  by (rule bit_word_eqI) (auto simp: bit_simps)

lemmas xor_ac = xor.assoc xor.commute xor_left_swap

lemma bitstep_linear: "xor_linear bitstep"
  unfolding xor_linear_def bitstep_def
  by (auto intro!: bit_word_eqI simp: bit_simps)

lemma funpow_linear: "xor_linear f \<Longrightarrow> xor_linear (f ^^ n)"
  by (induction n) (simp_all add: xor_linear_def)

lemmas bitstep_pow_xor = xor_linearD [OF funpow_linear [OF bitstep_linear]]
lemmas bitstep_pow_0 = xor_linear_0 [OF funpow_linear [OF bitstep_linear]]

lemma take_bit_Suc_xor:
  "take_bit (Suc n) (x :: u32) = take_bit n x XOR (if bit x n then push_bit n 1 else 0)"
  by (rule bit_word_eqI) (auto simp: bit_simps less_Suc_eq)

lemma linear_ext:
  assumes f: "xor_linear f" and g: "xor_linear g"
    and basis: "\<And>j. j < 32 \<Longrightarrow> f (push_bit j 1) = g (push_bit j 1)"
  shows "f x = g x"
proof -
  have "n \<le> 32 \<Longrightarrow> f (take_bit n x) = g (take_bit n x)" for n
  proof (induction n)
    case 0
    show ?case using f g by (simp add: xor_linear_0)
  next
    case (Suc n)
    then show ?case
      using f g basis [of n]
      by (simp add: take_bit_Suc_xor xor_linearD xor_linear_0)
  qed
  from this [of 32] show ?thesis by (simp add: take_bit_word_eq_self)
qed

text \<open>Register bits that the first steps leave alone are only shifted.\<close>

lemma bitstep_pow_shift: "take_bit n x = 0 \<Longrightarrow> (bitstep ^^ n) x = drop_bit n x"
proof (induction n arbitrary: x)
  case (Suc n)
  have low: "\<not> bit x i" if "i < Suc n" for i
    using arg_cong [OF Suc.prems, of "\<lambda>v. bit v i"] that by (simp add: bit_simps)
  then have "\<not> bit x 0" by simp
  then have "bitstep x = drop_bit 1 x" by (simp add: bitstep_def)
  moreover have "take_bit n (drop_bit 1 x) = 0"
    by (rule bit_word_eqI) (auto simp: bit_simps low)
  ultimately show ?case
    using Suc.IH [of "drop_bit 1 x"] by (simp add: funpow_swap1 drop_bit_drop_bit)
qed simp

lemma bitstep_pow_split: "(bitstep ^^ n) x = (bitstep ^^ n) (take_bit n x) XOR drop_bit n x"
proof -
  have x: "x = take_bit n x XOR push_bit n (drop_bit n x)"
    by (rule bit_word_eqI) (auto simp: bit_simps)
  have "take_bit n (push_bit n (drop_bit n x)) = 0"
    by (rule bit_word_eqI) (auto simp: bit_simps)
  then have "(bitstep ^^ n) (push_bit n (drop_bit n x)) = drop_bit n (push_bit n (drop_bit n x))"
    by (rule bitstep_pow_shift)
  also have "\<dots> = drop_bit n x"
    by (rule bit_word_eqI) (auto simp: bit_simps dest: bit_imp_le_length)
  finally show ?thesis by (subst x) (simp only: bitstep_pow_xor)
qed

lemma bitstep_basis: "n \<le> k \<Longrightarrow> k < 32 \<Longrightarrow> (bitstep ^^ n) (push_bit k 1) = push_bit (k - n) 1"
proof -
  assume n: "n \<le> k" "k < 32"
  have "take_bit n (push_bit k 1 :: u32) = 0"
    using n by (intro bit_word_eqI) (auto simp: bit_simps)
  then have "(bitstep ^^ n) (push_bit k 1) = drop_bit n (push_bit k 1)"
    by (rule bitstep_pow_shift)
  also have "\<dots> = push_bit (k - n) 1"
    using n by (intro bit_word_eqI) (auto simp: bit_simps)
  finally show ?thesis .
qed

subsection \<open>The tables are linear maps\<close>

text \<open>A table of a linear map is spread out from its values at the powers of two.\<close>

definition spread :: "u32 list \<Rightarrow> u32 list" where
  "spread bs = foldl (\<lambda>t b. t @ map (\<lambda>x. b XOR x) t) [0] bs"

lemma of_nat_add_power:
  assumes "c < 2 ^ n" and "n < 32"
  shows "(of_nat (2 ^ n + c) :: u32) = push_bit n 1 XOR of_nat c"
proof -
  have low: "n \<le> i \<Longrightarrow> \<not> bit c i" for i
    using assms(1) bit_take_bit_iff [of n c i] by (simp add: take_bit_nat_eq_self)
  have "push_bit n 1 AND (of_nat c :: u32) = 0"
    by (rule bit_word_eqI) (auto simp: bit_simps low)
  then have "push_bit n 1 + (of_nat c :: u32) = push_bit n 1 OR of_nat c"
    by (rule disjunctive_add_eq_or)
  moreover have "push_bit n 1 OR (of_nat c :: u32) = push_bit n 1 XOR of_nat c"
    by (rule bit_word_eqI) (auto simp: bit_simps low)
  ultimately show ?thesis by (simp add: push_bit_eq_mult)
qed

lemma spread_linear:
  assumes "xor_linear f" and "n \<le> 32"
  shows "spread (map (\<lambda>k. f (push_bit k 1)) [0..<n]) = map (\<lambda>c. f (of_nat c)) [0..<2 ^ n]"
  using assms(2)
proof (induction n)
  case 0
  show ?case using assms(1) by (simp add: spread_def xor_linear_0)
next
  case (Suc n)
  have up: "[0..<2 ^ Suc n] = [0..<2 ^ n] @ map (\<lambda>c. 2 ^ n + c) [0..<2 ^ n]"
    using upt_add_eq_append [of 0 "2 ^ n" "2 ^ n"] map_add_upt [of "2 ^ n" "2 ^ n"]
    by (simp add: mult_2 add.commute)
  have "f (of_nat (2 ^ n + c)) = f (push_bit n 1) XOR f (of_nat c)" if "c < 2 ^ n" for c
    using that Suc.prems assms(1) of_nat_add_power [of c n] by (simp add: xor_linearD)
  then show ?case
    using Suc by (simp only: up) (simp add: spread_def)
qed

lemma table_nth:
  assumes "t = map (\<lambda>c. f (of_nat c :: u32)) [0..<256]" and "unat x < 256"
  shows "t ! unat x = f (ucast x)"
  using assms by simp

lemma table0_spread: "table0 = spread (map (\<lambda>k. table0 ! (2 ^ k)) [0..<8])"
  by (simp add: spread_def table0_def upt_rec)

lemma table1_spread: "table1 = spread (map (\<lambda>k. table1 ! (2 ^ k)) [0..<8])"
  by (simp add: spread_def table1_def upt_rec)

lemma table2_spread: "table2 = spread (map (\<lambda>k. table2 ! (2 ^ k)) [0..<8])"
  by (simp add: spread_def table2_def upt_rec)

lemma table3_spread: "table3 = spread (map (\<lambda>k. table3 ! (2 ^ k)) [0..<8])"
  by (simp add: spread_def table3_def upt_rec)

lemma funpow_8: "(f ^^ 8) x = f (f (f (f (f (f (f (f x)))))))"
  by (simp add: eval_nat_numeral)

lemma map_upt_8: "map f [0..<8] = [f 0, f 1, f 2, f 3, f 4, f 5, f 6, f 7]"
  by (simp add: upt_rec eval_nat_numeral)

lemma table_powers:
  "map (\<lambda>k. table0 ! (2 ^ k)) [0..<8] = map (\<lambda>k. (bitstep ^^ 8) (push_bit k 1)) [0..<8]"
  "map (\<lambda>k. table1 ! (2 ^ k)) [0..<8] = map (\<lambda>k. (bitstep ^^ 8) (table0 ! (2 ^ k))) [0..<8]"
  "map (\<lambda>k. table2 ! (2 ^ k)) [0..<8] = map (\<lambda>k. (bitstep ^^ 8) (table1 ! (2 ^ k))) [0..<8]"
  "map (\<lambda>k. table3 ! (2 ^ k)) [0..<8] = map (\<lambda>k. (bitstep ^^ 8) (table2 ! (2 ^ k))) [0..<8]"
  unfolding map_upt_8
  by (simp_all add: table0_def table1_def table2_def table3_def funpow_8 bitstep_def crc32c_m_def)

text \<open>Table \<open>j\<close> maps a byte to the register after \<open>j + 1\<close> bytes.\<close>

lemma tables_bitstep:
  "table0 = map (\<lambda>c. (bitstep ^^ 8) (of_nat c)) [0..<256]"
  "table1 = map (\<lambda>c. (bitstep ^^ 16) (of_nat c)) [0..<256]"
  "table2 = map (\<lambda>c. (bitstep ^^ 24) (of_nat c)) [0..<256]"
  "table3 = map (\<lambda>c. (bitstep ^^ 32) (of_nat c)) [0..<256]"
proof -
  have lin: "spread (map (\<lambda>k. (bitstep ^^ n) (push_bit k 1)) [0..<8]) =
      map (\<lambda>c. (bitstep ^^ n) (of_nat c)) [0..<256]" for n
    using spread_linear [OF funpow_linear [OF bitstep_linear], where n = 8] by simp
  have more: "(bitstep ^^ 8) ((bitstep ^^ n) x) = (bitstep ^^ (8 + n)) x" for n x
    by (simp add: funpow_add)
  have p0: "\<forall>k\<in>set [0..<8]. table0 ! (2 ^ k) = (bitstep ^^ 8) (push_bit k 1)"
    using table_powers(1) by (simp only: map_eq_conv)
  have p1: "\<forall>k\<in>set [0..<8]. table1 ! (2 ^ k) = (bitstep ^^ 16) (push_bit k 1)"
    using table_powers(2) p0 more [of 8] by (simp only: map_eq_conv) simp
  have p2: "\<forall>k\<in>set [0..<8]. table2 ! (2 ^ k) = (bitstep ^^ 24) (push_bit k 1)"
    using table_powers(3) p1 more [of 16] by (simp only: map_eq_conv) simp
  have p3: "\<forall>k\<in>set [0..<8]. table3 ! (2 ^ k) = (bitstep ^^ 32) (push_bit k 1)"
    using table_powers(4) p2 more [of 24] by (simp only: map_eq_conv) simp
  have fin: "t = map (\<lambda>c. (bitstep ^^ n) (of_nat c)) [0..<256]"
    if "t = spread (map (\<lambda>k. t ! (2 ^ k)) [0..<8])"
      and "\<forall>k\<in>set [0..<8]. t ! (2 ^ k) = (bitstep ^^ n) (push_bit k 1)" for t n
  proof -
    have "map (\<lambda>k. t ! (2 ^ k)) [0..<8] = map (\<lambda>k. (bitstep ^^ n) (push_bit k 1)) [0..<8]"
      using that(2) by (intro map_cong) auto
    then show ?thesis using that(1) lin [of n] by metis
  qed
  show "table0 = map (\<lambda>c. (bitstep ^^ 8) (of_nat c)) [0..<256]"
    by (rule fin [OF table0_spread p0])
  show "table1 = map (\<lambda>c. (bitstep ^^ 16) (of_nat c)) [0..<256]"
    by (rule fin [OF table1_spread p1])
  show "table2 = map (\<lambda>c. (bitstep ^^ 24) (of_nat c)) [0..<256]"
    by (rule fin [OF table2_spread p2])
  show "table3 = map (\<lambda>c. (bitstep ^^ 32) (of_nat c)) [0..<256]"
    by (rule fin [OF table3_spread p3])
qed

subsection \<open>The table-driven loop computes the checksum\<close>

lemma and_255_take_bit: "x AND 255 = take_bit 8 (x :: 'a::len word)"
  by (simp add: take_bit_eq_mask mask_eq_exp_minus_1)

lemma unat_take_bit_8: "unat (take_bit 8 (x :: u32)) < 256"
  by (simp add: unsigned_take_bit_eq take_bit_nat_def)

lemma table_take_bit_8:
  "table0 ! unat (take_bit 8 x) = (bitstep ^^ 8) (take_bit 8 x)"
  "table1 ! unat (take_bit 8 x) = (bitstep ^^ 16) (take_bit 8 x)"
  "table2 ! unat (take_bit 8 x) = (bitstep ^^ 24) (take_bit 8 x)"
  "table3 ! unat (take_bit 8 x) = (bitstep ^^ 32) (take_bit 8 x)"
  using table_nth [OF tables_bitstep(1) unat_take_bit_8] table_nth [OF tables_bitstep(2) unat_take_bit_8]
    table_nth [OF tables_bitstep(3) unat_take_bit_8] table_nth [OF tables_bitstep(4) unat_take_bit_8]
  by simp_all

lemma bytestep_table: "bytestep l b = table0 ! unat ((l AND 255) XOR ucast b) XOR drop_bit 8 l"
proof -
  let ?x = "l XOR ucast b"
  have low: "(l AND 255) XOR ucast b = take_bit 8 ?x"
    unfolding and_255_take_bit by (rule bit_word_eqI) (auto simp: bit_simps)
  have high: "drop_bit 8 l = drop_bit 8 ?x"
    by (rule bit_word_eqI) (auto simp: bit_simps)
  show ?thesis
    unfolding bytestep_def low high table_take_bit_8 by (rule bitstep_pow_split)
qed

lemma bytestep_xor_shift:
  "bytestep ((bitstep ^^ n) x) b = (bitstep ^^ (n + 8)) (x XOR push_bit n (ucast b))"
  if "n + 8 \<le> 32"
proof -
  have "take_bit n (push_bit n (ucast b :: u32)) = 0"
    by (rule bit_word_eqI) (auto simp: bit_simps)
  then have "(bitstep ^^ n) (push_bit n (ucast b)) = drop_bit n (push_bit n (ucast b))"
    by (rule bitstep_pow_shift)
  also have "\<dots> = ucast b"
    using that by (intro bit_word_eqI) (auto simp: bit_simps dest: bit_imp_le_length)
  finally show ?thesis
    by (simp add: bytestep_def add.commute [of n] funpow_add bitstep_pow_xor)
qed

lemma bytestep_word:
  "foldl bytestep l [b0, b1, b2, b3] = (bitstep ^^ 32) (l XOR LE_LOAD32 (b0 # b1 # b2 # b3 # r))"
proof -
  have le: "LE_LOAD32 (b0 # b1 # b2 # b3 # r) =
      ucast b0 XOR push_bit 8 (ucast b1) XOR push_bit 16 (ucast b2) XOR push_bit 24 (ucast b3)"
    unfolding LE_LOAD32_def DecodeFixed32_def
    by (rule bit_word_eqI) (auto simp: bit_simps)
  have "bytestep l b0 = (bitstep ^^ 8) (l XOR ucast b0)" by (simp add: bytestep_def)
  then show ?thesis
    by (simp add: bytestep_xor_shift le xor.assoc)
qed

lemma bitstep_32_tables:
  "(bitstep ^^ 32) c =
     table3 ! unat (c AND 255) XOR table2 ! unat (drop_bit 8 c AND 255) XOR
     table1 ! unat (drop_bit 16 c AND 255) XOR table0 ! unat (drop_bit 24 c)"
proof -
  have shift: "(bitstep ^^ (n + m)) (push_bit n (take_bit 8 x)) = (bitstep ^^ m) (take_bit 8 x)"
    if "n + 8 \<le> 32" for n m x
  proof -
    have "take_bit n (push_bit n (take_bit 8 x)) = 0"
      by (rule bit_word_eqI) (auto simp: bit_simps)
    then have "(bitstep ^^ n) (push_bit n (take_bit 8 x)) = drop_bit n (push_bit n (take_bit 8 x))"
      by (rule bitstep_pow_shift)
    also have "\<dots> = take_bit 8 x"
      using that by (intro bit_word_eqI) (auto simp: bit_simps)
    finally show ?thesis by (simp add: add.commute [of n] funpow_add)
  qed
  have c: "c = take_bit 8 c XOR push_bit 8 (take_bit 8 (drop_bit 8 c)) XOR
      push_bit 16 (take_bit 8 (drop_bit 16 c)) XOR push_bit 24 (take_bit 8 (drop_bit 24 c))"
    by (rule bit_word_eqI) (auto simp: bit_simps)
  have top: "drop_bit 24 c = take_bit 8 (drop_bit 24 c)"
    by (rule bit_word_eqI) (auto simp: bit_simps dest: bit_imp_le_length)
  have "(bitstep ^^ 32) c = (bitstep ^^ 32) (take_bit 8 c) XOR
      (bitstep ^^ 24) (take_bit 8 (drop_bit 8 c)) XOR
      (bitstep ^^ 16) (take_bit 8 (drop_bit 16 c)) XOR (bitstep ^^ 8) (take_bit 8 (drop_bit 24 c))"
    using shift [of 8 24 "drop_bit 8 c"] shift [of 16 16 "drop_bit 16 c"] shift [of 24 8 "drop_bit 24 c"]
    by (subst c) (simp only: bitstep_pow_xor, simp)
  then show ?thesis unfolding and_255_take_bit by (subst top) (simp only: table_take_bit_8)
qed

lemma STEP1_bytestep: "STEP1 (ucast l) b = ucast (bytestep l b)"
proof -
  have "unat ((ucast l AND 255 :: u64) XOR ucast b) = unat ((l AND 255) XOR ucast b)"
  proof -
    have "(ucast l AND 255 :: u64) XOR ucast b = ucast ((l AND 255) XOR ucast b)"
      by (rule bit_word_eqI) (auto simp: bit_simps bit_int_consts)
    then show ?thesis by (simp add: unat_ucast_up)
  qed
  moreover have "drop_bit 8 (ucast l :: u64) = ucast (drop_bit 8 l)"
    by (rule bit_word_eqI) (auto simp: bit_simps dest: bit_imp_le_length)
  moreover have "(ucast (x XOR y) :: u64) = ucast x XOR ucast y" for x y :: u32
    by (rule bit_word_eqI) (auto simp: bit_simps)
  ultimately show ?thesis by (simp add: STEP1_def bytestep_table Let_def)
qed

lemma foldl_STEP1: "foldl STEP1 (ucast l) p = ucast (foldl bytestep l p)"
  by (induction p arbitrary: l) (simp_all add: STEP1_bytestep)

lemma length_ge_8_cases:
  assumes "8 \<le> length p"
  obtains b0 b1 b2 b3 b4 b5 b6 b7 r where "p = b0 # b1 # b2 # b3 # b4 # b5 # b6 # b7 # r"
  using assms by (auto simp: numeral_eq_Suc Suc_le_length_iff)

lemma DefaultCRC32_bytestep:
  assumes "8 \<le> length p"
  shows "DefaultCRC32 (ucast l) p = (ucast (foldl bytestep l (take 8 p)), drop 8 p)"
proof -
  obtain b0 b1 b2 b3 b4 b5 b6 b7 r where p: "p = b0 # b1 # b2 # b3 # b4 # b5 # b6 # b7 # r"
    using length_ge_8_cases [OF assms] .
  have narrow: "(ucast (ucast x XOR ucast y :: u64) :: u32) = x XOR y" for x y :: u32
    by (rule bit_word_eqI) (auto simp: bit_simps)
  let ?l = "foldl bytestep l [b0, b1, b2, b3]"
  have "DefaultCRC32 (ucast l) p =
      (ucast ((bitstep ^^ 32) (?l XOR LE_LOAD32 (b4 # b5 # b6 # b7 # r))), r)"
    unfolding DefaultCRC32_def Let_def narrow bitstep_32_tables [symmetric]
    by (simp add: p bytestep_word [of l b0 b1 b2 b3 "b4 # b5 # b6 # b7 # r", simplified])
  also have "\<dots> = (ucast (foldl bytestep ?l [b4, b5, b6, b7]), r)"
    by (subst (2) bytestep_word [where r = r]) (rule refl)
  finally show ?thesis by (simp add: p)
qed

lemma foldl_take_drop: "foldl f (foldl f l (take n p)) (drop n p) = foldl f l p"
  by (metis append_take_drop_id foldl_append)

text \<open>Each loop moves the register over the bytes it consumes and leaves the rest.\<close>

definition consumes :: "u32 \<Rightarrow> slice \<Rightarrow> u64 \<times> slice \<Rightarrow> bool" where
  "consumes l p r \<longleftrightarrow>
     (\<exists>l'. fst r = ucast l' \<and> foldl bytestep l' (snd r) = foldl bytestep l p)"

lemma consumes_refl [intro]: "consumes l p (ucast l, p)"
  by (auto simp: consumes_def)

lemma consumes_take: "consumes (foldl bytestep l (take n p)) (drop n p) r \<Longrightarrow> consumes l p r"
  by (simp add: consumes_def foldl_take_drop)

lemma ExtendImpl_loop8_consumes: "consumes l p (ExtendImpl_loop8 (ucast l) p)"
proof (induction "length p" arbitrary: l p rule: less_induct)
  case less
  show ?case
  proof (cases "8 \<le> length p")
    case True
    then have "length (drop 8 p) < length p" by (simp add: diff_less)
    with True show ?thesis
      using less [of "drop 8 p" "foldl bytestep l (take 8 p)"]
      by (subst ExtendImpl_loop8.simps) (simp add: DefaultCRC32_bytestep consumes_take)
  qed (subst ExtendImpl_loop8.simps, auto)
qed

lemma ExtendImpl_loop16_consumes: "consumes l p (ExtendImpl_loop16 (ucast l) p)"
proof (induction "length p" arbitrary: l p rule: less_induct)
  case less
  show ?case
  proof (cases "16 \<le> length p")
    case True
    then have "length (drop 8 (drop 8 p)) < length p" by (simp add: diff_less)
    from less [OF this, of "foldl bytestep (foldl bytestep l (take 8 p)) (take 8 (drop 8 p))"]
    have "consumes l p (ExtendImpl_loop16
        (ucast (foldl bytestep (foldl bytestep l (take 8 p)) (take 8 (drop 8 p)))) (drop 8 (drop 8 p)))"
      by (intro consumes_take [of l 8 p] consumes_take [of _ 8 "drop 8 p"])
    with True show ?thesis
      by (subst ExtendImpl_loop16.simps) (simp add: DefaultCRC32_bytestep del: drop_drop)
  qed (subst ExtendImpl_loop16.simps, auto)
qed

lemma ExtendImpl_crc_bits: "ExtendImpl pval crc p = crc_bits crc p"
proof -
  have "0xffffffff = (- 1 :: u32)" by simp
  then have not: "x XOR 0xffffffff = NOT x" for x :: u32
    by (simp only:) simp
  have ones: "0xffffffff = (mask 32 :: u64)" by (simp add: mask_eq_exp_minus_1)
  have narrow: "(ucast (ucast x XOR 0xffffffff :: u64) :: u32) = NOT x" for x :: u32
    unfolding ones by (rule bit_word_eqI) (auto simp: bit_simps)
  let ?x = "(pval + 15) div 16 * 16 - pval"
  define r0 where "r0 = (if ?x \<le> length p then (foldl STEP1 (ucast (NOT crc)) (take ?x p), drop ?x p)
    else (ucast (NOT crc), p))"
  have "consumes (NOT crc) p r0"
    by (auto simp: r0_def foldl_STEP1 intro: consumes_take)
  then obtain l0 where l0: "fst r0 = ucast l0" "foldl bytestep l0 (snd r0) = foldl bytestep (NOT crc) p"
    by (auto simp: consumes_def)
  define r1 where "r1 = ExtendImpl_loop16 (fst r0) (snd r0)"
  obtain l1 where l1: "fst r1 = ucast l1" "foldl bytestep l1 (snd r1) = foldl bytestep (NOT crc) p"
    using ExtendImpl_loop16_consumes [of l0 "snd r0"] l0 by (auto simp: consumes_def r1_def)
  define r2 where "r2 = ExtendImpl_loop8 (fst r1) (snd r1)"
  obtain l2 where l2: "fst r2 = ucast l2" "foldl bytestep l2 (snd r2) = foldl bytestep (NOT crc) p"
    using ExtendImpl_loop8_consumes [of l1 "snd r1"] l1 by (auto simp: consumes_def r2_def)
  have "ExtendImpl pval crc p = ucast (foldl STEP1 (fst r2) (snd r2) XOR 0xffffffff)"
    by (simp add: ExtendImpl_def Let_def not r2_def r1_def r0_def case_prod_beta)
  also have "\<dots> = crc_bits crc p"
    by (simp add: l2 foldl_STEP1 narrow crc_bits_def)
  finally show ?thesis .
qed

section \<open>Multiplication in the field\<close>

primrec gf_sum :: "nat \<Rightarrow> u32 \<Rightarrow> u32 \<Rightarrow> u32" where
  "gf_sum 0 a b = 0"
| "gf_sum (Suc k) a b = (if bit b 31 then a else 0) XOR gf_sum k (bitstep a) (push_bit 1 b)"

lemma minus_and_one: "(0 - (x AND 1)) AND a = (if bit x 0 then a else (0 :: u32))"
proof -
  have "x AND 1 = of_bool (bit x 0)"
    by (rule bit_word_eqI) (auto simp: bit_simps)
  then show ?thesis by auto
qed

lemma gf_multiply_sw_1_eq:
  "i \<le> 32 \<Longrightarrow> gf_multiply_sw_1 i p a b crc32c_m = p XOR gf_sum (32 - i) a b"
proof (induction "32 - i" arbitrary: i p a b)
  case 0
  then show ?case by (subst gf_multiply_sw_1.simps) simp
next
  case (Suc k)
  then have i: "i < 32" "32 - i = Suc k" "32 - (i + 1) = k" by simp_all
  have "gf_multiply_sw_1 i p a b crc32c_m =
      gf_multiply_sw_1 (i + 1) (p XOR (if bit b 31 then a else 0)) (bitstep a) (push_bit 1 b) crc32c_m"
    using i(1) by (subst gf_multiply_sw_1.simps)
      (simp only: minus_and_one bitstep_def bit_drop_bit_eq comp_def, simp)
  also have "\<dots> = (p XOR (if bit b 31 then a else 0)) XOR gf_sum k (bitstep a) (push_bit 1 b)"
    using Suc.hyps(1) [of "i + 1"] i by simp
  finally show ?case by (simp only: i(2) gf_sum.simps xor.assoc)
qed

lemma gf_multiply_sw_eq: "gf_multiply_sw a b crc32c_m = gf_sum 32 a b"
  by (simp add: gf_multiply_sw_def gf_multiply_sw_1_eq)

lemma gf_sum_0_right [simp]: "gf_sum k a 0 = 0"
  by (induction k arbitrary: a) simp_all

lemma gf_sum_linear_left: "xor_linear (\<lambda>a. gf_sum k a b)"
  unfolding xor_linear_def
proof (induction k arbitrary: b)
  case (Suc k)
  then show ?case by (auto simp: xor_linearD [OF bitstep_linear] xor_ac)
qed simp

lemma gf_sum_linear_right: "xor_linear (gf_sum k a)"
  unfolding xor_linear_def
proof (induction k arbitrary: a)
  case (Suc k)
  then show ?case by (auto simp: bit_simps xor_ac)
qed simp

lemma gf_sum_basis: "31 - j < k \<Longrightarrow> j < 32 \<Longrightarrow> gf_sum k a (push_bit j 1) = (bitstep ^^ (31 - j)) a"
proof (induction k arbitrary: a j)
  case (Suc k)
  show ?case
  proof (cases "j = 31")
    case True
    have "push_bit 1 (push_bit j 1 :: u32) = 0" "bit (push_bit j 1 :: u32) 31"
      using True by simp_all
    then show ?thesis using True by (simp only: gf_sum.simps gf_sum_0_right) simp
  next
    case False
    with Suc.prems have j: "j < 31" "31 - j = Suc (31 - Suc j)" by simp_all
    have "\<not> bit (push_bit j 1 :: u32) 31" using j by (auto simp: bit_simps)
    then show ?thesis
      using Suc.IH [of "Suc j" "bitstep a"] Suc.prems j
      by (simp add: push_bit_push_bit funpow_swap1 mult.commute)
  qed
qed simp

text \<open>The field: multiplying by the \<open>n\<close>-th power of the generator is \<open>n\<close> bit steps.\<close>

definition gf_one :: u32 where
  "gf_one = push_bit 31 1"

lemma funpow_32: "(f ^^ 32) x = f ((f ^^ 31) x)"
  by (simp add: eval_nat_numeral)

lemma bitstep_gf_one: "n \<le> 31 \<Longrightarrow> (bitstep ^^ n) gf_one = push_bit (31 - n) 1"
  unfolding gf_one_def by (rule bitstep_basis) simp_all

lemma gf_sum_one_left: "gf_sum 32 gf_one b = b"
proof (rule linear_ext [OF gf_sum_linear_right])
  show "xor_linear (\<lambda>x. x)" by (simp add: xor_linear_def)
  show "gf_sum 32 gf_one (push_bit j 1) = push_bit j 1" if "j < 32" for j
    using that gf_sum_basis [of j 32 gf_one] bitstep_gf_one [of "31 - j"] by simp
qed

lemma bitstep_one: "bitstep 1 = crc32c_m"
  by (simp add: bitstep_def)

lemma gf_sum_bitstep_left: "gf_sum k ((bitstep ^^ n) a) b = (bitstep ^^ n) (gf_sum k a b)"
proof (induction k arbitrary: a b)
  case 0
  show ?case by (simp add: bitstep_pow_0)
next
  case (Suc k)
  show ?case
    using Suc [of "bitstep a"]
    by (simp add: bitstep_pow_xor bitstep_pow_0 funpow_swap1)
qed

lemma crc32c_m_power: "crc32c_m = (bitstep ^^ 32) gf_one"
proof -
  have "(bitstep ^^ 31) gf_one = 1" using bitstep_gf_one [of 31] by simp
  then show ?thesis by (simp only: funpow_32 bitstep_one)
qed

lemma gf_sum_m: "gf_sum 32 a crc32c_m = (bitstep ^^ 32) a"
proof (rule linear_ext [OF gf_sum_linear_left funpow_linear [OF bitstep_linear]])
  fix j :: nat
  assume j: "j < 32"
  define n where "n = 31 - j"
  have b: "push_bit j 1 = (bitstep ^^ n) gf_one"
    using j bitstep_gf_one [of n] by (simp add: n_def)
  have "(bitstep ^^ n) ((bitstep ^^ 32) gf_one) = (bitstep ^^ 32) ((bitstep ^^ n) gf_one)"
    by (simp only: comp_apply [of "bitstep ^^ _" "bitstep ^^ _", symmetric] funpow_add [symmetric]
        add.commute)
  then show "gf_sum 32 (push_bit j 1) crc32c_m = (bitstep ^^ 32) (push_bit j 1)"
    by (simp only: b gf_sum_bitstep_left gf_sum_one_left crc32c_m_power)
qed

lemma gf_sum_bitstep_right: "gf_sum 32 a (bitstep b) = bitstep (gf_sum 32 a b)"
proof (rule linear_ext [of "\<lambda>b. gf_sum 32 a (bitstep b)" "\<lambda>b. bitstep (gf_sum 32 a b)"])
  show "xor_linear (\<lambda>b. gf_sum 32 a (bitstep b))" "xor_linear (\<lambda>b. bitstep (gf_sum 32 a b))"
    using gf_sum_linear_right [of 32 a] bitstep_linear by (simp_all add: xor_linear_def)
  fix j :: nat
  assume j: "j < 32"
  show "gf_sum 32 a (bitstep (push_bit j 1)) = bitstep (gf_sum 32 a (push_bit j 1))"
  proof (cases j)
    case 0
    have "push_bit j 1 = (1 :: u32)" "gf_sum 32 a 1 = (bitstep ^^ 31) a"
      using 0 gf_sum_basis [of 0 32 a] by simp_all
    then show ?thesis by (simp only: bitstep_one gf_sum_m funpow_32)
  next
    case (Suc i)
    have "bitstep (push_bit j 1) = push_bit i 1" using bitstep_basis [of 1 j] j Suc by simp
    moreover have "31 - i = Suc (31 - j)" using Suc j by simp
    ultimately show ?thesis using gf_sum_basis [of i 32 a] gf_sum_basis [of j 32 a] Suc j by simp
  qed
qed

lemma gf_sum_power: "gf_sum 32 a ((bitstep ^^ n) gf_one) = (bitstep ^^ n) a"
proof (induction n)
  case 0
  show ?case using gf_sum_basis [of 31 32 a] unfolding gf_one_def by (simp only: funpow_0) simp
next
  case (Suc n)
  then show ?case by (simp only: funpow.simps comp_apply gf_sum_bitstep_right)
qed

lemma gf_powers_memo_eq: "gf_powers_memo i crc32c_m = (bitstep ^^ (32 * 2 ^ i)) gf_one"
proof (induction i)
  case 0
  show ?case using crc32c_m_power by simp
next
  case (Suc i)
  have "gf_powers_memo (Suc i) crc32c_m =
      (bitstep ^^ (32 * 2 ^ i)) ((bitstep ^^ (32 * 2 ^ i)) gf_one)"
    by (simp only: gf_powers_memo.simps gf_square_sw_def gf_multiply_sw_eq Suc gf_sum_power)
  also have "\<dots> = (bitstep ^^ (32 * 2 ^ i + 32 * 2 ^ i)) gf_one"
    by (simp only: funpow_add comp_apply)
  also have "32 * 2 ^ i + 32 * 2 ^ i = (32 * 2 ^ Suc i :: nat)" by simp
  finally show ?case .
qed

section \<open>Appending zeroes and combining\<close>

lemma CountTrailingZeroBits_split:
  assumes "v \<noteq> 0" and "r = CountTrailingZeroBits v"
  shows "unat v = 2 ^ r * (2 * unat (drop_bit 1 (drop_bit r v)) + 1)" and "r < 64"
proof -
  obtain i where "bit v i" "i < 64" using assms(1) bit_imp_le_length by (fastforce simp: bit_eq_iff)
  then have "find (bit v) [0..<64] \<noteq> None" by (auto simp: find_None_iff)
  then obtain q where "find (bit v) [0..<64] = Some q" by auto
  moreover from this have "q < 64" "bit v q" "\<And>j. j < q \<Longrightarrow> \<not> bit v j"
    by (auto simp: find_Some_iff)
  ultimately have q: "r = q" "q < 64" "bit v q" "\<And>j. j < q \<Longrightarrow> \<not> bit v j"
    using assms(2) by (simp_all add: CountTrailingZeroBits_def)
  show "r < 64" using q by simp
  have "take_bit r v = 0" using q by (intro bit_word_eqI) (auto simp: bit_simps)
  then have low: "unat v mod 2 ^ r = 0"
    by (metis take_bit_nat_def unsigned_0 unsigned_take_bit_eq)
  have d: "unat (drop_bit n v) = unat v div 2 ^ n" for n
    by (subst unat_drop_bit_eq) (simp add: drop_bit_eq_div)
  have "odd (unat v div 2 ^ r)"
  proof -
    have "bit (unat v) r" using q by (simp add: bit_unsigned_iff)
    then show ?thesis by (simp add: bit_iff_odd)
  qed
  then have "unat v div 2 ^ r = 2 * (unat v div 2 ^ r div 2) + 1"
    by (simp add: odd_two_times_div_two_succ)
  moreover have "unat v = 2 ^ r * (unat v div 2 ^ r)" using low by auto
  moreover have "unat (drop_bit 1 (drop_bit r v)) = unat v div 2 ^ r div 2"
    using d [of "Suc r"] div_mult2_eq [of "unat v" "2 ^ r" 2]
    by (simp add: drop_bit_drop_bit mult.commute)
  ultimately show "unat v = 2 ^ r * (2 * unat (drop_bit 1 (drop_bit r v)) + 1)" by metis
qed

lemma funpow_funpow: "(f ^^ n) ((f ^^ m) x) = (f ^^ (n + m)) x"
  by (simp add: funpow_add)

lemma Crc32AppendZeroes_loop_eq:
  "unat len * 2 ^ i < 2 ^ 62 \<Longrightarrow>
   Crc32AppendZeroes_loop crc len i crc32c_m crc32c_powers = (bitstep ^^ (32 * 2 ^ i * unat len)) crc"
proof (induction "unat len" arbitrary: len i crc rule: less_induct)
  case less
  show ?case
  proof (cases "len = 0")
    case True
    then show ?thesis by (subst Crc32AppendZeroes_loop.simps) simp
  next
    case False
    define r where "r = CountTrailingZeroBits len"
    define w where "w = drop_bit 1 (drop_bit r len)"
    have v: "unat len = 2 ^ r * (2 * unat w + 1)"
      unfolding w_def by (rule CountTrailingZeroBits_split(1) [OF False r_def])
    have bound: "unat w * 2 ^ (i + r + 1) + 2 ^ (i + r) = unat len * 2 ^ i"
      unfolding v by (simp only: power_add power_one_right distrib_left distrib_right mult_1_right
          mult_ac)
    then have "2 ^ (i + r) < (2 :: nat) ^ 62" "unat w * 2 ^ (i + r + 1) < 2 ^ 62"
      using less.prems by linarith+
    then have idx: "i + r < 62" by (intro power_less_imp_less_exp [of "2 :: nat" "i + r" 62]) simp_all
    have "unat w < unat len" using unat_drop_bit_less [OF False, of "Suc r"]
      by (simp add: w_def drop_bit_drop_bit)
    note IH = less.hyps [OF this \<open>unat w * 2 ^ (i + r + 1) < 2 ^ 62\<close>]
    have "crc32c_powers ! (i + r) = gf_powers_memo (i + r) crc32c_m"
      using idx unfolding crc32c_powers_def by (subst nth_map) simp_all
    then have mul: "gf_multiply_sw crc (crc32c_powers ! (i + r)) crc32c_m =
        (bitstep ^^ (32 * 2 ^ (i + r))) crc"
      by (simp only: gf_powers_memo_eq gf_multiply_sw_eq gf_sum_power)
    have "Crc32AppendZeroes_loop crc len i crc32c_m crc32c_powers =
        (bitstep ^^ (32 * 2 ^ (i + r + 1) * unat w + 32 * 2 ^ (i + r))) crc"
      using False by (subst Crc32AppendZeroes_loop.simps)
        (simp only: Let_def r_def [symmetric] w_def [symmetric] mul IH funpow_funpow if_False)
    also have "32 * 2 ^ (i + r + 1) * unat w + 32 * 2 ^ (i + r) =
        32 * (unat w * 2 ^ (i + r + 1) + 2 ^ (i + r))"
      by (simp only: distrib_left mult_ac)
    also have "\<dots> = 32 * 2 ^ i * unat len" by (simp only: bound mult_ac)
    finally show ?thesis .
  qed
qed

lemma foldl_bytestep_linear:
  "foldl bytestep (x XOR y) p = (bitstep ^^ (8 * length p)) x XOR foldl bytestep y p"
proof (induction p arbitrary: x y)
  case (Cons b p)
  have "bytestep (x XOR y) b = (bitstep ^^ 8) x XOR bytestep y b"
    by (simp add: bytestep_def bitstep_pow_xor xor.assoc)
  then show ?case using Cons by (simp add: funpow_funpow add.commute)
qed simp

lemma foldl_bytestep_zeros: "foldl bytestep x (replicate n 0) = (bitstep ^^ (8 * n)) x"
  by (induction n arbitrary: x) (simp_all add: bytestep_def funpow_funpow add.commute)

lemma Crc32cCombine_eq:
  assumes "n < 2 ^ 64"
  shows "Crc32cCombine (NOT p1) (NOT p2) n = NOT ((bitstep ^^ (8 * n)) (p1 XOR -1) XOR p2)"
proof -
  have fit: "unat (of_nat (n div 4) :: u64) = n div 4"
    using assms by (simp add: unat_of_nat)
  have z: "Crc32AppendZeroes x (n div 4) crc32c_m crc32c_powers = (bitstep ^^ (32 * (n div 4))) x" for x
    using assms by (simp add: Crc32AppendZeroes_def Crc32AppendZeroes_loop_eq fit)
  have pe: "PureExtend x (replicate k 0) = (bitstep ^^ (8 * k)) x" for x k
    by (simp add: PureExtend_def InvertedToPure_def PureToInverted_def Extend_def
        ExtendImpl_crc_bits crc_bits_def foldl_bytestep_zeros)
  have "32 * (n div 4) + 8 * (n mod 4) = 8 * n" by presburger
  then show ?thesis
    by (auto simp: Crc32cCombine_def Let_def z pe InvertedToPure_def PureToInverted_def funpow_funpow)
qed

text \<open>
  The algebra the writers rely on: extending a checksum and combining two checksums both give
  the checksum of the concatenation.
\<close>

lemma Extend_crc_bits: "Extend crc p = crc_bits crc p"
  by (simp add: Extend_def ExtendImpl_crc_bits)

lemma Extend_Value: "Extend (Value p) q = Value (p @ q)"
  by (simp add: Value_def Extend_crc_bits crc_bits_def)

lemma Crc32cCombine_Value:
  assumes "length q < 2 ^ 64"
  shows "Crc32cCombine (Value p) (Value q) (length q) = Value (p @ q)"
proof -
  let ?p = "foldl bytestep (- 1) p"
  have "foldl bytestep ?p q = foldl bytestep ((?p XOR - 1) XOR - 1) q" by (simp add: xor.assoc)
  also have "\<dots> = (bitstep ^^ (8 * length q)) (?p XOR - 1) XOR foldl bytestep (- 1) q"
    by (rule foldl_bytestep_linear)
  finally show ?thesis
    using Crc32cCombine_eq [OF assms, of ?p "foldl bytestep (- 1) q"]
    by (simp add: Value_def Extend_crc_bits crc_bits_def)
qed

lemma Unmask_Mask [simp]: "Unmask (Mask crc) = crc"
proof (rule bit_word_eqI)
  show "bit (Unmask (Mask crc)) n = bit crc n" if "n < LENGTH(32)" for n
    using that unfolding Unmask_def Mask_def Let_def
    by (cases "n < 15") (auto simp: bit_simps)
qed

section \<open>The checksum contracts\<close>

text \<open>
  C15: The table-driven loop computes the bit-by-bit CRC-32C whatever the address of the buffer,
  so extending a checksum over a second buffer is the checksum of both together; and
  unmasking a masked checksum gives it back.
\<close>

theorem ExtendImpl_is_crc32c:
  "ExtendImpl pval crc p = crc_bits crc p \<and>
   ExtendImpl pval' (ExtendImpl pval crc p) q = ExtendImpl pval'' crc (p @ q) \<and>
   Unmask (Mask crc) = crc"
  by (simp add: ExtendImpl_crc_bits crc_bits_def)

text \<open>
  C14: \<open>Crc32cCombine\<close> of the checksums of two strings is the checksum of their
  concatenation: appending zeroes by multiplication with precomputed powers is the same as
  running the register over that many zero bytes.
\<close>

theorem Crc32cCombine_is_concatenation:
  assumes "length q < 2 ^ 64"
  shows "Crc32cCombine (Value p) (Value q) (length q) = Value (p @ q)"
  using assms by (rule Crc32cCombine_Value)

theorem Crc32cCombine_is_concatenation_witness:
  "Crc32cCombine (Value [49, 50]) (Value [51, 52, 53]) 3 = Value [49, 50, 51, 52, 53]"
  using Crc32cCombine_is_concatenation [of "[51, 52, 53]" "[49, 50]"]
  by (simp add: numeral_3_eq_3)

end
