(* ===== verification/Log_Format.thy ===== *)
theory Log_Format
  imports Dbformat Crc32c
begin

text \<open>
  The write-ahead log format (\<open>db/log_format.h\<close>) and the records about the log itself: the
  compression type record (\<open>util/compression.h\<close>) and the timestamp size record
  (\<open>util/udt_util.h\<close>). A log is a sequence of blocks of 32768 bytes; a logical record is cut
  into physical records that do not cross a block boundary.
\<close>

unbundle bit_operations_syntax

type_synonym record_type = byte

definition kZeroType :: record_type where "kZeroType = 0"
definition kFullType :: record_type where "kFullType = 1"
definition kFirstType :: record_type where "kFirstType = 2"
definition kMiddleType :: record_type where "kMiddleType = 3"
definition kLastType :: record_type where "kLastType = 4"
definition kRecyclableFullType :: record_type where "kRecyclableFullType = 5"
definition kRecyclableFirstType :: record_type where "kRecyclableFirstType = 6"
definition kRecyclableMiddleType :: record_type where "kRecyclableMiddleType = 7"
definition kRecyclableLastType :: record_type where "kRecyclableLastType = 8"
definition kSetCompressionType :: record_type where "kSetCompressionType = 9"
definition kUserDefinedTimestampSizeType :: record_type where "kUserDefinedTimestampSizeType = 10"
definition kRecyclableUserDefinedTimestampSizeType :: record_type where
  "kRecyclableUserDefinedTimestampSizeType = 11"
definition kPredecessorWALInfoType :: record_type where "kPredecessorWALInfoType = 130"
definition kRecyclePredecessorWALInfoType :: record_type where
  "kRecyclePredecessorWALInfoType = 131"
definition kRecordTypeSafeIgnoreMask :: byte where "kRecordTypeSafeIgnoreMask = push_bit 7 1"
definition kMaxRecordType :: record_type where "kMaxRecordType = kRecyclePredecessorWALInfoType"

lemmas record_type_defs =
  kZeroType_def kFullType_def kFirstType_def kMiddleType_def kLastType_def
  kRecyclableFullType_def kRecyclableFirstType_def kRecyclableMiddleType_def
  kRecyclableLastType_def kSetCompressionType_def kUserDefinedTimestampSizeType_def
  kRecyclableUserDefinedTimestampSizeType_def kPredecessorWALInfoType_def
  kRecyclePredecessorWALInfoType_def kRecordTypeSafeIgnoreMask_def kMaxRecordType_def

definition kBlockSize :: nat where "kBlockSize = 32768"
definition kHeaderSize :: nat where "kHeaderSize = 4 + 2 + 1"
definition kRecyclableHeaderSize :: nat where "kRecyclableHeaderSize = 4 + 2 + 1 + 4"

lemmas log_size_defs = kBlockSize_def kHeaderSize_def kRecyclableHeaderSize_def

section \<open>Compression type records\<close>

text \<open>
  A compression type is its byte. The build links no streaming compressor, so only the absence
  of compression is supported for streams.
\<close>

definition kNoCompression :: byte where "kNoCompression = 0x00"

definition StreamingCompressionTypeSupported :: "byte \<Rightarrow> bool" where
  "StreamingCompressionTypeSupported compression_type \<longleftrightarrow> compression_type = kNoCompression"

definition CompressionTypeRecord_EncodeTo :: "slice \<Rightarrow> byte \<Rightarrow> slice" where
  "CompressionTypeRecord_EncodeTo dst compression_type = PutFixed32 dst (ucast compression_type)"

definition CompressionTypeRecord_DecodeFrom :: "byte \<Rightarrow> slice \<Rightarrow> status \<times> byte \<times> slice" where
  "CompressionTypeRecord_DecodeFrom old src =
     (let class_name = str ''CompressionTypeRecord'' in
      case GetFixed32 src of
        (None, src) \<Rightarrow>
          (Corruption class_name (str ''Error decoding WAL compression type''), old, src)
      | (Some val, src) \<Rightarrow>
          let compression_type = ucast val in
          if \<not> StreamingCompressionTypeSupported compression_type then
            (Corruption class_name (str ''WAL compression type not supported''), old, src)
          else (OK, compression_type, src))"

section \<open>Timestamp size records\<close>

type_synonym ts_sizes = "(u32 \<times> nat) list"

definition kSizePerColumnFamily :: nat where "kSizePerColumnFamily = 4 + 2"

definition TimestampSizeRecord_EncodeTo :: "slice \<Rightarrow> ts_sizes \<Rightarrow> slice" where
  "TimestampSizeRecord_EncodeTo dst cf_to_ts_sz =
     foldl (\<lambda>dst (cf_id, ts_sz). PutFixed16 (PutFixed32 dst cf_id) (of_nat ts_sz)) dst cf_to_ts_sz"

fun TimestampSizeRecord_loop :: "nat \<Rightarrow> ts_sizes \<Rightarrow> slice \<Rightarrow> status \<times> ts_sizes \<times> slice" where
  "TimestampSizeRecord_loop 0 acc src = (OK, acc, src)"
| "TimestampSizeRecord_loop (Suc n) acc src =
     (let err = Corruption (str ''Error decoding user-defined timestamp size record entry'') [] in
      case GetFixed32 src of
        (None, src) \<Rightarrow> (err, acc, src)
      | (Some cf_id, src) \<Rightarrow>
          (case GetFixed16 src of
             (None, src) \<Rightarrow> (err, acc, src)
           | (Some ts_sz, src) \<Rightarrow> TimestampSizeRecord_loop n (acc @ [(cf_id, unat ts_sz)]) src))"

definition TimestampSizeRecord_DecodeFrom :: "ts_sizes \<Rightarrow> slice \<Rightarrow> status \<times> ts_sizes \<times> slice" where
  "TimestampSizeRecord_DecodeFrom acc src =
     (let total_size = length src in
      if total_size mod kSizePerColumnFamily \<noteq> 0 then
        (Corruption (str ''User-defined timestamp size record length: '' @ to_string total_size @
           str '' is not a multiple of '' @ to_string kSizePerColumnFamily @ [10]) [], acc, src)
      else TimestampSizeRecord_loop (total_size div kSizePerColumnFamily) acc src)"

lemma TimestampSizeRecord_EncodeTo_eq:
  "TimestampSizeRecord_EncodeTo dst ts =
     dst @ concat (map (\<lambda>(cf, sz). EncodeFixed32 cf @ EncodeFixed16 (of_nat sz)) ts)"
  unfolding TimestampSizeRecord_EncodeTo_def
  by (induction ts arbitrary: dst) (auto simp: PutFixed16_def PutFixed32_def)

lemma TimestampSizeRecord_loop_Encode:
  assumes "\<forall>(cf, sz)\<in>set ts. sz < 2 ^ 16"
  shows "TimestampSizeRecord_loop (length ts) acc
      (concat (map (\<lambda>(cf, sz). EncodeFixed32 cf @ EncodeFixed16 (of_nat sz)) ts) @ r) = (OK, acc @ ts, r)"
  using assms
proof (induction ts arbitrary: acc)
  case (Cons t ts)
  obtain cf sz where t: "t = (cf, sz)" by force
  have "unat (of_nat sz :: u16) = sz" using Cons.prems t by (simp add: unat_of_nat)
  then show ?case using Cons t by (simp add: fixed32.dec_enc fixed16.dec_enc Let_def)
qed simp

lemma TimestampSizeRecord_round_trip_aux:
  assumes "\<forall>(cf, sz)\<in>set ts. sz < 2 ^ 16"
  shows "TimestampSizeRecord_DecodeFrom [] (TimestampSizeRecord_EncodeTo [] ts) = (OK, ts, [])"
proof -
  have "length (concat (map (\<lambda>(cf, sz). EncodeFixed32 cf @ EncodeFixed16 (of_nat sz)) ts)) = 6 * length ts"
    by (induction ts) auto
  then show ?thesis
    using TimestampSizeRecord_loop_Encode [OF assms, of "[]" "[]"]
    by (simp add: TimestampSizeRecord_DecodeFrom_def TimestampSizeRecord_EncodeTo_eq
        kSizePerColumnFamily_def)
qed

end
