(* ===== verification/Log_Writer.thy ===== *)
theory Log_Writer
  imports Log_Format
begin

text \<open>
  The log writer (\<open>db/log_writer.cc\<close>). The file it appends to is an explicit byte string with a
  script of outcomes: an operation takes the next outcome, and one that fails leaves a prefix
  of its data and the error flag, after which the file refuses to append. The status that
  \<open>WritableFileWriter::PrepareIOOptions\<close> computes from the write options is an argument
  (\<open>prep\<close>). The build has no streaming compressor, so \<open>compress_\<close> is always null.
\<close>

unbundle bit_operations_syntax

section \<open>The destination file\<close>

record writable_file =
  wf_data :: slice
  wf_seen_error :: bool
  wf_outcomes :: "(status \<times> nat) list"

definition dest_Append :: "writable_file \<Rightarrow> slice \<Rightarrow> status \<times> writable_file" where
  "dest_Append f data =
     (if wf_seen_error f then (IOError (str ''Writer has previous error.'') [], f)
      else case wf_outcomes f of
        [] \<Rightarrow> (OK, f\<lparr>wf_data := wf_data f @ data\<rparr>)
      | (s, n) # os \<Rightarrow>
          if ok s then (OK, f\<lparr>wf_data := wf_data f @ data, wf_outcomes := os\<rparr>)
          else (s, f\<lparr>wf_data := wf_data f @ take n data, wf_seen_error := True, wf_outcomes := os\<rparr>))"

definition dest_Flush :: "writable_file \<Rightarrow> status \<times> writable_file" where
  "dest_Flush f = dest_Append f []"

section \<open>The writer\<close>

record log_writer =
  lw_dest :: writable_file
  block_offset :: nat
  lw_log_number :: u64
  recycle_log_files :: bool
  manual_flush :: bool
  lw_compression_type :: byte
  lw_track_and_verify_wals :: bool
  last_seqno_recorded :: u64
  lw_recorded_cf_to_ts_sz :: "u32 \<rightharpoonup> nat"

definition Writer :: "writable_file \<Rightarrow> u64 \<Rightarrow> bool \<Rightarrow> bool \<Rightarrow> byte \<Rightarrow> bool \<Rightarrow> log_writer" where
  "Writer dest log_number recycle manual compression_type track_and_verify_wals =
     \<lparr>lw_dest = dest, block_offset = 0, lw_log_number = log_number, recycle_log_files = recycle,
      manual_flush = manual, lw_compression_type = compression_type,
      lw_track_and_verify_wals = track_and_verify_wals, last_seqno_recorded = 0,
      lw_recorded_cf_to_ts_sz = Map.empty\<rparr>"

text \<open>\<open>header_size_\<close> is fixed by the constructor.\<close>

definition header_size :: "log_writer \<Rightarrow> nat" where
  "header_size w = (if recycle_log_files w then kRecyclableHeaderSize else kHeaderSize)"

definition MaybeHandleSeenFileWriterError :: "log_writer \<Rightarrow> status" where
  "MaybeHandleSeenFileWriterError w =
     (if wf_seen_error (lw_dest w) then IOError (str ''Seen error. Skip writing buffer.'') []
      else OK)"

definition WriteBuffer :: "status \<Rightarrow> log_writer \<Rightarrow> status \<times> log_writer" where
  "WriteBuffer prep w =
     (let s = MaybeHandleSeenFileWriterError w in
      if \<not> ok s then (s, w)
      else if \<not> ok prep then (prep, w)
      else let (s, f) = dest_Flush (lw_dest w) in (s, w\<lparr>lw_dest := f\<rparr>))"

definition legacy_type :: "record_type \<Rightarrow> bool" where
  "legacy_type t \<longleftrightarrow>
     t < kRecyclableFullType \<or> t = kSetCompressionType \<or> t = kPredecessorWALInfoType \<or>
     t = kUserDefinedTimestampSizeType"

text \<open>The entry of \<open>type_crc_\<close> for a type is the checksum of its one byte.\<close>

definition EmitPhysicalRecord ::
    "status \<Rightarrow> log_writer \<Rightarrow> record_type \<Rightarrow> slice \<Rightarrow> status \<times> log_writer" where
  "EmitPhysicalRecord prep w t payload =
     (let n = length payload;
          len_type = [of_nat n, of_nat (n div 256), t];
          crc = Value [t];
          (hsize, crc, log_bytes) =
            (if legacy_type t then (kHeaderSize, crc, [])
             else
               let log_bytes = EncodeFixed32 (ucast (lw_log_number w))
               in (kRecyclableHeaderSize, Extend crc log_bytes, log_bytes));
          payload_crc = Value payload;
          crc = Crc32cCombine crc payload_crc n;
          crc = Mask crc;
          buf = EncodeFixed32 crc @ len_type @ log_bytes;
          (s, f) = (if ok prep then dest_Append (lw_dest w) buf else (prep, lw_dest w));
          (s, f) = (if ok s then dest_Append f payload else (s, f))
      in (s, w\<lparr>lw_dest := f, block_offset := block_offset w + (hsize + n)\<rparr>))"

section \<open>Adding a record\<close>

definition record_type_of :: "log_writer \<Rightarrow> bool \<Rightarrow> bool \<Rightarrow> record_type" where
  "record_type_of w is_begin is_end =
     (if is_begin \<and> is_end then (if recycle_log_files w then kRecyclableFullType else kFullType)
      else if is_begin then (if recycle_log_files w then kRecyclableFirstType else kFirstType)
      else if is_end then (if recycle_log_files w then kRecyclableLastType else kLastType)
      else (if recycle_log_files w then kRecyclableMiddleType else kMiddleType))"

text \<open>
  The part of the loop body before the fragment is emitted: a block with no room for a header
  is filled with zeroes. None is a failed append.
\<close>

definition switch_block :: "log_writer \<Rightarrow> status \<times> log_writer" where
  "switch_block w =
     (let leftover = kBlockSize - block_offset w in
      if leftover < header_size w then
        let (s, f) =
              (if leftover > 0 then dest_Append (lw_dest w) (replicate leftover 0)
               else (OK, lw_dest w))
        in if \<not> ok s then (s, w\<lparr>lw_dest := f\<rparr>)
           else (s, w\<lparr>lw_dest := f, block_offset := 0\<rparr>)
      else (OK, w))"

lemma switch_block_simps [simp]:
  "recycle_log_files (snd (switch_block w)) = recycle_log_files w"
  "header_size (snd (switch_block w)) = header_size w"
  "lw_log_number (snd (switch_block w)) = lw_log_number w"
  by (auto simp: switch_block_def header_size_def Let_def split: prod.splits)

lemma header_size_bounds: "7 \<le> header_size w" "header_size w \<le> 11"
  by (simp_all add: header_size_def log_size_defs)

lemma switch_block_offset:
  assumes "ok (fst (switch_block w))"
  shows "block_offset (snd (switch_block w)) + header_size w \<le> kBlockSize"
  using assms header_size_bounds [of w]
  by (auto simp: switch_block_def Let_def kBlockSize_def split: prod.splits if_splits)

lemma EmitPhysicalRecord_simps [simp]:
  "recycle_log_files (snd (EmitPhysicalRecord p w t d)) = recycle_log_files w"
  "header_size (snd (EmitPhysicalRecord p w t d)) = header_size w"
  "lw_log_number (snd (EmitPhysicalRecord p w t d)) = lw_log_number w"
  "block_offset (snd (EmitPhysicalRecord p w t d)) =
     block_offset w + (if legacy_type t then kHeaderSize else kRecyclableHeaderSize) + length d"
  by (auto simp: EmitPhysicalRecord_def Let_def header_size_def split: prod.splits)

lemma legacy_record_type_of: "legacy_type (record_type_of w b e) \<longleftrightarrow> \<not> recycle_log_files w"
  by (auto simp: legacy_type_def record_type_of_def record_type_defs)

function AddRecord_loop :: "status \<Rightarrow> log_writer \<Rightarrow> slice \<Rightarrow> bool \<Rightarrow> status \<times> log_writer" where
  "AddRecord_loop prep w ptr is_begin =
     (case switch_block w of (s, w) \<Rightarrow>
        if \<not> ok s then (s, w)
        else
          let avail = kBlockSize - block_offset w - header_size w;
              left = length ptr;
              fragment_length = (if left < avail then left else avail);
              is_end = (left = fragment_length);
              rtype = record_type_of w is_begin is_end
          in case EmitPhysicalRecord prep w rtype (take fragment_length ptr) of (s, w) \<Rightarrow>
               let ptr = drop fragment_length ptr in
               if ok s \<and> length ptr > 0 then AddRecord_loop prep w ptr False else (s, w))"
  by pat_completeness auto
termination
proof (relation "measures [\<lambda>(p, w, ptr, b). length ptr,
    \<lambda>(p, w, ptr, b). if block_offset w + header_size w = kBlockSize then 1 else 0]", goal_cases)
  case 1
  show ?case by simp
next
  case (2 prep w ptr is_begin s w1 avail left fragment_length is_end rtype s2 w2 ptr')
  have w1: "w1 = snd (switch_block w)" "ok (fst (switch_block w))"
    using 2(1,2) by (simp_all flip: 2(1))
  have w2: "block_offset w2 = block_offset w1 + header_size w1 + fragment_length"
    if "fragment_length \<le> length ptr"
    using that arg_cong [OF 2(8), of "\<lambda>x. block_offset (snd x)"] 2(7)
    by (simp add: legacy_record_type_of header_size_def min_absorb2)
  have h2: "header_size w2 = header_size w1"
    using arg_cong [OF 2(8), of "\<lambda>x. header_size (snd x)"] by simp
  have frag: "fragment_length = avail" "avail < length ptr"
    using 2(4,5,9,10) by (auto split: if_splits)
  show ?case
  proof (cases "avail = 0")
    case False
    then have "length ptr - avail < length ptr" using frag by linarith
    then show ?thesis using 2(9) frag by simp
  next
    case True
    have bo: "block_offset w1 + header_size w1 = kBlockSize"
      using True 2(3) switch_block_offset [OF w1(2)] w1(1) by simp
    have same: "w1 = w"
      using bo w1 header_size_bounds [of w1]
      by (auto simp: switch_block_def Let_def kBlockSize_def split: prod.splits if_splits)
    have "block_offset w2 + header_size w2 \<noteq> kBlockSize"
      using w2 h2 bo True frag header_size_bounds [of w1] by simp
    then show ?thesis using 2(9) True frag bo same by simp
  qed
qed

declare AddRecord_loop.simps [simp del]

definition AddRecord :: "status \<Rightarrow> log_writer \<Rightarrow> slice \<Rightarrow> u64 \<Rightarrow> status \<times> log_writer" where
  "AddRecord prep w contents seqno =
     (let s = MaybeHandleSeenFileWriterError w in
      if \<not> ok s then (s, w)
      else
        let (s, w) = (if ok prep then AddRecord_loop prep w contents True else (prep, w));
            (s, w) =
              (if ok s \<and> \<not> manual_flush w then
                 let (s, f) = dest_Flush (lw_dest w) in (s, w\<lparr>lw_dest := f\<rparr>)
               else (s, w))
        in if ok s then (s, w\<lparr>last_seqno_recorded := max (last_seqno_recorded w) seqno\<rparr>)
           else (s, w))"

section \<open>Records about the log\<close>

definition MaybeSwitchToNewBlock :: "status \<Rightarrow> log_writer \<Rightarrow> slice \<Rightarrow> status \<times> log_writer" where
  "MaybeSwitchToNewBlock prep w content_to_write =
     (let leftover = kBlockSize - block_offset w in
      if leftover < header_size w + length content_to_write then
        if \<not> ok prep then (prep, w)
        else
          let trailer = replicate leftover 0; (s, f) = dest_Append (lw_dest w) trailer
          in if \<not> ok s then (s, w\<lparr>lw_dest := f\<rparr>)
             else (s, w\<lparr>lw_dest := f, block_offset := 0\<rparr>)
      else (OK, w))"

text \<open>
  A null compressor follows the record: the build has none for the stream, and the writer goes
  on writing plain records.
\<close>

definition AddCompressionTypeRecord :: "status \<Rightarrow> log_writer \<Rightarrow> status \<times> log_writer" where
  "AddCompressionTypeRecord prep w =
     (if lw_compression_type w = kNoCompression then (OK, w)
      else
        let s = MaybeHandleSeenFileWriterError w in
        if \<not> ok s then (s, w)
        else
          let encode = CompressionTypeRecord_EncodeTo [] (lw_compression_type w);
              (s, w) = EmitPhysicalRecord prep w kSetCompressionType encode
          in if ok s then
               (if \<not> manual_flush w then
                  if ok prep then
                    let (s, f) = dest_Flush (lw_dest w) in (s, w\<lparr>lw_dest := f\<rparr>)
                  else (prep, w)
                else (s, w))
             else (s, w\<lparr>lw_compression_type := kNoCompression\<rparr>))"

definition MaybeAddPredecessorWALInfo ::
    "status \<Rightarrow> log_writer \<Rightarrow> PredecessorWALInfo \<Rightarrow> status \<times> log_writer" where
  "MaybeAddPredecessorWALInfo prep w info =
     (let s = MaybeHandleSeenFileWriterError w in
      if \<not> ok s then (s, w)
      else if \<not> lw_track_and_verify_wals w \<or> \<not> wal_initialized info then (OK, w)
      else
        let encode = PredecessorWALInfo_EncodeTo [] info;
            (s, w) = MaybeSwitchToNewBlock prep w encode
        in if \<not> ok s then (s, w)
           else
             let rtype = (if recycle_log_files w then kRecyclePredecessorWALInfoType
                         else kPredecessorWALInfoType);
                 (s, w) = EmitPhysicalRecord prep w rtype encode
             in if \<not> ok s then (s, w)
                else if \<not> manual_flush w then
                  (if ok prep then let (s, f) = dest_Flush (lw_dest w) in (s, w\<lparr>lw_dest := f\<rparr>)
                   else (prep, w))
                else (s, w))"

text \<open>The map of the caller is traversed in some order; it is an association list here.\<close>

definition ts_sz_to_record :: "(u32 \<rightharpoonup> nat) \<Rightarrow> ts_sizes \<Rightarrow> ts_sizes \<times> (u32 \<rightharpoonup> nat)" where
  "ts_sz_to_record recorded cf_to_ts_sz =
     foldl (\<lambda>(ts, recorded) (cf_id, ts_sz).
              if recorded cf_id \<noteq> None then (ts, recorded)
              else if ts_sz \<noteq> 0 then (ts @ [(cf_id, ts_sz)], recorded(cf_id \<mapsto> ts_sz))
              else (ts, recorded)) ([], recorded) cf_to_ts_sz"

definition MaybeAddUserDefinedTimestampSizeRecord ::
    "status \<Rightarrow> log_writer \<Rightarrow> ts_sizes \<Rightarrow> status \<times> log_writer" where
  "MaybeAddUserDefinedTimestampSizeRecord prep w cf_to_ts_sz =
     (let (ts, recorded) = ts_sz_to_record (lw_recorded_cf_to_ts_sz w) cf_to_ts_sz;
          w = w\<lparr>lw_recorded_cf_to_ts_sz := recorded\<rparr>
      in if ts = [] then (OK, w)
         else
           let encoded = TimestampSizeRecord_EncodeTo [] ts;
               rtype = (if recycle_log_files w then kRecyclableUserDefinedTimestampSizeType
                       else kUserDefinedTimestampSizeType);
               (s, w) = MaybeSwitchToNewBlock prep w encoded
           in if \<not> ok s then (s, w) else EmitPhysicalRecord prep w rtype encoded)"

section \<open>What a writer without failures writes\<close>

text \<open>The bytes of one physical record.\<close>

definition physical_record :: "u64 \<Rightarrow> record_type \<Rightarrow> slice \<Rightarrow> slice" where
  "physical_record log_number t payload =
     (let log_bytes = (if legacy_type t then [] else EncodeFixed32 (ucast log_number))
      in EncodeFixed32 (Mask (Value ([t] @ log_bytes @ payload))) @
         [of_nat (length payload), of_nat (length payload div 256), t] @ log_bytes @ payload)"

definition healthy :: "log_writer \<Rightarrow> bool" where
  "healthy w \<longleftrightarrow> \<not> wf_seen_error (lw_dest w) \<and> wf_outcomes (lw_dest w) = []"

definition written :: "log_writer \<Rightarrow> slice" where
  "written w = wf_data (lw_dest w)"

lemma dest_Append_healthy:
  "\<not> wf_seen_error f \<Longrightarrow> wf_outcomes f = [] \<Longrightarrow>
   dest_Append f d = (OK, f\<lparr>wf_data := wf_data f @ d\<rparr>)"
  by (simp add: dest_Append_def)

lemma EmitPhysicalRecord_healthy:
  assumes "healthy w" and "length payload < 2 ^ 64"
  shows "EmitPhysicalRecord OK w t payload =
    (OK, w\<lparr>lw_dest := (lw_dest w)\<lparr>wf_data := written w @ physical_record (lw_log_number w) t payload\<rparr>,
           block_offset := block_offset w +
             ((if legacy_type t then kHeaderSize else kRecyclableHeaderSize) + length payload)\<rparr>)"
  using assms
  by (simp add: EmitPhysicalRecord_def physical_record_def healthy_def written_def Let_def
      dest_Append_healthy Extend_Value Crc32cCombine_Value)

lemma length_physical_record:
  "length (physical_record n t d) =
     (if legacy_type t then kHeaderSize else kRecyclableHeaderSize) + length d"
  by (simp add: physical_record_def log_size_defs Let_def)

text \<open>
  The bytes of a logical record, as the loop cuts it: from a block offset, with the flag for the
  first fragment, to the offset after it.
\<close>

definition header_bytes :: "bool \<Rightarrow> nat" where
  "header_bytes recycle = (if recycle then kRecyclableHeaderSize else kHeaderSize)"

definition fragment_type :: "bool \<Rightarrow> bool \<Rightarrow> bool \<Rightarrow> record_type" where
  "fragment_type recycle is_begin is_end =
     (if is_begin \<and> is_end then (if recycle then kRecyclableFullType else kFullType)
      else if is_begin then (if recycle then kRecyclableFirstType else kFirstType)
      else if is_end then (if recycle then kRecyclableLastType else kLastType)
      else (if recycle then kRecyclableMiddleType else kMiddleType))"

definition block_start :: "bool \<Rightarrow> nat \<Rightarrow> nat" where
  "block_start recycle bo = (if kBlockSize - bo < header_bytes recycle then 0 else bo)"

definition block_pad :: "bool \<Rightarrow> nat \<Rightarrow> slice" where
  "block_pad recycle bo =
     (if kBlockSize - bo < header_bytes recycle then replicate (kBlockSize - bo) 0 else [])"

inductive emits :: "bool \<Rightarrow> u64 \<Rightarrow> nat \<Rightarrow> slice \<Rightarrow> bool \<Rightarrow> slice \<Rightarrow> nat \<Rightarrow> bool"
  for recycle :: bool and log_number :: u64 where
  emits_last: "\<lbrakk>bo0 = block_start recycle bo; bo0 + header_bytes recycle + length data \<le> kBlockSize\<rbrakk> \<Longrightarrow>
    emits recycle log_number bo data b
      (block_pad recycle bo @ physical_record log_number (fragment_type recycle b True) data)
      (bo0 + header_bytes recycle + length data)"
| emits_more: "\<lbrakk>bo0 = block_start recycle bo; avail = kBlockSize - bo0 - header_bytes recycle;
    avail < length data; emits recycle log_number kBlockSize (drop avail data) False bytes bo'\<rbrakk> \<Longrightarrow>
    emits recycle log_number bo data b
      (block_pad recycle bo @
       physical_record log_number (fragment_type recycle b False) (take avail data) @ bytes) bo'"

definition append_to :: "log_writer \<Rightarrow> slice \<Rightarrow> nat \<Rightarrow> log_writer" where
  "append_to w bytes bo =
     w\<lparr>lw_dest := (lw_dest w)\<lparr>wf_data := written w @ bytes\<rparr>, block_offset := bo\<rparr>"

lemma append_to_simps [simp]:
  "healthy (append_to w bs bo) = healthy w" "written (append_to w bs bo) = written w @ bs"
  "block_offset (append_to w bs bo) = bo"
  "recycle_log_files (append_to w bs bo) = recycle_log_files w"
  "lw_log_number (append_to w bs bo) = lw_log_number w"
  "append_to (append_to w bs bo) bs' bo' = append_to w (bs @ bs') bo'"
  "append_to w [] (block_offset w) = w"
  by (simp_all add: append_to_def healthy_def written_def)

lemma header_size_bytes: "header_size w = header_bytes (recycle_log_files w)"
  by (simp add: header_size_def header_bytes_def)

lemma header_bytes_bounds: "7 \<le> header_bytes r" "header_bytes r \<le> 11"
  by (simp_all add: header_bytes_def log_size_defs)

lemma switch_block_healthy:
  assumes "healthy w"
  shows "switch_block w = (OK, append_to w (block_pad (recycle_log_files w) (block_offset w))
      (block_start (recycle_log_files w) (block_offset w)))"
  using assms
  by (auto simp: switch_block_def block_pad_def block_start_def append_to_def healthy_def
      dest_Append_healthy header_size_bytes written_def Let_def)

lemma EmitPhysicalRecord_append_to:
  assumes "healthy w" and "length payload < 2 ^ 64"
  shows "EmitPhysicalRecord OK w (record_type_of w b e) payload =
    (OK, append_to w (physical_record (lw_log_number w) (fragment_type (recycle_log_files w) b e) payload)
       (block_offset w + header_size w + length payload))"
proof -
  have "record_type_of w b e = fragment_type (recycle_log_files w) b e"
    by (simp add: record_type_of_def fragment_type_def)
  then show ?thesis
    using EmitPhysicalRecord_healthy [OF assms, of "record_type_of w b e"] legacy_record_type_of [of w b e]
    by (simp add: append_to_def header_size_def add.assoc)
qed

lemma block_start_fits: "block_start r bo + header_bytes r \<le> kBlockSize"
  using header_bytes_bounds [of r] by (auto simp: block_start_def kBlockSize_def)

lemma AddRecord_loop_emits:
  assumes "healthy w" and "length data < 2 ^ 64"
  shows "\<exists>bytes bo. emits (recycle_log_files w) (lw_log_number w) (block_offset w) data b bytes bo \<and>
    AddRecord_loop OK w data b = (OK, append_to w bytes bo)"
  using assms
proof (induction "2 * length data + (if block_offset w + header_size w = kBlockSize then 1 else 0)"
    arbitrary: w data b rule: less_induct)
  case less
  let ?r = "recycle_log_files w" and ?n = "lw_log_number w"
  let ?bo = "block_start ?r (block_offset w)" and ?pad = "block_pad ?r (block_offset w)"
  let ?avail = "kBlockSize - ?bo - header_bytes ?r"
  let ?w1 = "append_to w ?pad ?bo"
  have fits: "?bo + header_bytes ?r \<le> kBlockSize" by (rule block_start_fits)
  have sw: "switch_block w = (OK, ?w1)" using less.prems(1) by (rule switch_block_healthy)
  have em: "EmitPhysicalRecord OK ?w1 (record_type_of ?w1 b e) d =
      (OK, append_to w (?pad @ physical_record ?n (fragment_type ?r b e) d) (?bo + header_bytes ?r + length d))"
    if "length d \<le> length data" for e d
    using EmitPhysicalRecord_append_to [of ?w1 d b e] less.prems that by (simp add: header_size_bytes)
  show ?case
  proof (cases "length data \<le> ?avail")
    case True
    then have "emits ?r ?n (block_offset w) data b
        (?pad @ physical_record ?n (fragment_type ?r b True) data) (?bo + header_bytes ?r + length data)"
      using fits by (intro emits_last) auto
    moreover have "AddRecord_loop OK w data b =
        (OK, append_to w (?pad @ physical_record ?n (fragment_type ?r b True) data) (?bo + header_bytes ?r + length data))"
      using True em [of data True] sw
      by (subst AddRecord_loop.simps) (auto simp: Let_def header_size_bytes)
    ultimately show ?thesis by blast
  next
    case False
    let ?w2 = "append_to w (?pad @ physical_record ?n (fragment_type ?r b False) (take ?avail data)) kBlockSize"
    have e2: "EmitPhysicalRecord OK ?w1 (record_type_of ?w1 b False) (take ?avail data) = (OK, ?w2)"
      using em [of "take ?avail data" False] fits False by (simp add: min_absorb2)
    have loop: "AddRecord_loop OK w data b = AddRecord_loop OK ?w2 (drop ?avail data) False"
      using False e2 sw by (subst AddRecord_loop.simps) (auto simp: Let_def header_size_bytes)
    have h2: "block_offset ?w2 + header_size ?w2 \<noteq> kBlockSize"
      using header_bytes_bounds [of ?r] by (simp add: header_size_bytes)
    have dec: "2 * length (drop ?avail data) +
        (if block_offset ?w2 + header_size ?w2 = kBlockSize then 1 else 0)
      < 2 * length data + (if block_offset w + header_size w = kBlockSize then 1 else 0)"
    proof (cases "?avail = 0")
      case True
      then have "block_offset w + header_size w = kBlockSize"
        using fits header_bytes_bounds [of ?r]
        by (auto simp: header_size_bytes block_start_def kBlockSize_def split: if_splits)
      with True h2 show ?thesis by simp
    next
      case nz: False
      then show ?thesis using h2 False by simp
    qed
    have "\<exists>bytes bo. emits ?r ?n kBlockSize (drop ?avail data) False bytes bo \<and>
        AddRecord_loop OK ?w2 (drop ?avail data) False = (OK, append_to ?w2 bytes bo)"
      using less.hyps [OF dec, of False] less.prems by simp
    then obtain bytes bo where
      e1: "emits ?r ?n kBlockSize (drop ?avail data) False bytes bo" and
      l1: "AddRecord_loop OK ?w2 (drop ?avail data) False = (OK, append_to ?w2 bytes bo)"
      by blast
    have "emits ?r ?n (block_offset w) data b
        (?pad @ physical_record ?n (fragment_type ?r b False) (take ?avail data) @ bytes) bo"
      by (rule emits_more [OF refl refl _ e1]) (use False in simp)
    moreover have "AddRecord_loop OK w data b = (OK, append_to w
        (?pad @ physical_record ?n (fragment_type ?r b False) (take ?avail data) @ bytes) bo)"
      unfolding loop l1 by simp
    ultimately show ?thesis by blast
  qed
qed

lemma AddRecord_emits:
  assumes "healthy w" and "length data < 2 ^ 64"
  shows "\<exists>bytes bo. emits (recycle_log_files w) (lw_log_number w) (block_offset w) data True bytes bo \<and>
    fst (AddRecord OK w data seqno) = OK \<and>
    snd (AddRecord OK w data seqno) =
      (append_to w bytes bo)\<lparr>last_seqno_recorded := max (last_seqno_recorded w) seqno\<rparr>"
proof -
  obtain bytes bo where e: "emits (recycle_log_files w) (lw_log_number w) (block_offset w) data True bytes bo"
    "AddRecord_loop OK w data True = (OK, append_to w bytes bo)"
    using AddRecord_loop_emits [OF assms] by blast
  have "MaybeHandleSeenFileWriterError w = OK"
    using assms(1) by (simp add: MaybeHandleSeenFileWriterError_def healthy_def)
  moreover have "dest_Flush (lw_dest (append_to w bytes bo)) = (OK, lw_dest (append_to w bytes bo))"
    using assms(1) by (simp add: dest_Flush_def dest_Append_healthy healthy_def append_to_def)
  ultimately have "AddRecord OK w data seqno =
      (OK, (append_to w bytes bo)\<lparr>last_seqno_recorded := max (last_seqno_recorded w) seqno\<rparr>)"
    using e(2) by (auto simp: AddRecord_def append_to_def)
  then show ?thesis using e(1) by auto
qed

end
