(* ===== verification/Log_Reader.thy ===== *)
theory Log_Reader
  imports Log_Format "HOL-Library.Monad_Syntax"
begin

text \<open>
  The log reader (\<open>db/log_reader.cc\<close>, \<open>db/log_reader.h\<close>). The file is an explicit byte string
  with a script of outcomes for its reads; the reporter is the list of what was reported. The
  record checksum pointer is null and, as the build has no streaming compressor,
  \<open>uncompress_\<close> is null. \<open>ReadRecord\<close> is a loop that need not end, so it is a partial
  function: None is a call that does not return.
\<close>

unbundle bit_operations_syntax

section \<open>Results and reports\<close>

definition kEof :: byte where "kEof = kMaxRecordType + 1"
definition kBadRecord :: byte where "kBadRecord = kMaxRecordType + 2"
definition kBadHeader :: byte where "kBadHeader = kMaxRecordType + 3"
definition kOldRecord :: byte where "kOldRecord = kMaxRecordType + 4"
definition kBadRecordLen :: byte where "kBadRecordLen = kMaxRecordType + 5"
definition kBadRecordChecksum :: byte where "kBadRecordChecksum = kMaxRecordType + 6"

lemmas reader_result_defs = kEof_def kBadRecord_def kBadHeader_def kOldRecord_def
  kBadRecordLen_def kBadRecordChecksum_def

datatype wal_recovery_mode =
  kTolerateCorruptedTailRecords | kAbsoluteConsistency | kPointInTimeRecovery
| kSkipAnyCorruptedRecords

datatype report = Corruption_report nat status u64 | OldLogRecord_report nat

text \<open>
  A read takes the next outcome of the script: None, or the end of the script, is a read that
  succeeds; \<open>Some (s, n)\<close> fails with status \<open>s\<close> after \<open>n\<close> bytes.
\<close>

record sequential_file =
  sf_rest :: slice
  sf_outcomes :: "(status \<times> nat) option list"

definition file_Read :: "nat \<Rightarrow> sequential_file \<Rightarrow> status \<times> slice \<times> sequential_file" where
  "file_Read n f =
     (case sf_outcomes f of
        Some (s, k) # os \<Rightarrow>
          (s, take (min n k) (sf_rest f),
           f\<lparr>sf_rest := drop (min n k) (sf_rest f), sf_outcomes := os\<rparr>)
      | _ \<Rightarrow> (OK, take n (sf_rest f), f\<lparr>sf_rest := drop n (sf_rest f), sf_outcomes := tl (sf_outcomes f)\<rparr>))"

record log_reader =
  lr_file :: sequential_file
  lr_has_reporter :: bool
  lr_reports :: "report list"
  checksum :: bool
  buffer :: slice
  eof :: bool
  read_error :: bool
  eof_offset :: nat
  last_record_offset :: nat
  end_of_buffer_offset :: nat
  lr_log_number :: u64
  lr_track_and_verify_wals :: bool
  stop_replay_for_corruption :: bool
  min_wal_number_to_keep :: u64
  observed_predecessor_wal_info :: PredecessorWALInfo
  recycled :: bool
  first_record_read :: bool
  lr_compression_type :: byte
  compression_type_record_read :: bool
  lr_recorded_cf_to_ts_sz :: "u32 \<rightharpoonup> nat"

definition Reader ::
    "sequential_file \<Rightarrow> bool \<Rightarrow> bool \<Rightarrow> u64 \<Rightarrow> bool \<Rightarrow> bool \<Rightarrow> u64 \<Rightarrow> PredecessorWALInfo \<Rightarrow> log_reader" where
  "Reader file has_reporter chk log_num track stop_replay min_wal observed =
     \<lparr>lr_file = file, lr_has_reporter = has_reporter, lr_reports = [], checksum = chk,
      buffer = [], eof = False, read_error = False, eof_offset = 0, last_record_offset = 0,
      end_of_buffer_offset = 0, lr_log_number = log_num, lr_track_and_verify_wals = track,
      stop_replay_for_corruption = stop_replay, min_wal_number_to_keep = min_wal,
      observed_predecessor_wal_info = observed, recycled = False, first_record_read = False,
      lr_compression_type = kNoCompression, compression_type_record_read = False,
      lr_recorded_cf_to_ts_sz = Map.empty\<rparr>"

definition ReportDrop :: "nat \<Rightarrow> status \<Rightarrow> u64 \<Rightarrow> log_reader \<Rightarrow> log_reader" where
  "ReportDrop bytes reason log_number r =
     (if lr_has_reporter r
      then r\<lparr>lr_reports := lr_reports r @ [Corruption_report bytes reason log_number]\<rparr> else r)"

definition ReportCorruption_log :: "nat \<Rightarrow> slice \<Rightarrow> u64 \<Rightarrow> log_reader \<Rightarrow> log_reader" where
  "ReportCorruption_log bytes reason log_number r = ReportDrop bytes (Corruption reason []) log_number r"

definition ReportCorruption :: "nat \<Rightarrow> slice \<Rightarrow> log_reader \<Rightarrow> log_reader" where
  "ReportCorruption bytes reason r = ReportCorruption_log bytes reason kMaxSequenceNumber r"

definition ReportOldLogRecord :: "nat \<Rightarrow> log_reader \<Rightarrow> log_reader" where
  "ReportOldLogRecord bytes r =
     (if lr_has_reporter r then r\<lparr>lr_reports := lr_reports r @ [OldLogRecord_report bytes]\<rparr> else r)"

definition LastRecordOffset :: "log_reader \<Rightarrow> nat" where
  "LastRecordOffset r = last_record_offset r"

definition LastRecordEnd :: "log_reader \<Rightarrow> nat" where
  "LastRecordEnd r = end_of_buffer_offset r - length (buffer r)"

section \<open>Reading blocks\<close>

text \<open>
  The second component is the error when the first is False; the third is the new value behind
  \<open>drop_size\<close>.
\<close>

definition ReadMore :: "nat \<Rightarrow> log_reader \<Rightarrow> bool \<times> byte \<times> nat \<times> log_reader" where
  "ReadMore drop_size r =
     (if \<not> eof r \<and> \<not> read_error r then
        case file_Read kBlockSize (lr_file r) of (status, buf, f) \<Rightarrow>
          let r = r\<lparr>lr_file := f, buffer := buf,
                    end_of_buffer_offset := end_of_buffer_offset r + length buf\<rparr>
          in if \<not> ok status then
               (False, kEof, drop_size,
                (ReportDrop kBlockSize status kMaxSequenceNumber (r\<lparr>buffer := []\<rparr>))\<lparr>read_error := True\<rparr>)
             else if length buf < kBlockSize then
               (True, 0, drop_size, r\<lparr>eof := True, eof_offset := length buf\<rparr>)
             else (True, 0, drop_size, r)
      else if buffer r \<noteq> [] then (False, kBadHeader, length (buffer r), r\<lparr>buffer := []\<rparr>)
      else (False, kEof, drop_size, r\<lparr>buffer := []\<rparr>))"

definition UnmarkEOFInternal :: "log_reader \<Rightarrow> log_reader" where
  "UnmarkEOFInternal r =
     (let consumed_bytes = eof_offset r - length (buffer r);
          remaining = kBlockSize - eof_offset r
      in case file_Read remaining (lr_file r) of (status, read_buffer, f) \<Rightarrow>
           let added = length read_buffer;
               r = r\<lparr>lr_file := f, end_of_buffer_offset := end_of_buffer_offset r + added\<rparr>
           in if \<not> ok status then
                (if added > 0 then ReportDrop added status kMaxSequenceNumber r else r)\<lparr>read_error := True\<rparr>
              else
                let r = r\<lparr>buffer := buffer r @ read_buffer\<rparr>
                in if added < remaining then r\<lparr>eof := True, eof_offset := eof_offset r + added\<rparr>
                   else r\<lparr>eof_offset := 0\<rparr>)"

definition UnmarkEOF :: "log_reader \<Rightarrow> log_reader" where
  "UnmarkEOF r =
     (if read_error r then r
      else
        let r = r\<lparr>eof := False\<rparr>
        in if eof_offset r = 0 then r else UnmarkEOFInternal r)"

lemma ReadMore_True:
  assumes "ReadMore d r = (True, e, d', r')"
  obtains s buf f where "\<not> eof r" "file_Read kBlockSize (lr_file r) = (s, buf, f)" "ok s"
    "lr_file r' = f" "eof r' \<longleftrightarrow> length buf < kBlockSize"
proof (cases "\<not> eof r \<and> \<not> read_error r")
  case True
  obtain s buf f where f: "file_Read kBlockSize (lr_file r) = (s, buf, f)" by (metis prod_cases3)
  show ?thesis
    using assms True f that [OF _ f] by (auto simp: ReadMore_def Let_def split: if_splits)
next
  case False
  then show ?thesis using assms by (auto simp: ReadMore_def split: if_splits)
qed

lemma file_Read_lengths:
  "file_Read n f = (s, buf, f') \<Longrightarrow> length (sf_rest f) = length buf + length (sf_rest f')"
  by (auto simp: file_Read_def split: list.splits option.splits prod.splits)

lemma ReadMore_decreases:
  assumes "ReadMore d r = (True, e, d', r')"
  shows "length (sf_rest (lr_file r')) + (if eof r' then 0 else 1) <
    length (sf_rest (lr_file r)) + (if eof r then 0 else 1)"
proof -
  obtain s buf f where m: "\<not> eof r" "file_Read kBlockSize (lr_file r) = (s, buf, f)"
    "lr_file r' = f" "eof r' \<longleftrightarrow> length buf < kBlockSize"
    using ReadMore_True [OF assms] .
  have "length (sf_rest (lr_file r)) = length buf + length (sf_rest f)"
    using m(2) by (rule file_Read_lengths)
  then show ?thesis using m by (auto simp: kBlockSize_def)
qed

section \<open>Physical records\<close>

definition is_recyclable_type :: "byte \<Rightarrow> bool" where
  "is_recyclable_type rtype \<longleftrightarrow>
     (rtype \<ge> kRecyclableFullType \<and> rtype \<le> kRecyclableLastType) \<or>
     rtype = kRecyclableUserDefinedTimestampSizeType \<or> rtype = kRecyclePredecessorWALInfoType"

definition record_length :: "slice \<Rightarrow> nat" where
  "record_length header =
     unat ((ucast (header ! 4) :: u32) OR push_bit 8 (ucast (header ! 5)))"

definition record_header_size :: "slice \<Rightarrow> nat" where
  "record_header_size header =
     (if is_recyclable_type (header ! 6) then kRecyclableHeaderSize else kHeaderSize)"

text \<open>
  \<open>result\<close> and \<open>drop_size\<close> are the old values behind the pointers, which some returns leave
  unchanged. \<open>take_record\<close> is the part after the header is wholly in the buffer.
\<close>

definition take_record :: "slice \<Rightarrow> nat \<Rightarrow> log_reader \<Rightarrow> byte \<times> slice \<times> nat \<times> log_reader" where
  "take_record result drop_size r =
     (let header = buffer r;
          rtype = header ! 6;
          len = record_length header;
          hsize = record_header_size header
      in if hsize + len > length (buffer r) then
           (kBadRecordLen, result, length (buffer r), r\<lparr>buffer := []\<rparr>)
         else if is_recyclable_type rtype \<and> ucast (DecodeFixed32 (drop 7 header)) \<noteq> lr_log_number r then
           (kOldRecord, result, drop_size, r\<lparr>buffer := drop (hsize + len) (buffer r)\<rparr>)
         else if rtype = kZeroType \<and> len = 0 then
           (kBadRecord, result, drop_size, r\<lparr>buffer := []\<rparr>)
         else if checksum r \<and>
             Value (take (len + hsize - 6) (drop 6 header)) \<noteq> Unmask (DecodeFixed32 header) then
           (kBadRecordChecksum, result, length (buffer r), r\<lparr>buffer := []\<rparr>)
         else
           (rtype, take len (drop hsize header), drop_size,
            r\<lparr>buffer := drop (hsize + len) (buffer r)\<rparr>))"

function ReadPhysicalRecord ::
    "slice \<Rightarrow> nat \<Rightarrow> log_reader \<Rightarrow> byte \<times> slice \<times> nat \<times> log_reader" where
  "ReadPhysicalRecord result drop_size r =
     (if length (buffer r) < kHeaderSize then
        (case ReadMore drop_size r of (got, err, drop_size, r) \<Rightarrow>
           if \<not> got then (err, result, drop_size, r) else ReadPhysicalRecord result drop_size r)
      else if is_recyclable_type (buffer r ! 6) then
        (if first_record_read r \<and> \<not> recycled r then (kBadRecord, result, drop_size, r)
         else
           let r = r\<lparr>recycled := True\<rparr>
           in if length (buffer r) < kRecyclableHeaderSize then
                (case ReadMore drop_size r of (got, err, drop_size, r) \<Rightarrow>
                   if \<not> got then (err, result, drop_size, r)
                   else ReadPhysicalRecord result drop_size r)
              else take_record result drop_size r)
      else take_record result drop_size r)"
  by pat_completeness auto
termination
  by (relation "measure (\<lambda>(res, d, r). length (sf_rest (lr_file r)) + (if eof r then 0 else 1))")
     (auto dest!: ReadMore_decreases [OF sym] split: if_splits)

declare ReadPhysicalRecord.simps [simp del]

section \<open>Records about the log\<close>

definition MaybeVerifyPredecessorWALInfo ::
    "wal_recovery_mode \<Rightarrow> slice \<Rightarrow> slice \<Rightarrow> PredecessorWALInfo \<Rightarrow> log_reader \<Rightarrow> log_reader" where
  "MaybeVerifyPredecessorWALInfo mode file_name fragment recorded r =
     (if \<not> lr_track_and_verify_wals r \<or> mode = kSkipAnyCorruptedRecords \<or>
         stop_replay_for_corruption r then r
      else
        let rec_log = wal_log_number recorded; obs = observed_predecessor_wal_info r;
            num = (\<lambda>n. to_string (unat n))
        in if \<not> wal_initialized obs then
             (if rec_log \<ge> min_wal_number_to_keep r then
                ReportCorruption_log (length fragment)
                  (str ''Missing WAL of log number '' @ num rec_log) rec_log r
              else r)
           else if wal_log_number obs \<noteq> rec_log then
             ReportCorruption_log (length fragment)
               (str ''Mismatched predecessor log number of WAL file '' @ file_name @
                str '' Recorded '' @ num rec_log @ str ''. Observed '' @ num (wal_log_number obs))
               rec_log r
           else if wal_last_seqno_recorded obs \<noteq> wal_last_seqno_recorded recorded then
             ReportCorruption_log (length fragment)
               (str ''Mismatched last sequence number recorded in the WAL of log number '' @
                num rec_log @ str ''. Recorded '' @ num (wal_last_seqno_recorded recorded) @
                str ''. Observed '' @ num (wal_last_seqno_recorded obs) @
                str ''. (Last sequence number equal to 0 indicates no WAL records)'')
               rec_log r
           else if wal_size_bytes obs \<noteq> wal_size_bytes recorded then
             ReportCorruption_log (length fragment)
               (str ''Mismatched size of the WAL of log number '' @ num rec_log @
                str ''. Recorded '' @ num (wal_size_bytes recorded) @
                str '' bytes. Observed '' @ num (wal_size_bytes obs) @ str '' bytes.'')
               rec_log r
           else r)"

definition InitCompression :: "byte \<Rightarrow> log_reader \<Rightarrow> log_reader" where
  "InitCompression compression_type r =
     r\<lparr>lr_compression_type := compression_type, compression_type_record_read := True\<rparr>"

fun UpdateRecordedTimestampSize :: "ts_sizes \<Rightarrow> log_reader \<Rightarrow> status \<times> log_reader" where
  "UpdateRecordedTimestampSize [] r = (OK, r)"
| "UpdateRecordedTimestampSize ((cf, ts_sz) # rest) r =
     (if ts_sz = 0 then
        (Corruption (str ''User-defined timestamp size record contains zero timestamp size.'') [], r)
      else if lr_recorded_cf_to_ts_sz r cf \<noteq> None then
        (Corruption (str ''User-defined timestamp size record contains update to recorded column family.'')
           [], r)
      else UpdateRecordedTimestampSize rest
             (r\<lparr>lr_recorded_cf_to_ts_sz := (lr_recorded_cf_to_ts_sz r)(cf \<mapsto> ts_sz)\<rparr>))"

section \<open>Logical records\<close>

text \<open>
  The local variables of \<open>ReadRecord\<close>, and one round of its loop: read a physical record and
  run the switch on its type. \<open>Inl\<close> is a return, with the result and the record; \<open>Inr\<close> goes
  round again.
\<close>

record read_state =
  in_fragmented_record :: bool
  scratch :: slice
  prospective_record_offset :: nat
  fragment :: slice

type_synonym round_result = "(bool \<times> slice \<times> log_reader) + (read_state \<times> log_reader)"

definition strict_mode :: "wal_recovery_mode \<Rightarrow> bool" where
  "strict_mode mode \<longleftrightarrow> mode = kAbsoluteConsistency \<or> mode = kPointInTimeRecovery"

definition on_eof :: "wal_recovery_mode \<Rightarrow> read_state \<Rightarrow> log_reader \<Rightarrow> round_result" where
  "on_eof mode st r =
     Inl (False, [],
       if in_fragmented_record st \<and> strict_mode mode
       then ReportCorruption (length (scratch st))
              (str ''error reading trailing data due to encountering EOF'') r
       else r)"

definition on_bad_record :: "read_state \<Rightarrow> log_reader \<Rightarrow> round_result" where
  "on_bad_record st r =
     Inr (if in_fragmented_record st
          then (st\<lparr>in_fragmented_record := False, scratch := []\<rparr>,
                ReportCorruption (length (scratch st)) (str ''error in middle of record'') r)
          else (st, r))"

definition on_old_record :: "wal_recovery_mode \<Rightarrow> read_state \<Rightarrow> log_reader \<Rightarrow> round_result" where
  "on_old_record mode st r =
     (if mode \<noteq> kSkipAnyCorruptedRecords then
        Inl (False, [],
          if in_fragmented_record st then
            (if strict_mode mode
             then ReportCorruption (length (scratch st))
                    (str ''error reading trailing data due to encountering old record'') r
             else r)
          else if mode = kPointInTimeRecovery then ReportOldLogRecord (length (scratch st)) r
          else r)
      else on_bad_record st r)"

definition on_bad_checksum ::
    "wal_recovery_mode \<Rightarrow> byte \<Rightarrow> nat \<Rightarrow> read_state \<Rightarrow> log_reader \<Rightarrow> round_result" where
  "on_bad_checksum mode record_type drop_size st r =
     (if recycled r \<and> mode = kTolerateCorruptedTailRecords then Inl (False, [], r)
      else
        on_bad_record st
          (if record_type = kBadRecordLen
           then ReportCorruption drop_size (str ''bad record length'') r
           else ReportCorruption drop_size (str ''checksum mismatch'') r))"

definition on_full :: "nat \<Rightarrow> read_state \<Rightarrow> log_reader \<Rightarrow> round_result" where
  "on_full physical_record_offset st r =
     (let r = (if in_fragmented_record st \<and> scratch st \<noteq> []
               then ReportCorruption (length (scratch st)) (str ''partial record without end(1)'') r
               else r)
      in Inl (True, fragment st,
              r\<lparr>last_record_offset := physical_record_offset, first_record_read := True\<rparr>))"

definition on_first :: "nat \<Rightarrow> read_state \<Rightarrow> log_reader \<Rightarrow> round_result" where
  "on_first physical_record_offset st r =
     (let r = (if in_fragmented_record st \<and> scratch st \<noteq> []
               then ReportCorruption (length (scratch st)) (str ''partial record without end(2)'') r
               else r)
      in Inr (st\<lparr>prospective_record_offset := physical_record_offset, scratch := fragment st,
                 in_fragmented_record := True\<rparr>, r))"

definition on_middle :: "read_state \<Rightarrow> log_reader \<Rightarrow> round_result" where
  "on_middle st r =
     Inr (if \<not> in_fragmented_record st
          then (st, ReportCorruption (length (fragment st))
                      (str ''missing start of fragmented record(1)'') r)
          else (st\<lparr>scratch := scratch st @ fragment st\<rparr>, r))"

definition on_last :: "read_state \<Rightarrow> log_reader \<Rightarrow> round_result" where
  "on_last st r =
     (if \<not> in_fragmented_record st
      then Inr (st, ReportCorruption (length (fragment st))
                      (str ''missing start of fragmented record(2)'') r)
      else Inl (True, scratch st @ fragment st,
                r\<lparr>last_record_offset := prospective_record_offset st, first_record_read := True\<rparr>))"

definition on_compression_type :: "nat \<Rightarrow> read_state \<Rightarrow> log_reader \<Rightarrow> round_result" where
  "on_compression_type physical_record_offset st r =
     (let len = length (fragment st);
          r = (if compression_type_record_read r
               then ReportCorruption len (str ''read multiple SetCompressionType records'') r else r);
          r = (if first_record_read r
               then ReportCorruption len (str ''SetCompressionType not the first record'') r else r);
          st = st\<lparr>prospective_record_offset := physical_record_offset, scratch := []\<rparr>;
          r = r\<lparr>last_record_offset := physical_record_offset\<rparr>
      in case CompressionTypeRecord_DecodeFrom kNoCompression (fragment st) of (s, ct, rest) \<Rightarrow>
           let st = st\<lparr>fragment := rest\<rparr>
           in if \<not> ok s
              then Inr (st, ReportCorruption (length rest)
                              (str ''could not decode SetCompressionType record'') r)
              else Inr (st, InitCompression ct r))"

definition on_predecessor ::
    "wal_recovery_mode \<Rightarrow> slice \<Rightarrow> nat \<Rightarrow> read_state \<Rightarrow> log_reader \<Rightarrow> round_result" where
  "on_predecessor mode file_name physical_record_offset st r =
     (let st = st\<lparr>prospective_record_offset := physical_record_offset, scratch := []\<rparr>;
          r = r\<lparr>last_record_offset := physical_record_offset\<rparr>
      in case PredecessorWALInfo_DecodeFrom PredecessorWALInfo_default (fragment st) of
           (s, info, rest) \<Rightarrow>
             let st = st\<lparr>fragment := rest\<rparr>
             in if \<not> ok s
                then Inr (st, ReportCorruption (length rest)
                                (str ''could not decode PredecessorWALInfoType record'') r)
                else Inr (st, MaybeVerifyPredecessorWALInfo mode file_name rest info r))"

definition on_ts_size :: "nat \<Rightarrow> read_state \<Rightarrow> log_reader \<Rightarrow> round_result" where
  "on_ts_size physical_record_offset st r =
     (let r = (if in_fragmented_record st \<and> scratch st \<noteq> []
               then ReportCorruption (length (scratch st))
                      (str ''user-defined timestamp size record interspersed partial record'') r
               else r);
          st = st\<lparr>prospective_record_offset := physical_record_offset, scratch := []\<rparr>;
          r = r\<lparr>last_record_offset := physical_record_offset\<rparr>
      in case TimestampSizeRecord_DecodeFrom [] (fragment st) of (s, ts, rest) \<Rightarrow>
           let st = st\<lparr>fragment := rest\<rparr>
           in if \<not> ok s
              then Inr (st, ReportCorruption (length rest)
                              (str ''could not decode user-defined timestamp size record'') r)
              else case UpdateRecordedTimestampSize ts r of (s, r) \<Rightarrow>
                     if \<not> ok s
                     then Inr (st, ReportCorruption (length rest)
                                     (case st_state s of None \<Rightarrow> [] | Some m \<Rightarrow> c_str m) r)
                     else Inr (st, r))"

definition on_unknown :: "byte \<Rightarrow> read_state \<Rightarrow> log_reader \<Rightarrow> round_result" where
  "on_unknown record_type st r =
     Inr (st\<lparr>in_fragmented_record := False, scratch := []\<rparr>,
          if record_type AND kRecordTypeSafeIgnoreMask = 0
          then ReportCorruption
                 (length (fragment st) + (if in_fragmented_record st then length (scratch st) else 0))
                 (str ''unknown record type '' @ to_string (unat record_type)) r
          else r)"

definition ReadRecord_switch ::
    "wal_recovery_mode \<Rightarrow> slice \<Rightarrow> nat \<Rightarrow> byte \<Rightarrow> nat \<Rightarrow> read_state \<Rightarrow> log_reader \<Rightarrow> round_result" where
  "ReadRecord_switch mode file_name physical_record_offset record_type drop_size st r =
     (if record_type = kFullType \<or> record_type = kRecyclableFullType then
        on_full physical_record_offset st r
      else if record_type = kFirstType \<or> record_type = kRecyclableFirstType then
        on_first physical_record_offset st r
      else if record_type = kMiddleType \<or> record_type = kRecyclableMiddleType then on_middle st r
      else if record_type = kLastType \<or> record_type = kRecyclableLastType then on_last st r
      else if record_type = kSetCompressionType then
        on_compression_type physical_record_offset st r
      else if record_type = kPredecessorWALInfoType \<or> record_type = kRecyclePredecessorWALInfoType then
        on_predecessor mode file_name physical_record_offset st r
      else if record_type = kUserDefinedTimestampSizeType \<or>
          record_type = kRecyclableUserDefinedTimestampSizeType then
        on_ts_size physical_record_offset st r
      else if record_type = kBadHeader then
        on_eof mode st
          (if strict_mode mode then ReportCorruption drop_size (str ''truncated header'') r else r)
      else if record_type = kEof then on_eof mode st r
      else if record_type = kOldRecord then on_old_record mode st r
      else if record_type = kBadRecord then on_bad_record st r
      else if record_type = kBadRecordLen \<and> eof r then
        Inl (False, [],
          if strict_mode mode then ReportCorruption drop_size (str ''truncated record body'') r else r)
      else if record_type = kBadRecordLen \<or> record_type = kBadRecordChecksum then
        on_bad_checksum mode record_type drop_size st r
      else on_unknown record_type st r)"

definition ReadRecord_round ::
    "wal_recovery_mode \<Rightarrow> slice \<Rightarrow> read_state \<Rightarrow> log_reader \<Rightarrow> round_result" where
  "ReadRecord_round mode file_name st r =
     (let physical_record_offset = end_of_buffer_offset r - length (buffer r)
      in case ReadPhysicalRecord (fragment st) 0 r of (record_type, frag, drop_size, r) \<Rightarrow>
           ReadRecord_switch mode file_name physical_record_offset record_type drop_size
             (st\<lparr>fragment := frag\<rparr>) r)"

partial_function (option) ReadRecord_loop ::
    "wal_recovery_mode \<Rightarrow> slice \<Rightarrow> read_state \<Rightarrow> log_reader \<Rightarrow> (bool \<times> slice \<times> log_reader) option" where
  [code]: "ReadRecord_loop mode file_name st r =
     (case ReadRecord_round mode file_name st r of
        Inl result \<Rightarrow> Some result
      | Inr (st, r) \<Rightarrow> ReadRecord_loop mode file_name st r)"

declare ReadRecord_loop.simps [code]

definition ReadRecord ::
    "wal_recovery_mode \<Rightarrow> slice \<Rightarrow> log_reader \<Rightarrow> (bool \<times> slice \<times> log_reader) option" where
  "ReadRecord mode file_name r =
     ReadRecord_loop mode file_name
       \<lparr>in_fragmented_record = False, scratch = [], prospective_record_offset = 0, fragment = []\<rparr> r"

end
