(* ===== verification/Log.thy ===== *)
theory Log
  imports Log_Writer Log_Reader
begin

text \<open>
  The log as a whole: what a writer wrote without failures a reader reads back, record for
  record and without a report, in every recovery mode, for recycled and for fresh files; and
  what the reader does with headers that no writer writes.
\<close>

unbundle bit_operations_syntax

section \<open>Where the reader stands\<close>

text \<open>
  The reader is at block offset \<open>bo\<close> of its file with the bytes \<open>S\<close> still to come: its buffer
  reaches to the end of the block, or to the end of the file.
\<close>

definition at :: "log_reader \<Rightarrow> slice \<Rightarrow> nat \<Rightarrow> bool" where
  "at r S bo \<longleftrightarrow>
     sf_outcomes (lr_file r) = [] \<and> \<not> read_error r \<and> S = buffer r @ sf_rest (lr_file r) \<and>
     (if eof r then sf_rest (lr_file r) = [] \<and> bo mod kBlockSize + length (buffer r) < kBlockSize
      else length (buffer r) = kBlockSize - bo mod kBlockSize \<or>
           bo mod kBlockSize = 0 \<and> buffer r = [])"

definition written_type :: "byte \<Rightarrow> bool" where
  "written_type t \<longleftrightarrow> t \<noteq> kZeroType \<and> (legacy_type t \<longleftrightarrow> \<not> is_recyclable_type t)"

definition accepts :: "log_reader \<Rightarrow> u64 \<Rightarrow> byte \<Rightarrow> bool" where
  "accepts r log_number t \<longleftrightarrow>
     lr_log_number r = log_number \<and>
     (is_recyclable_type t \<longrightarrow>
        unat log_number < 2 ^ 32 \<and> (recycled r \<or> \<not> first_record_read r))"

lemma written_type_fragment: "written_type (fragment_type rc b e)"
  by (auto simp: written_type_def fragment_type_def legacy_type_def is_recyclable_type_def
      record_type_defs word_le_nat_alt)

lemma recyclable_fragment: "is_recyclable_type (fragment_type rc b e) \<longleftrightarrow> rc"
  by (auto simp: fragment_type_def is_recyclable_type_def record_type_defs word_le_nat_alt)

lemma ucast_byte_of_nat: "(ucast (of_nat n :: byte) :: u32) = of_nat (n mod 256)"
  by (simp add: word_unat_eq_iff unat_ucast_up unat_of_nat)

lemma two_byte_length:
  assumes "n < 65536"
  shows "unat ((ucast (of_nat n :: byte) :: u32) OR push_bit 8 (ucast (of_nat (n div 256) :: byte))) = n"
proof -
  let ?lo = "ucast (of_nat n :: byte) :: u32" and ?hi = "ucast (of_nat (n div 256) :: byte) :: u32"
  have "?lo AND push_bit 8 ?hi = 0"
    by (rule bit_word_eqI) (auto simp: bit_simps)
  then have "?lo OR push_bit 8 ?hi = ?lo + push_bit 8 ?hi" by (simp add: disjunctive_add_eq_or)
  also have "\<dots> = of_nat (n mod 256) + of_nat (n div 256 mod 256) * 256"
    by (simp only: ucast_byte_of_nat push_bit_eq_mult) simp
  also have "\<dots> = of_nat (n mod 256 + n div 256 mod 256 * 256)" by simp
  also have "n mod 256 + n div 256 mod 256 * 256 = n" using assms by simp
  finally show ?thesis using assms by (simp add: unat_of_nat)
qed

section \<open>Reading one physical record\<close>

lemma physical_record_parts:
  assumes "h = physical_record n t d @ u"
  shows "h ! 4 = of_nat (length d)" "h ! 5 = of_nat (length d div 256)" "h ! 6 = t"
    and "DecodeFixed32 h =
      Mask (Value ([t] @ (if legacy_type t then [] else EncodeFixed32 (ucast n)) @ d))"
    and "drop 6 h = [t] @ (if legacy_type t then [] else EncodeFixed32 (ucast n)) @ d @ u"
    and "drop 7 h = (if legacy_type t then [] else EncodeFixed32 (ucast n)) @ d @ u"
proof -
  let ?lb = "if legacy_type t then [] else EncodeFixed32 (ucast n)"
  obtain c0 c1 c2 c3 where c: "EncodeFixed32 (Mask (Value ([t] @ ?lb @ d))) = [c0, c1, c2, c3]"
    by (simp add: EncodeFixed32_def)
  have h: "h = [c0, c1, c2, c3, of_nat (length d), of_nat (length d div 256), t] @ ?lb @ d @ u"
    using assms c by (simp add: physical_record_def Let_def)
  show "h ! 4 = of_nat (length d)" "h ! 5 = of_nat (length d div 256)" "h ! 6 = t"
    "drop 6 h = [t] @ ?lb @ d @ u" "drop 7 h = ?lb @ d @ u"
    by (simp_all add: h)
  show "DecodeFixed32 h = Mask (Value ([t] @ ?lb @ d))"
    by (simp add: assms physical_record_def Let_def)
qed

lemma take_record_physical_record:
  assumes buf: "buffer r = physical_record n t d @ u" and len: "length d < 65536"
    and t: "written_type t" and acc: "accepts r n t"
  shows "take_record res ds r = (t, d, ds, r\<lparr>buffer := u\<rparr>)"
proof -
  let ?lb = "if legacy_type t then [] else EncodeFixed32 (ucast n)"
  let ?h = "buffer r" and ?hs = "record_header_size (buffer r)"
  note parts = physical_record_parts [OF buf]
  have lt: "legacy_type t \<longleftrightarrow> \<not> is_recyclable_type t" "t \<noteq> kZeroType"
    using t by (simp_all add: written_type_def)
  have n: "record_length ?h = length d"
    unfolding record_length_def parts(1,2) by (rule two_byte_length [OF len])
  have lb: "length ?lb + 7 = ?hs"
    using lt by (simp add: record_header_size_def parts(3) log_size_defs)
  have size: "length ?h = ?hs + length d + length u"
    using lb arg_cong [OF parts(6), of length] len
    by (simp add: buf length_physical_record log_size_defs split: if_splits)
  have "drop ?hs ?h = drop (length ?lb) (drop 7 ?h)" by (simp flip: lb)
  also have "\<dots> = d @ u" unfolding parts(6) by simp
  finally have payload: "drop ?hs ?h = d @ u" .
  have rest: "drop (?hs + length d) ?h = u"
    using payload by (metis add.commute append_eq_conv_conj drop_drop)
  have num: "ucast (DecodeFixed32 (drop 7 ?h)) = lr_log_number r" if "is_recyclable_type t"
  proof -
    have "unat n < 2 ^ 32" "lr_log_number r = n" using acc that by (simp_all add: accepts_def)
    then have "(ucast (ucast n :: u32) :: u64) = n"
      by (simp add: word_unat_eq_iff unat_ucast_up unsigned_ucast_eq unsigned_take_bit_eq
          take_bit_nat_eq_self)
    then show ?thesis using that lt \<open>lr_log_number r = n\<close> by (simp add: parts(6))
  qed
  have "length d + ?hs - 6 = length ([t] @ ?lb @ d)" unfolding lb [symmetric] by simp
  moreover have "drop 6 ?h = ([t] @ ?lb @ d) @ u" unfolding parts(5) by simp
  ultimately have "take (length d + ?hs - 6) (drop 6 ?h) = [t] @ ?lb @ d"
    by (metis append_eq_conv_conj)
  then have crc: "Value (take (length d + ?hs - 6) (drop 6 ?h)) = Unmask (DecodeFixed32 ?h)"
    by (simp add: parts(4))
  show ?thesis
    unfolding take_record_def Let_def n parts(3) crc payload rest
    using size lt(2) num by auto
qed

lemma ReadPhysicalRecord_physical_record:
  assumes buf: "buffer r = physical_record n t d @ u" and len: "length d < 65536"
    and t: "written_type t" and acc: "accepts r n t"
  shows "ReadPhysicalRecord res ds r =
    (t, d, ds, r\<lparr>recycled := recycled r \<or> is_recyclable_type t, buffer := u\<rparr>)"
proof -
  have long: "\<not> length (buffer r) < kHeaderSize"
    by (simp add: buf length_physical_record log_size_defs)
  have type: "buffer r ! 6 = t" by (rule physical_record_parts(3) [OF buf])
  show ?thesis
  proof (cases "is_recyclable_type t")
    case True
    let ?r = "r\<lparr>recycled := True\<rparr>"
    have "\<not> legacy_type t" using True t by (simp add: written_type_def)
    then have "\<not> length (buffer ?r) < kRecyclableHeaderSize"
      by (simp add: buf length_physical_record)
    moreover have "accepts ?r n t" using acc by (auto simp: accepts_def)
    then have "take_record res ds ?r = (t, d, ds, ?r\<lparr>buffer := u\<rparr>)"
      using buf by (intro take_record_physical_record [OF _ len t]) auto
    moreover have "\<not> (first_record_read r \<and> \<not> recycled r)" using acc True by (auto simp: accepts_def)
    ultimately show ?thesis
      using long type True by (subst ReadPhysicalRecord.simps) (auto simp: Let_def)
  next
    case False
    have "take_record res ds r = (t, d, ds, r\<lparr>buffer := u\<rparr>)"
      by (rule take_record_physical_record [OF buf len t acc])
    then show ?thesis
      using long type False by (subst ReadPhysicalRecord.simps) simp
  qed
qed

section \<open>Moving over blocks\<close>

lemma at_eof_fits: "at r S bo \<Longrightarrow> eof r \<Longrightarrow> bo mod kBlockSize + length S < kBlockSize"
  by (simp add: at_def)

lemma at_mod: "bo mod kBlockSize = bo' mod kBlockSize \<Longrightarrow> at r S bo = at r S bo'"
  by (simp add: at_def)

lemma ReadMore_at:
  assumes "at r S bo" and "\<not> eof r" and "S' = sf_rest (lr_file r)"
  shows "\<exists>r'. ReadMore ds r = (True, 0, ds, r') \<and> at r' S' 0 \<and>
    (eof r' \<or> length (buffer r') = kBlockSize) \<and> buffer r' = take kBlockSize S' \<and>
    lr_reports r' = lr_reports r \<and> recycled r' = recycled r \<and>
    first_record_read r' = first_record_read r \<and> lr_log_number r' = lr_log_number r"
  using assms
  by (auto simp: ReadMore_def file_Read_def at_def Let_def kBlockSize_def not_less)

lemma ReadPhysicalRecord_more:
  assumes "length (buffer r) < kHeaderSize" and "ReadMore ds r = (True, e, ds', r')"
  shows "ReadPhysicalRecord res ds r = ReadPhysicalRecord res ds' r'"
  using assms by (subst ReadPhysicalRecord.simps) simp

text \<open>The flags that reading a log must not change.\<close>

definition same_log :: "log_reader \<Rightarrow> log_reader \<Rightarrow> bool" where
  "same_log r r' \<longleftrightarrow> lr_reports r' = lr_reports r \<and> lr_log_number r' = lr_log_number r"

lemma same_log_trans: "same_log a b \<Longrightarrow> same_log b c \<Longrightarrow> same_log a c"
  by (simp add: same_log_def)

lemma buffer_prefix:
  assumes "at r (x @ S') bo" and "bo mod kBlockSize + length x \<le> kBlockSize" and "buffer r \<noteq> []"
  obtains u where "buffer r = x @ u" and "u @ sf_rest (lr_file r) = S'"
proof -
  have "x @ S' = buffer r @ sf_rest (lr_file r)" using assms(1) by (simp add: at_def)
  moreover have "length x \<le> length (buffer r) \<or> sf_rest (lr_file r) = []"
    using assms by (auto simp: at_def split: if_splits)
  ultimately obtain u where "buffer r = x @ u" "u @ sf_rest (lr_file r) = S'"
    by (auto simp: append_eq_append_conv2)
  then show ?thesis by (rule that)
qed

lemma read_physical_at:
  assumes at: "at r (physical_record n t d @ S') bo"
    and fits: "bo mod kBlockSize + length (physical_record n t d) \<le> kBlockSize"
    and t: "written_type t" and acc: "accepts r n t"
  shows "\<exists>r'. ReadPhysicalRecord res ds r = (t, d, ds, r') \<and>
    at r' S' (bo mod kBlockSize + length (physical_record n t d)) \<and> same_log r r' \<and>
    recycled r' = (recycled r \<or> is_recyclable_type t) \<and> first_record_read r' = first_record_read r"
proof -
  let ?x = "physical_record n t d"
  have len: "length d < 65536" "0 < length ?x"
    using fits by (auto simp: length_physical_record log_size_defs)
  have main: "\<exists>r'. ReadPhysicalRecord res ds q = (t, d, ds, r') \<and>
      at r' S' (bo mod kBlockSize + length ?x) \<and> same_log q r' \<and>
      recycled r' = (recycled q \<or> is_recyclable_type t) \<and> first_record_read r' = first_record_read q"
    if q: "at q (?x @ S') bo" "buffer q \<noteq> []" "accepts q n t" for q
  proof -
    obtain u where u: "buffer q = ?x @ u" "u @ sf_rest (lr_file q) = S'"
      using buffer_prefix [OF q(1) fits q(2)] .
    let ?q = "q\<lparr>recycled := recycled q \<or> is_recyclable_type t, buffer := u\<rparr>"
    have "(bo mod kBlockSize + length ?x) mod kBlockSize =
        (if bo mod kBlockSize + length ?x = kBlockSize then 0 else bo mod kBlockSize + length ?x)"
      using fits by auto
    moreover have "u = []" if "bo mod kBlockSize + length ?x = kBlockSize"
      "length (buffer q) = kBlockSize - bo mod kBlockSize"
    proof -
      have "length u = 0" using that unfolding u(1) length_append by linarith
      then show ?thesis by simp
    qed
    ultimately have "at ?q S' (bo mod kBlockSize + length ?x)"
      using q(1) u fits by (auto simp: at_def)
    then show ?thesis
      using ReadPhysicalRecord_physical_record [OF u(1) len(1) t q(3)]
      by (auto simp: same_log_def)
  qed
  show ?thesis
  proof (cases "buffer r = []")
    case False
    then show ?thesis using main at acc by blast
  next
    case True
    have "\<not> eof r" "bo mod kBlockSize = 0" "sf_rest (lr_file r) = ?x @ S'"
      using at True len(2) by (auto simp: at_def kBlockSize_def split: if_splits)
    note here = this
    obtain r1 where m: "ReadMore ds r = (True, 0, ds, r1)" "at r1 (?x @ S') 0"
      "buffer r1 = take kBlockSize (?x @ S')" "lr_reports r1 = lr_reports r" "recycled r1 = recycled r"
      "first_record_read r1 = first_record_read r" "lr_log_number r1 = lr_log_number r"
      using ReadMore_at [OF at here(1) here(3) [symmetric], of ds] by blast
    have r1: "ReadMore ds r = (True, 0, ds, r1)" "at r1 (?x @ S') bo" "buffer r1 \<noteq> []"
      "same_log r r1" "recycled r1 = recycled r" "first_record_read r1 = first_record_read r"
    proof -
      show "at r1 (?x @ S') bo" using m(2) at_mod [of bo 0 r1 "?x @ S'"] here(2) by simp
      have "0 < kBlockSize" by (simp add: kBlockSize_def)
      then show "buffer r1 \<noteq> []" using m(3) len(2) by (simp only: take_eq_Nil) simp
    qed (use m in \<open>simp_all add: same_log_def\<close>)
    have "accepts r1 n t" using acc r1 by (simp add: accepts_def same_log_def)
    moreover have "ReadPhysicalRecord res ds r = ReadPhysicalRecord res ds r1"
      using True r1(1) by (intro ReadPhysicalRecord_more) (auto simp: log_size_defs)
    ultimately show ?thesis
      using main [OF r1(2,3)] r1 by (auto intro: same_log_trans)
  qed
qed

section \<open>Reading a logical record\<close>

text \<open>
  Trailing zeroes of a block are skipped: fewer than a header by the next read, and the
  remaining four lengths as an empty record that is not reported.
\<close>

lemma read_pad_short:
  assumes at: "at r (replicate (kBlockSize - bo) 0 @ S') bo" and "bo < kBlockSize"
    and "kBlockSize - bo < kHeaderSize" and "S' \<noteq> []"
  shows "\<exists>r'. ReadPhysicalRecord res ds r = ReadPhysicalRecord res ds r' \<and> at r' S' 0 \<and>
    same_log r r' \<and> recycled r' = recycled r \<and> first_record_read r' = first_record_read r"
proof -
  have "\<not> eof r" using at_eof_fits [OF at] assms(2,4) by auto
  moreover have "buffer r \<noteq> [] \<Longrightarrow> buffer r = replicate (kBlockSize - bo) 0 \<and> sf_rest (lr_file r) = S'"
    using at assms(2) \<open>\<not> eof r\<close> by (auto simp: at_def)
  moreover have "buffer r \<noteq> []"
    using at assms \<open>\<not> eof r\<close> by (auto simp: at_def log_size_defs)
  ultimately have b: "\<not> eof r" "length (buffer r) < kHeaderSize" "S' = sf_rest (lr_file r)"
    using assms(3) by auto
  obtain r' where r': "ReadMore ds r = (True, 0, ds, r')" "at r' S' 0" "same_log r r'"
    "recycled r' = recycled r" "first_record_read r' = first_record_read r"
    using ReadMore_at [OF at b(1,3), of ds] by (auto simp: same_log_def)
  then show ?thesis using ReadPhysicalRecord_more [OF b(2) r'(1), of res] by blast
qed

lemma read_pad_long:
  assumes at: "at r (replicate (kBlockSize - bo) 0 @ S') bo" and "bo < kBlockSize"
    and "kHeaderSize \<le> kBlockSize - bo" "kBlockSize - bo < kRecyclableHeaderSize" and "S' \<noteq> []"
  shows "ReadPhysicalRecord res ds r = (kBadRecord, res, ds, r\<lparr>buffer := []\<rparr>)"
    and "at (r\<lparr>buffer := []\<rparr>) S' 0"
proof -
  have "\<not> eof r" using at_eof_fits [OF at] assms(2,5) by auto
  moreover have "buffer r \<noteq> []"
    using at assms(2-4) \<open>\<not> eof r\<close> by (auto simp: at_def log_size_defs)
  ultimately have b: "\<not> eof r" "buffer r = replicate (kBlockSize - bo) 0" "sf_rest (lr_file r) = S'"
    using at assms(2) by (auto simp: at_def)
  then have z: "buffer r ! 6 = 0" "record_length (buffer r) = 0" "length (buffer r) = kBlockSize - bo"
    using assms(3) by (auto simp: record_length_def log_size_defs)
  have "\<not> is_recyclable_type 0" by code_simp
  then show "ReadPhysicalRecord res ds r = (kBadRecord, res, ds, r\<lparr>buffer := []\<rparr>)"
    using z assms(3)
    by (subst ReadPhysicalRecord.simps)
       (simp add: take_record_def record_header_size_def kZeroType_def Let_def)
  show "at (r\<lparr>buffer := []\<rparr>) S' 0" using at b by (simp add: at_def)
qed

definition ready :: "bool \<Rightarrow> u64 \<Rightarrow> log_reader \<Rightarrow> bool" where
  "ready recycle n r \<longleftrightarrow>
     lr_log_number r = n \<and>
     (recycle \<longrightarrow> unat n < 2 ^ 32 \<and> (recycled r \<or> \<not> first_record_read r))"

lemma ready_accepts: "ready rc n r \<Longrightarrow> accepts r n (fragment_type rc b e)"
  by (auto simp: ready_def accepts_def recyclable_fragment)

lemma ReadRecord_loop_round:
  "ReadRecord_loop mode fn st r =
     (case ReadRecord_round mode fn st r of
        Inl result \<Rightarrow> Some result
      | Inr (st, r) \<Rightarrow> ReadRecord_loop mode fn st r)"
  by (rule ReadRecord_loop.simps)

text \<open>The loop arrives at the switch with the fragment.\<close>

definition reaches_switch ::
    "wal_recovery_mode \<Rightarrow> slice \<Rightarrow> read_state \<Rightarrow> log_reader \<Rightarrow> byte \<Rightarrow> slice \<Rightarrow> log_reader \<Rightarrow> bool" where
  "reaches_switch mode fn st r t d r' \<longleftrightarrow>
     (\<exists>off. ReadRecord_loop mode fn st r =
        (case ReadRecord_switch mode fn off t 0 (st\<lparr>fragment := d\<rparr>) r' of
           Inl result \<Rightarrow> Some result
         | Inr (st, r) \<Rightarrow> ReadRecord_loop mode fn st r))"

lemma reaches_switchI:
  assumes "ReadPhysicalRecord (fragment st) 0 r = (t, d, 0, r')"
  shows "reaches_switch mode fn st r t d r'"
  unfolding reaches_switch_def
  by (subst ReadRecord_loop_round) (auto simp: ReadRecord_round_def assms Let_def)

lemma length_fragment:
  "length (physical_record n (fragment_type rc b e) d) = header_bytes rc + length d"
  using written_type_fragment [of rc b e] recyclable_fragment [of rc b e]
  by (auto simp: length_physical_record header_bytes_def written_type_def)

lemma read_fragment_here:
  assumes at: "at r (physical_record n (fragment_type rc b e) d @ S') bo"
    and fits: "bo mod kBlockSize + header_bytes rc + length d \<le> kBlockSize"
    and ready: "ready rc n r"
  shows "\<exists>r'. ReadPhysicalRecord res 0 r = (fragment_type rc b e, d, 0, r') \<and>
    at r' S' (bo mod kBlockSize + header_bytes rc + length d) \<and> ready rc n r' \<and> same_log r r' \<and>
    (rc \<longrightarrow> recycled r')"
  using read_physical_at [OF at _ written_type_fragment ready_accepts [OF ready], of res 0] fits ready
  by (auto simp: length_fragment recyclable_fragment ready_def same_log_def add.assoc)

lemma read_fragment:
  assumes at: "at r (block_pad rc bo @ physical_record n (fragment_type rc b e) d @ S') bo"
    and fits: "block_start rc bo + header_bytes rc + length d \<le> kBlockSize" and bo: "bo \<le> kBlockSize"
    and ready: "ready rc n r" and mid: "in_fragmented_record st \<Longrightarrow> block_pad rc bo = []"
  shows "\<exists>r'. reaches_switch mode fn st r (fragment_type rc b e) d r' \<and>
    at r' S' (block_start rc bo + header_bytes rc + length d) \<and> ready rc n r' \<and> same_log r r' \<and>
    (rc \<longrightarrow> recycled r')"
proof (cases "block_pad rc bo = []")
  case True
  then have "bo mod kBlockSize = block_start rc bo"
    using bo header_bytes_bounds [of rc]
    by (cases "bo = kBlockSize") (auto simp: block_pad_def block_start_def split: if_splits)
  then show ?thesis
    using read_fragment_here [of r n rc b e d S' bo "fragment st"] at fits ready True
    by (auto intro: reaches_switchI)
next
  case False
  then have pad: "block_pad rc bo = replicate (kBlockSize - bo) 0" "bo < kBlockSize"
    "kBlockSize - bo < header_bytes rc" "block_start rc bo = 0"
    by (auto simp: block_pad_def block_start_def split: if_splits)
  let ?S = "physical_record n (fragment_type rc b e) d @ S'"
  have ne: "?S \<noteq> []" using length_fragment [of n rc b e d] header_bytes_bounds [of rc] by auto
  note here = read_fragment_here [of _ n rc b e d S' 0 "fragment st"]
  show ?thesis
  proof (cases "kBlockSize - bo < kHeaderSize")
    case True
    obtain r1 where r1: "ReadPhysicalRecord (fragment st) 0 r = ReadPhysicalRecord (fragment st) 0 r1"
      "at r1 ?S 0" "same_log r r1" "recycled r1 = recycled r" "first_record_read r1 = first_record_read r"
      using read_pad_short [of r bo ?S "fragment st" 0] at pad(1,2) True ne by auto
    then have "ready rc n r1" using ready by (simp add: ready_def same_log_def)
    then obtain r' where r': "ReadPhysicalRecord (fragment st) 0 r1 = (fragment_type rc b e, d, 0, r')"
      "at r' S' (header_bytes rc + length d)" "ready rc n r'" "same_log r1 r'" "rc \<longrightarrow> recycled r'"
      using here [OF r1(2)] fits pad(4) by auto
    have "reaches_switch mode fn st r (fragment_type rc b e) d r'"
      using r1(1) r'(1) by (intro reaches_switchI) simp
    moreover have "same_log r r'" using r1(3) r'(4) by (rule same_log_trans)
    ultimately show ?thesis using r' pad(4) by auto
  next
    case False
    let ?r = "r\<lparr>buffer := []\<rparr>"
    have long: "kHeaderSize \<le> kBlockSize - bo" "kBlockSize - bo < kRecyclableHeaderSize"
      using False pad(3) by (auto simp: header_bytes_def log_size_defs split: if_splits)
    have at0: "at r (replicate (kBlockSize - bo) 0 @ ?S) bo" using at pad(1) by simp
    note skip = read_pad_long(1) [OF at0 pad(2) long ne]
      and at' = read_pad_long(2) [OF at0 pad(2) long ne]
    have "ReadRecord_round mode fn st r = Inr (st, ?r)"
      using mid \<open>block_pad rc bo \<noteq> []\<close>
      by (auto simp: ReadRecord_round_def skip ReadRecord_switch_def on_bad_record_def
          reader_result_defs record_type_defs Let_def)
    then have "ReadRecord_loop mode fn st r = ReadRecord_loop mode fn st ?r"
      by (subst ReadRecord_loop_round) simp
    moreover have ready': "ready rc n ?r" "same_log r ?r" using ready by (simp_all add: ready_def same_log_def)
    obtain r' where r': "ReadPhysicalRecord (fragment st) 0 ?r = (fragment_type rc b e, d, 0, r')"
      "at r' S' (header_bytes rc + length d)" "ready rc n r'" "same_log ?r r'" "rc \<longrightarrow> recycled r'"
      using here [OF at' _ ready'(1)] fits pad(4) by auto
    have "reaches_switch mode fn st ?r (fragment_type rc b e) d r'"
      by (rule reaches_switchI [OF r'(1)])
    ultimately have "reaches_switch mode fn st r (fragment_type rc b e) d r'"
      by (simp only: reaches_switch_def)
    moreover have "same_log r r'" using ready'(2) r'(4) by (rule same_log_trans)
    ultimately show ?thesis using r' pad(4) by auto
  qed
qed

lemma switch_fragment:
  "ReadRecord_switch mode fn off (fragment_type rc True True) ds st r = on_full off st r"
  "ReadRecord_switch mode fn off (fragment_type rc True False) ds st r = on_first off st r"
  "ReadRecord_switch mode fn off (fragment_type rc False False) ds st r = on_middle st r"
  "ReadRecord_switch mode fn off (fragment_type rc False True) ds st r = on_last st r"
  by (simp_all add: ReadRecord_switch_def fragment_type_def record_type_defs)

lemma read_emitted:
  assumes "emits rc n bo data b bytes bo'"
    and "bo \<le> kBlockSize" and "at r (bytes @ S') bo" and "ready rc n r"
    and "in_fragmented_record st = (\<not> b)" and "\<not> b \<Longrightarrow> bo = kBlockSize"
  shows "\<exists>r'. ReadRecord_loop mode fn st r = Some (True, (if b then [] else scratch st) @ data, r') \<and>
    at r' S' bo' \<and> ready rc n r' \<and> same_log r r' \<and> bo' \<le> kBlockSize"
  using assms
proof (induction arbitrary: r st rule: emits.induct)
  case (emits_last bo0 bo data b)
  have mid: "in_fragmented_record st \<Longrightarrow> block_pad rc bo = []"
    using emits_last.prems by (simp add: block_pad_def)
  obtain r' where r': "reaches_switch mode fn st r (fragment_type rc b True) data r'"
    "at r' S' (bo0 + header_bytes rc + length data)" "ready rc n r'" "same_log r r'" "rc \<longrightarrow> recycled r'"
    using read_fragment [of r rc bo n b True data S' st mode fn] emits_last mid by auto
  let ?off = "\<lambda>off. if b then off else prospective_record_offset st"
  obtain off where "ReadRecord_loop mode fn st r = Some (True, (if b then [] else scratch st) @ data,
      r'\<lparr>last_record_offset := off, first_record_read := True\<rparr>)"
    using r'(1) emits_last.prems(4) switch_fragment(1,4)
    by (cases b) (auto simp: reaches_switch_def on_full_def on_last_def)
  moreover have "at (r'\<lparr>last_record_offset := off, first_record_read := True\<rparr>) S' (bo0 + header_bytes rc + length data)"
    using r'(2) by (simp add: at_def)
  moreover have "ready rc n (r'\<lparr>last_record_offset := off, first_record_read := True\<rparr>)"
    using r'(3,5) by (simp add: ready_def)
  moreover have "same_log r (r'\<lparr>last_record_offset := off, first_record_read := True\<rparr>)"
    using r'(4) by (simp add: same_log_def)
  ultimately show ?case using emits_last.hyps by blast
next
  case (emits_more bo0 bo avail data bytes bo' b)
  have mid: "in_fragmented_record st \<Longrightarrow> block_pad rc bo = []"
    using emits_more.prems by (simp add: block_pad_def)
  have len: "length (take avail data) = avail" "bo0 + header_bytes rc + avail = kBlockSize"
    using emits_more.hyps block_start_fits [of rc bo] by auto
  obtain r' where r': "reaches_switch mode fn st r (fragment_type rc b False) (take avail data) r'"
    "at r' (bytes @ S') kBlockSize" "ready rc n r'" "same_log r r'"
    using read_fragment [of r rc bo n b False "take avail data" "bytes @ S'" st mode fn] emits_more mid len
    by auto
  define st' where "st' off = (if b then st\<lparr>fragment := take avail data, prospective_record_offset := off,
      scratch := take avail data, in_fragmented_record := True\<rparr>
    else st\<lparr>fragment := take avail data, scratch := scratch st @ take avail data\<rparr>)" for off
  obtain off where loop: "ReadRecord_loop mode fn st r = ReadRecord_loop mode fn (st' off) r'"
    using r'(1) emits_more.prems(4) switch_fragment(2,3)
    by (cases b) (auto simp: reaches_switch_def on_first_def on_middle_def st'_def)
  have st': "in_fragmented_record (st' off) = (\<not> False)"
    "scratch (st' off) = (if b then [] else scratch st) @ take avail data"
    using emits_more.prems(4) by (simp_all add: st'_def)
  obtain r2 where "ReadRecord_loop mode fn (st' off) r' = Some (True, scratch (st' off) @ drop avail data, r2)"
    "at r2 S' bo'" "ready rc n r2" "same_log r' r2" "bo' \<le> kBlockSize"
    using emits_more.IH [of r' "st' off"] r' st' by auto
  then show ?case using loop st'(2) r'(4) same_log_trans [of r r' r2] by auto
qed

lemma read_end:
  assumes at: "at r [] bo" and "\<not> in_fragmented_record st"
  shows "\<exists>r'. ReadRecord_loop mode fn st r = Some (False, [], r') \<and> same_log r r'"
proof -
  have fin: "ReadPhysicalRecord res 0 q = (kEof, res, 0, q\<lparr>buffer := []\<rparr>)"
    if "buffer q = []" "eof q" for res q
    using that by (subst ReadPhysicalRecord.simps) (simp add: ReadMore_def log_size_defs)
  have "buffer r = []" "sf_rest (lr_file r) = []" using at by (simp_all add: at_def)
  have "\<exists>r'. ReadPhysicalRecord (fragment st) 0 r = (kEof, fragment st, 0, r') \<and> same_log r r'"
  proof (cases "eof r")
    case True
    then show ?thesis using fin [OF \<open>buffer r = []\<close>] by (auto simp: same_log_def)
  next
    case False
    obtain q where q: "ReadMore 0 r = (True, 0, 0, q)" "at q [] 0"
      "eof q \<or> length (buffer q) = kBlockSize" "buffer q = take kBlockSize []"
      "lr_reports q = lr_reports r" "lr_log_number q = lr_log_number r"
      using ReadMore_at [OF at False \<open>sf_rest (lr_file r) = []\<close> [symmetric], of 0] by blast
    have "ReadPhysicalRecord (fragment st) 0 r = ReadPhysicalRecord (fragment st) 0 q"
      using \<open>buffer r = []\<close> q(1) by (intro ReadPhysicalRecord_more) (auto simp: log_size_defs)
    moreover have "buffer q = []" "eof q" using q by (auto simp: kBlockSize_def)
    ultimately show ?thesis using fin [of q] q by (auto simp: same_log_def)
  qed
  then obtain r' where "ReadPhysicalRecord (fragment st) 0 r = (kEof, fragment st, 0, r')" "same_log r r'"
    by blast
  then show ?thesis
    using assms(2)
    by (subst ReadRecord_loop_round)
       (auto simp: ReadRecord_round_def ReadRecord_switch_def on_eof_def reader_result_defs
         record_type_defs Let_def)
qed

section \<open>Whole logs\<close>

text \<open>
  A sequence of successful writes, and the loop of a caller that reads until \<open>ReadRecord\<close>
  returns false.
\<close>

definition write_records :: "log_writer \<Rightarrow> slice list \<Rightarrow> log_writer" where
  "write_records w rs = foldl (\<lambda>w d. snd (AddRecord OK w d 0)) w rs"

partial_function (option) read_all ::
    "wal_recovery_mode \<Rightarrow> slice \<Rightarrow> log_reader \<Rightarrow> (slice list \<times> log_reader) option" where
  [code]: "read_all mode fn r =
     Option.bind (ReadRecord mode fn r) (\<lambda>(more_records, record_read, r).
       if more_records
       then Option.bind (read_all mode fn r) (\<lambda>(rs, r). Some (record_read # rs, r))
       else Some ([], r))"

lemma emits_offset: "emits rc n bo data b bytes bo' \<Longrightarrow> bo' \<le> kBlockSize"
  by (induction rule: emits.induct) auto

lemma read_written:
  assumes "healthy w" and "\<forall>d\<in>set rs. length d < 2 ^ 64" and "block_offset w \<le> kBlockSize"
  shows "\<exists>bytes. written (write_records w rs) = written w @ bytes \<and>
    (\<forall>r. at r bytes (block_offset w) \<longrightarrow> ready (recycle_log_files w) (lw_log_number w) r \<longrightarrow>
      (\<exists>r'. read_all mode fn r = Some (rs, r') \<and> same_log r r'))"
  using assms
proof (induction rs arbitrary: w)
  case Nil
  have "\<exists>r'. read_all mode fn r = Some ([], r') \<and> same_log r r'" if "at r [] (block_offset w)" for r
    using read_end [OF that, of
        "\<lparr>in_fragmented_record = False, scratch = [], prospective_record_offset = 0, fragment = []\<rparr>" mode fn]
    by (subst read_all.simps) (auto simp: ReadRecord_def)
  then show ?case by (auto simp: write_records_def)
next
  case (Cons d rs)
  let ?rc = "recycle_log_files w" and ?n = "lw_log_number w"
  define w1 where "w1 = snd (AddRecord OK w d 0)"
  obtain b1 bo where e: "emits ?rc ?n (block_offset w) d True b1 bo"
    and w1: "w1 = (append_to w b1 bo)\<lparr>last_seqno_recorded := max (last_seqno_recorded w) 0\<rparr>"
    using AddRecord_emits [OF Cons.prems(1), of d 0] Cons.prems(2) by (auto simp: w1_def)
  have h1: "healthy w1" "block_offset w1 = bo" "recycle_log_files w1 = ?rc" "lw_log_number w1 = ?n"
    "written w1 = written w @ b1"
    using Cons.prems(1) by (simp_all add: w1 healthy_def written_def append_to_def)
  obtain b2 where b2: "written (write_records w1 rs) = written w1 @ b2"
    "\<forall>r. at r b2 bo \<longrightarrow> ready ?rc ?n r \<longrightarrow> (\<exists>r'. read_all mode fn r = Some (rs, r') \<and> same_log r r')"
    using Cons.IH [of w1] h1 Cons.prems(2) emits_offset [OF e] by auto
  have "\<exists>r'. read_all mode fn r = Some (d # rs, r') \<and> same_log r r'"
    if r: "at r (b1 @ b2) (block_offset w)" "ready ?rc ?n r" for r
  proof -
    obtain r1 where r1: "ReadRecord mode fn r = Some (True, d, r1)" "at r1 b2 bo" "ready ?rc ?n r1" "same_log r r1"
      using read_emitted [OF e Cons.prems(3) r(1,2), of
          "\<lparr>in_fragmented_record = False, scratch = [], prospective_record_offset = 0, fragment = []\<rparr>" mode fn]
      by (auto simp: ReadRecord_def)
    obtain r2 where "read_all mode fn r1 = Some (rs, r2)" "same_log r1 r2" using b2(2) r1(2,3) by blast
    then show ?thesis
      using r1 by (subst read_all.simps) (auto intro: same_log_trans)
  qed
  then show ?case
    using b2(1) h1(5) by (intro exI [of _ "b1 @ b2"]) (auto simp: write_records_def w1_def)
qed

section \<open>Headers that no writer writes\<close>

text \<open>
  A recyclable record type in a file whose first record was not recyclable is refused before
  anything is consumed, so the loop of \<open>ReadRecord\<close> meets the same header for ever.
\<close>

definition stuck :: "log_reader \<Rightarrow> bool" where
  "stuck r \<longleftrightarrow>
     kHeaderSize \<le> length (buffer r) \<and> is_recyclable_type (buffer r ! 6) \<and>
     first_record_read r \<and> \<not> recycled r"

lemma ReadPhysicalRecord_stuck:
  "stuck r \<Longrightarrow> ReadPhysicalRecord res ds r = (kBadRecord, res, ds, r)"
  by (subst ReadPhysicalRecord.simps) (auto simp: stuck_def)

lemma ReadRecord_round_stuck:
  "stuck r \<Longrightarrow> \<not> in_fragmented_record st \<Longrightarrow> ReadRecord_round mode fn st r = Inr (st, r)"
  by (simp add: ReadRecord_round_def ReadPhysicalRecord_stuck ReadRecord_switch_def on_bad_record_def
      reader_result_defs record_type_defs Let_def)

lemma ReadRecord_loop_stuck:
  assumes "stuck r" and "\<not> in_fragmented_record st"
  shows "ReadRecord_loop mode fn st r = None"
proof -
  have "ReadRecord_loop mode fn st r = Some y \<Longrightarrow> stuck r \<longrightarrow> \<not> in_fragmented_record st \<longrightarrow> False" for y
  proof (induction rule: ReadRecord_loop.raw_induct [rotated, consumes 1, case_names step])
    case (step loop mode fn st r y)
    show ?case
    proof (intro impI)
      assume r: "stuck r" "\<not> in_fragmented_record st"
      then have "loop mode fn st r = Some y" using step(2) by (simp add: ReadRecord_round_stuck)
      then show False using step(1) r by (cases y) blast
    qed
  qed
  then show ?thesis using assms by (cases "ReadRecord_loop mode fn st r") blast+
qed

text \<open>
  A record of a type unknown to this version, in the short header format. Its type byte is
  what \<open>ReadPhysicalRecord\<close> returns, next to the results that stand for errors.
\<close>

definition future_record :: "byte \<Rightarrow> slice \<Rightarrow> slice" where
  "future_record t d =
     EncodeFixed32 (Mask (Value ([t] @ d))) @ [of_nat (length d), of_nat (length d div 256), t] @ d"

lemma ReadPhysicalRecord_future:
  assumes buf: "buffer r = future_record t d @ u" and len: "length d < 65536"
    and t: "\<not> is_recyclable_type t" "t \<noteq> kZeroType"
  shows "ReadPhysicalRecord res ds r = (t, d, ds, r\<lparr>buffer := u\<rparr>)"
proof -
  obtain c0 c1 c2 c3 where c: "EncodeFixed32 (Mask (Value ([t] @ d))) = [c0, c1, c2, c3]"
    by (simp add: EncodeFixed32_def)
  have h: "buffer r = [c0, c1, c2, c3, of_nat (length d), of_nat (length d div 256), t] @ d @ u"
    using buf c by (simp add: future_record_def)
  have crc: "DecodeFixed32 (buffer r) = Mask (Value ([t] @ d))"
    by (simp add: buf future_record_def)
  have "record_length (buffer r) = length d"
    using two_byte_length [OF len] by (simp add: record_length_def h)
  moreover have "record_header_size (buffer r) = 7" "buffer r ! 6 = t"
    using t by (simp_all add: record_header_size_def h kHeaderSize_def)
  moreover have "drop 6 (buffer r) = ([t] @ d) @ u" "drop 7 (buffer r) = d @ u" "length (buffer r) = 7 + length d + length u"
    by (simp_all add: h)
  moreover have "drop (7 + length d) (buffer r) = u"
    using \<open>drop 7 (buffer r) = d @ u\<close> by (metis add.commute append_eq_conv_conj drop_drop)
  ultimately show ?thesis
    using t crc by (subst ReadPhysicalRecord.simps)
      (simp add: take_record_def Let_def kHeaderSize_def)
qed

lemma ReadRecord_loop_unknown:
  assumes "buffer r = future_record t d @ u" and "length d < 65536" and "12 \<le> unat t" and "unat t \<noteq> 131"
  shows "ReadRecord_loop mode fn st r =
     (case ReadRecord_switch mode fn (end_of_buffer_offset r - length (buffer r)) t 0
         (st\<lparr>fragment := d\<rparr>) (r\<lparr>buffer := u\<rparr>) of
        Inl result \<Rightarrow> Some result
      | Inr (st, r) \<Rightarrow> ReadRecord_loop mode fn st r)"
proof -
  have "\<not> is_recyclable_type t" "t \<noteq> kZeroType"
    using assms(3,4) by (auto simp: is_recyclable_type_def record_type_defs word_le_nat_alt)
  then show ?thesis
    using ReadPhysicalRecord_future [OF assms(1,2)] by (subst ReadRecord_loop_round) (simp add: ReadRecord_round_def)
qed

lemma on_unknown_reported:
  "unat t < 128 \<Longrightarrow> on_unknown t st r = Inr (st\<lparr>in_fragmented_record := False, scratch := []\<rparr>,
     ReportCorruption (length (fragment st) + (if in_fragmented_record st then length (scratch st) else 0))
       (str ''unknown record type '' @ to_string (unat t)) r)"
  using word_lt_2p_bits [of t 7 7] and_exp_eq_0_iff_not_bit [of t 7]
  by (simp add: on_unknown_def kRecordTypeSafeIgnoreMask_def)

lemma on_unknown_ignored:
  assumes "128 \<le> unat t"
  shows "on_unknown t st r = Inr (st\<lparr>in_fragmented_record := False, scratch := []\<rparr>, r)"
proof -
  have "unat t < 256" using unsigned_less [of t, where 'a = nat] by simp
  then have "unat t div 128 = 1" using assms by simp
  then have "bit (unat t) 7" by (simp add: bit_iff_odd)
  then show ?thesis
    using and_exp_eq_0_iff_not_bit [of t 7]
    by (simp add: on_unknown_def kRecordTypeSafeIgnoreMask_def bit_unsigned_iff)
qed

section \<open>The log contracts\<close>

text \<open>
  C6: What a writer wrote is read back. Any sequence of records added to a fresh log without
  failures is returned record for record, whatever the sizes and the block boundaries, in
  every recovery mode, with or without checksum verification, for fresh and for recycled
  files; the reader then returns false and has reported nothing.
\<close>

theorem log_round_trip:
  assumes "\<forall>d\<in>set rs. length d < 2 ^ 64" and "recycle \<longrightarrow> unat n < 2 ^ 32"
  shows "\<exists>r'. read_all mode fn
      (Reader \<lparr>sf_rest = written (write_records
          (Writer \<lparr>wf_data = [], wf_seen_error = False, wf_outcomes = []\<rparr> n recycle manual ct track) rs),
         sf_outcomes = []\<rparr> rep chk n track' stop min_wal obs) = Some (rs, r') \<and>
    lr_reports r' = []"
proof -
  let ?w = "Writer \<lparr>wf_data = [], wf_seen_error = False, wf_outcomes = []\<rparr> n recycle manual ct track"
  have w: "healthy ?w" "block_offset ?w = 0" "recycle_log_files ?w = recycle" "lw_log_number ?w = n"
    "written ?w = []"
    by (simp_all add: Writer_def healthy_def written_def)
  obtain bytes where b: "written (write_records ?w rs) = bytes"
    "\<And>r. at r bytes 0 \<Longrightarrow> ready recycle n r \<Longrightarrow> \<exists>r'. read_all mode fn r = Some (rs, r') \<and> same_log r r'"
    using read_written [OF w(1) assms(1), of mode fn] w by auto
  let ?r = "Reader \<lparr>sf_rest = bytes, sf_outcomes = []\<rparr> rep chk n track' stop min_wal obs"
  have "at ?r bytes 0" "ready recycle n ?r" "lr_reports ?r = []"
    using assms(2) by (simp_all add: at_def ready_def Reader_def)
  then show ?thesis using b(2) [of ?r] by (auto simp: b(1) same_log_def)
qed

theorem log_round_trip_witness:
  "\<exists>r'. read_all kPointInTimeRecovery []
      (Reader \<lparr>sf_rest = written (write_records
          (Writer \<lparr>wf_data = [], wf_seen_error = False, wf_outcomes = []\<rparr> 5 True False 0 False)
          [[1, 2, 3], [], replicate 40000 7]), sf_outcomes = []\<rparr> True True 5 False False 0
        PredecessorWALInfo_default) = Some ([[1, 2, 3], [], replicate 40000 7], r') \<and>
    lr_reports r' = []"
  by (rule log_round_trip) simp_all

text \<open>
  C16: A header of a recyclable type in a log whose first record was not of one stops the
  reader for ever: \<open>ReadRecord\<close> does not return, in any recovery mode. The header is refused
  before its checksum is looked at and is not consumed.
\<close>

theorem ReadRecord_diverges_on_mixed_types:
  assumes "kHeaderSize \<le> length (buffer r)" and "is_recyclable_type (buffer r ! 6)"
    and "first_record_read r" and "\<not> recycled r"
  shows "ReadRecord mode fn r = None"
  unfolding ReadRecord_def using assms by (intro ReadRecord_loop_stuck) (simp_all add: stuck_def)

theorem ReadRecord_diverges_on_mixed_types_witness:
  "ReadRecord kTolerateCorruptedTailRecords []
     ((Reader \<lparr>sf_rest = [], sf_outcomes = []\<rparr> True True 5 False False 0 PredecessorWALInfo_default)
        \<lparr>buffer := [0, 0, 0, 0, 1, 0, 5, 42], first_record_read := True\<rparr>) = None"
  by (rule ReadRecord_diverges_on_mixed_types)
     (simp_all add: Reader_def kHeaderSize_def is_recyclable_type_def record_type_defs word_le_nat_alt)

text \<open>
  C17: What the reader does with an intact record of each type that the format does not define,
  between two logical records. Types from 12 to 127 are reported and skipped. Of the types with the
  eighth bit set, which are meant to be ignored, 128, 129, 133 and all above 137 are skipped without
  a report. The others are the internal result codes of the reader: 132 is taken for the end of the
  file, 134 for a truncated header and 135 for a record of an older log, which end the reading with
  the records behind them unread (135 is skipped in the mode that skips corrupted records); 136 and
  137 are taken for a wrong length and a wrong checksum, which end the reading or are reported.
\<close>

theorem unknown_record_types:
  fixes mode fn
  assumes "buffer r = future_record t d @ u" and "length d < 65536"
    and "\<not> in_fragmented_record st" and "scratch st = []"
  defines "skipped \<equiv> ReadRecord_loop mode fn (st\<lparr>fragment := d\<rparr>)" and "r' \<equiv> r\<lparr>buffer := u\<rparr>"
  shows "(12 \<le> unat t \<and> unat t < 128 \<longrightarrow> ReadRecord_loop mode fn st r =
      skipped (ReportCorruption (length d) (str ''unknown record type '' @ to_string (unat t)) r')) \<and>
    (t \<in> {128, 129, 133} \<or> 137 < unat t \<longrightarrow> ReadRecord_loop mode fn st r = skipped r') \<and>
    (t = 132 \<longrightarrow> ReadRecord_loop mode fn st r = Some (False, [], r')) \<and>
    (t = 134 \<longrightarrow> ReadRecord_loop mode fn st r =
      Some (False, [], if strict_mode mode then ReportCorruption 0 (str ''truncated header'') r' else r')) \<and>
    (t = 135 \<longrightarrow> ReadRecord_loop mode fn st r =
      (if mode = kSkipAnyCorruptedRecords then skipped r'
       else Some (False, [], if mode = kPointInTimeRecovery then ReportOldLogRecord 0 r' else r'))) \<and>
    (t = 136 \<and> eof r \<longrightarrow> ReadRecord_loop mode fn st r =
      Some (False, [], if strict_mode mode then ReportCorruption 0 (str ''truncated record body'') r' else r')) \<and>
    (t = 136 \<and> \<not> eof r \<or> t = 137 \<longrightarrow> ReadRecord_loop mode fn st r =
      (if recycled r \<and> mode = kTolerateCorruptedTailRecords then Some (False, [], r')
       else skipped (ReportCorruption 0
         (if t = 136 then str ''bad record length'' else str ''checksum mismatch'') r')))"
proof -
  let ?off = "end_of_buffer_offset r - length (buffer r)" and ?st = "st\<lparr>fragment := d\<rparr>"
  note round = ReadRecord_loop_unknown [OF assms(1,2), where mode = mode and fn = fn and st = st, folded r'_def]
  have same: "st\<lparr>fragment := d, in_fragmented_record := False, scratch := []\<rparr> = ?st"
    using assms(3,4) by simp
  have other: "ReadRecord_switch mode fn ?off t 0 ?st r' = on_unknown t ?st r'"
    if "12 \<le> unat t" "unat t < 128 \<or> t \<in> {128, 129} \<or> 137 < unat t"
    using that by (auto simp: ReadRecord_switch_def record_type_defs reader_result_defs)
  note codes = ReadRecord_switch_def record_type_defs reader_result_defs on_eof_def on_old_record_def
    on_bad_record_def on_bad_checksum_def assms(3,4)
  show ?thesis
  proof (intro conjI impI)
    show "12 \<le> unat t \<and> unat t < 128 \<Longrightarrow> ReadRecord_loop mode fn st r =
        skipped (ReportCorruption (length d) (str ''unknown record type '' @ to_string (unat t)) r')"
      using round other on_unknown_reported [of t ?st r'] same assms(3,4) by (auto simp: skipped_def)
    show "t \<in> {128, 129, 133} \<or> 137 < unat t \<Longrightarrow> ReadRecord_loop mode fn st r = skipped r'"
      using round other on_unknown_ignored [of t ?st r'] same by (auto simp: skipped_def codes)
  qed (use round in \<open>auto simp: skipped_def r'_def codes\<close>)
qed

theorem unknown_record_types_witness:
  "ReadRecord_loop kPointInTimeRecovery []
     \<lparr>in_fragmented_record = False, scratch = [], prospective_record_offset = 0, fragment = []\<rparr>
     ((Reader \<lparr>sf_rest = [], sf_outcomes = []\<rparr> True True 5 False False 0 PredecessorWALInfo_default)
        \<lparr>buffer := future_record 132 [7] @ physical_record 5 kFullType [8]\<rparr>) =
   Some (False, [],
     (Reader \<lparr>sf_rest = [], sf_outcomes = []\<rparr> True True 5 False False 0 PredecessorWALInfo_default)
        \<lparr>buffer := physical_record 5 kFullType [8]\<rparr>)"
  using unknown_record_types [of "(Reader \<lparr>sf_rest = [], sf_outcomes = []\<rparr> True True 5 False False 0
      PredecessorWALInfo_default)\<lparr>buffer := future_record 132 [7] @ physical_record 5 kFullType [8]\<rparr>"
      132 "[7]" "physical_record 5 kFullType [8]"
      "\<lparr>in_fragmented_record = False, scratch = [], prospective_record_offset = 0, fragment = []\<rparr>"
      kPointInTimeRecovery "[]"] by simp

text \<open>
  The number of a recycled log is written with 32 bits and compared with all 64, so a reader
  takes every record of a log from number 2 to the 32nd on for an old one.
\<close>

lemma large_log_number_is_old:
  assumes buf: "buffer r = physical_record n t d @ u" and len: "length d < 65536"
    and t: "written_type t" "is_recyclable_type t" and "lr_log_number r = n" "2 ^ 32 \<le> unat n"
    and first: "recycled r \<or> \<not> first_record_read r"
  shows "fst (ReadPhysicalRecord res ds r) = kOldRecord"
proof -
  note parts = physical_record_parts [OF buf]
  have lt: "\<not> legacy_type t" using t by (simp add: written_type_def)
  have "unat (ucast (ucast n :: u32) :: u64) < 2 ^ 32"
    using unsigned_less [of "ucast n :: u32", where 'a = nat] by (simp add: unat_ucast_up)
  then have "(ucast (ucast n :: u32) :: u64) \<noteq> n" using assms(6) by auto
  moreover have "record_length (buffer r) = length d"
    unfolding record_length_def parts(1,2) by (rule two_byte_length [OF len])
  moreover have "length (buffer r) = kRecyclableHeaderSize + length d + length u"
    using lt by (simp add: buf length_physical_record)
  ultimately show ?thesis
    using t(2) lt first assms(5) parts(3,6)
    by (subst ReadPhysicalRecord.simps)
       (auto simp: take_record_def record_header_size_def Let_def log_size_defs)
qed

end
