(* ===== verification/Binary_Heap.thy ===== *)
theory Binary_Heap
  imports Prelude "HOL-Library.Multiset"
begin

text \<open>
  The binary heap of \<open>util/heap.h\<close>, which the merging iterators use: an array heap whose root
  is the greatest element, with a cache of the greater child of the root. \<open>lt\<close> is the
  comparison object \<open>cmp_\<close>. The heaps of the engine hold pointers to items whose keys change
  while they are at the root, so the lemmas on \<open>replace_top\<close> and \<open>pop\<close> ask nothing of the old
  root.
\<close>

section \<open>The operations\<close>

text \<open>The largest \<open>size_t\<close>; as a cache it stands for no child.\<close>

definition size_max :: nat where
  "size_max = 2 ^ 64 - 1"

record 'a binary_heap =
  heap_data :: "'a list"
  root_cmp_cache :: nat

definition get_root :: nat where
  "get_root = 0"

definition get_parent :: "nat \<Rightarrow> nat" where
  "get_parent index = (index - 1) div 2"

definition get_left :: "nat \<Rightarrow> nat" where
  "get_left index = 2 * index + 1"

definition get_right :: "nat \<Rightarrow> nat" where
  "get_right index = 2 * index + 2"

definition BinaryHeap :: "'a binary_heap" where
  "BinaryHeap = \<lparr>heap_data = [], root_cmp_cache = size_max\<rparr>"

definition reset_root_cmp_cache :: "'a binary_heap \<Rightarrow> 'a binary_heap" where
  "reset_root_cmp_cache h = h\<lparr>root_cmp_cache := size_max\<rparr>"

definition heap_empty :: "'a binary_heap \<Rightarrow> bool" where
  "heap_empty h \<longleftrightarrow> heap_data h = []"

definition heap_size :: "'a binary_heap \<Rightarrow> nat" where
  "heap_size h = length (heap_data h)"

text \<open>The loops move a hole through the array; the value \<open>v\<close> is stored at the end.\<close>

function upheap_loop :: "('a \<Rightarrow> 'a \<Rightarrow> bool) \<Rightarrow> 'a \<Rightarrow> 'a list \<Rightarrow> nat \<Rightarrow> 'a list \<times> nat" where
  "upheap_loop lt v d index =
     (if index > get_root then
        let parent = get_parent index in
        if \<not> lt (d ! parent) v then (d, index)
        else upheap_loop lt v (d[index := d ! parent]) parent
      else (d, index))"
  by pat_completeness auto
termination
  by (relation "measure (\<lambda>(lt, v, d, index). index)") (auto simp: get_root_def get_parent_def)

declare upheap_loop.simps [simp del]

definition upheap :: "('a \<Rightarrow> 'a \<Rightarrow> bool) \<Rightarrow> nat \<Rightarrow> 'a binary_heap \<Rightarrow> 'a binary_heap" where
  "upheap lt index h =
     (let v = heap_data h ! index;
          (d, index) = upheap_loop lt v (heap_data h) index
      in reset_root_cmp_cache (h\<lparr>heap_data := d[index := v]\<rparr>))"

definition pick_child :: "('a \<Rightarrow> 'a \<Rightarrow> bool) \<Rightarrow> nat \<Rightarrow> 'a list \<Rightarrow> nat \<Rightarrow> nat" where
  "pick_child lt cache d index =
     (let left_child = get_left index;
          right_child = left_child + 1
      in if index = 0 \<and> cache < length d then cache
         else if right_child < length d \<and> lt (d ! left_child) (d ! right_child) then right_child
         else left_child)"

text \<open>
  The cache only ever holds a child of the root or \<open>size_max\<close> (\<open>cache_ok\<close> below is part of the
  invariant). The second disjunct of the exit test makes the recursion total for the states
  with the cache 0, which no operation produces.
\<close>

function downheap_loop ::
  "('a \<Rightarrow> 'a \<Rightarrow> bool) \<Rightarrow> nat \<Rightarrow> 'a \<Rightarrow> 'a list \<Rightarrow> nat \<Rightarrow> nat \<Rightarrow> 'a list \<times> nat \<times> nat" where
  "downheap_loop lt cache v d index picked_child =
     (if get_left index \<ge> length d then (d, index, picked_child)
      else
        let picked_child = pick_child lt cache d index in
        if \<not> lt v (d ! picked_child) \<or> picked_child \<le> index then (d, index, picked_child)
        else downheap_loop lt cache v (d[index := d ! picked_child]) picked_child picked_child)"
  by pat_completeness auto
termination
  by (relation "measure (\<lambda>(lt, cache, v, d, index, p). length d - index)")
     (auto simp: get_left_def)

declare downheap_loop.simps [simp del]

definition downheap :: "('a \<Rightarrow> 'a \<Rightarrow> bool) \<Rightarrow> nat \<Rightarrow> 'a binary_heap \<Rightarrow> 'a binary_heap" where
  "downheap lt index h =
     (let v = heap_data h ! index;
          (d, index, picked_child) =
            downheap_loop lt (root_cmp_cache h) v (heap_data h) index size_max;
          h = (if index = 0 then h\<lparr>root_cmp_cache := picked_child\<rparr> else reset_root_cmp_cache h)
      in h\<lparr>heap_data := d[index := v]\<rparr>)"

definition heap_push :: "('a \<Rightarrow> 'a \<Rightarrow> bool) \<Rightarrow> 'a \<Rightarrow> 'a binary_heap \<Rightarrow> 'a binary_heap" where
  "heap_push lt value h =
     upheap lt (length (heap_data h)) (h\<lparr>heap_data := heap_data h @ [value]\<rparr>)"

definition heap_top :: "'a binary_heap \<Rightarrow> 'a" where
  "heap_top h = hd (heap_data h)"

definition replace_top :: "('a \<Rightarrow> 'a \<Rightarrow> bool) \<Rightarrow> 'a \<Rightarrow> 'a binary_heap \<Rightarrow> 'a binary_heap" where
  "replace_top lt value h = downheap lt get_root (h\<lparr>heap_data := (heap_data h)[0 := value]\<rparr>)"

definition heap_pop :: "('a \<Rightarrow> 'a \<Rightarrow> bool) \<Rightarrow> 'a binary_heap \<Rightarrow> 'a binary_heap" where
  "heap_pop lt h =
     (let d = heap_data h;
          d = (if length d > 1 then d[0 := last d] else d);
          h = h\<lparr>heap_data := butlast d\<rparr>
      in if \<not> heap_empty h then downheap lt get_root h else reset_root_cmp_cache h)"

definition heap_clear :: "'a binary_heap \<Rightarrow> 'a binary_heap" where
  "heap_clear h = reset_root_cmp_cache (h\<lparr>heap_data := []\<rparr>)"

definition heap_swap :: "'a binary_heap \<Rightarrow> 'a binary_heap \<Rightarrow> 'a binary_heap \<times> 'a binary_heap" where
  "heap_swap h other = (other, h)"

section \<open>The invariant\<close>

lemma parent_less: "0 < i \<Longrightarrow> get_parent i < i"
  by (simp add: get_parent_def)

lemma get_parent_self [simp]: "get_parent i = i \<longleftrightarrow> i = 0" "i = get_parent i \<longleftrightarrow> i = 0"
  by (auto simp: get_parent_def)

lemma get_parent_eq_iff: "0 < i \<Longrightarrow> get_parent i = k \<longleftrightarrow> i = get_left k \<or> i = get_right k"
  by (auto simp: get_parent_def get_left_def get_right_def)

text \<open>
  \<open>edges_ok lt d P\<close>: no element is above its parent, for the positions in \<open>P\<close>. The cache, when
  it is an index, is the greater child of the root.
\<close>

definition edges_ok :: "('a \<Rightarrow> 'a \<Rightarrow> bool) \<Rightarrow> 'a list \<Rightarrow> (nat \<Rightarrow> bool) \<Rightarrow> bool" where
  "edges_ok lt d P \<longleftrightarrow> (\<forall>i. 0 < i \<longrightarrow> i < length d \<longrightarrow> P i \<longrightarrow> \<not> lt (d ! get_parent i) (d ! i))"

definition cache_ok :: "('a \<Rightarrow> 'a \<Rightarrow> bool) \<Rightarrow> 'a list \<Rightarrow> nat \<Rightarrow> bool" where
  "cache_ok lt d cache \<longleftrightarrow>
     (cache < length d \<longrightarrow> (cache = 1 \<or> cache = 2) \<and>
        (\<forall>c. (c = 1 \<or> c = 2) \<longrightarrow> c < length d \<longrightarrow> \<not> lt (d ! cache) (d ! c)))"

definition heap_ok :: "('a \<Rightarrow> 'a \<Rightarrow> bool) \<Rightarrow> 'a binary_heap \<Rightarrow> bool" where
  "heap_ok lt h \<longleftrightarrow>
     edges_ok lt (heap_data h) (\<lambda>i. True) \<and> cache_ok lt (heap_data h) (root_cmp_cache h) \<and>
     length (heap_data h) \<le> size_max"

text \<open>The same without the edges at the root.\<close>

definition heap_below_ok :: "('a \<Rightarrow> 'a \<Rightarrow> bool) \<Rightarrow> 'a binary_heap \<Rightarrow> bool" where
  "heap_below_ok lt h \<longleftrightarrow>
     edges_ok lt (heap_data h) (\<lambda>i. get_parent i \<noteq> 0) \<and>
     cache_ok lt (heap_data h) (root_cmp_cache h) \<and> length (heap_data h) \<le> size_max"

lemma heap_ok_below: "heap_ok lt h \<Longrightarrow> heap_below_ok lt h"
  by (simp add: heap_ok_def heap_below_ok_def edges_ok_def)

text \<open>Keys that change at the root only keep the order below it.\<close>

lemma heap_below_ok_cong:
  assumes "heap_below_ok lt h"
    and "\<And>a b. a \<in> set (tl (heap_data h)) \<Longrightarrow> b \<in> set (tl (heap_data h)) \<Longrightarrow> lt' a b = lt a b"
  shows "heap_below_ok lt' h"
proof -
  have tl: "heap_data h ! i \<in> set (tl (heap_data h))" if "0 < i" "i < length (heap_data h)" for i
    using that by (cases i) (auto simp: set_conv_nth nth_tl intro!: exI [of _ "i - 1"])
  have par: "get_parent i < length (heap_data h)" if "i < length (heap_data h)" for i
    using that by (simp add: get_parent_def)
  show ?thesis
    using assms tl par unfolding heap_below_ok_def edges_ok_def cache_ok_def
    by (smt (verit, best) neq0_conv less_numeral_extra(1) zero_less_numeral)
qed

lemma heap_below_ok_shrink:
  assumes ok: "heap_below_ok lt h" and len: "length d \<le> length (heap_data h)"
    and nth: "\<And>i. 0 < i \<Longrightarrow> i < length d \<Longrightarrow> d ! i = heap_data h ! i"
  shows "heap_below_ok lt (h\<lparr>heap_data := d\<rparr>)"
proof -
  have "edges_ok lt d (\<lambda>i. get_parent i \<noteq> 0)"
    unfolding edges_ok_def
  proof (intro allI impI)
    fix i assume i: "0 < i" "i < length d" "get_parent i \<noteq> 0"
    then show "\<not> lt (d ! get_parent i) (d ! i)"
      using nth [of i] nth [of "get_parent i"] parent_less [of i] ok len
      by (auto simp: heap_below_ok_def edges_ok_def)
  qed
  moreover have "cache_ok lt d (root_cmp_cache h)"
    using ok len nth by (auto simp: heap_below_ok_def cache_ok_def)
  ultimately show ?thesis using ok len by (simp add: heap_below_ok_def)
qed

locale heap_order =
  fixes lt :: "'a \<Rightarrow> 'a \<Rightarrow> bool"
    and valid :: "'a \<Rightarrow> bool"
  assumes lt_asym: "valid a \<Longrightarrow> valid b \<Longrightarrow> lt a b \<Longrightarrow> \<not> lt b a"
    and not_lt_trans:
      "valid a \<Longrightarrow> valid b \<Longrightarrow> valid c \<Longrightarrow> \<not> lt a b \<Longrightarrow> \<not> lt b c \<Longrightarrow> \<not> lt a c"
begin

lemma not_lt_self: "valid a \<Longrightarrow> \<not> lt a a"
  using lt_asym by blast

text \<open>
  The state of the upward loop: a hole at \<open>k\<close> for \<open>v\<close>, which is above everything below the
  hole; around the hole the order holds.
\<close>

definition up_state :: "'a list \<Rightarrow> 'a \<Rightarrow> nat \<Rightarrow> bool" where
  "up_state d v k \<longleftrightarrow> k < length d \<and> (\<forall>x\<in>set (d[k := v]). valid x) \<and>
     edges_ok lt d (\<lambda>i. i \<noteq> k \<and> get_parent i \<noteq> k) \<and>
     (\<forall>i. 0 < i \<longrightarrow> i < length d \<longrightarrow> get_parent i = k \<longrightarrow>
        \<not> lt v (d ! i) \<and> (0 < k \<longrightarrow> \<not> lt (d ! get_parent k) (d ! i)))"

lemma valid_nth:
  assumes "\<forall>x\<in>set (d[k := v]). valid x" "k < length d"
  shows "valid v" and "i < length d \<Longrightarrow> i \<noteq> k \<Longrightarrow> valid (d ! i)"
  using assms by (metis length_list_update nth_list_update_eq nth_mem,
    metis length_list_update nth_list_update_neq nth_mem)

lemma mset_move_hole:
  assumes "k < length d" "p < length d" "p \<noteq> k"
  shows "mset (d[k := d ! p, p := v]) = mset (d[k := v])"
  using mset_swap [of p "d[k := v]" k] assms by simp

lemma valid_move_hole:
  assumes "k < length d" "p < length d" "p \<noteq> k" "\<forall>x\<in>set (d[k := v]). valid x"
  shows "\<forall>x\<in>set (d[k := d ! p, p := v]). valid x"
  using assms mset_move_hole [OF assms(1-3), of v] by (metis mset_eq_setD)

lemma up_state_step:
  assumes st: "up_state d v k" and k: "0 < k" and l: "lt (d ! get_parent k) v"
  shows "up_state (d[k := d ! get_parent k]) v (get_parent k)"
proof -
  let ?p = "get_parent k"
  have len: "k < length d" "?p < length d" "?p \<noteq> k"
    using st k parent_less [OF k] by (auto simp: up_state_def)
  note valid = valid_nth [of d k v]
  have vd: "\<forall>x\<in>set (d[k := v]). valid x" using st by (simp add: up_state_def)
  have e: "\<not> lt (d ! get_parent i) (d ! i)" if "0 < i" "i < length d" "i \<noteq> k" "get_parent i \<noteq> k" for i
    using st that by (auto simp: up_state_def edges_ok_def)
  have below: "\<not> lt (d ! ?p) (d ! i)" if "0 < i" "i < length d" "get_parent i = k" for i
    using st k that by (auto simp: up_state_def)
  have sib: "\<not> lt v (d ! i) \<and> (0 < ?p \<longrightarrow> \<not> lt (d ! get_parent ?p) (d ! i))"
    if i: "0 < i" "i < length d" "get_parent i = ?p" "i \<noteq> k" for i
  proof -
    have vi: "valid (d ! i)" "valid (d ! ?p)" "valid v" using valid vd len i by auto
    have pi: "\<not> lt (d ! ?p) (d ! i)" using e i len(3) by metis
    moreover have "\<not> lt v (d ! i)"
      using vi pi l lt_asym [of v "d ! i"] not_lt_trans [of "d ! ?p" "d ! i" v] by blast
    moreover have "\<not> lt (d ! get_parent ?p) (d ! i)" if p: "0 < ?p"
    proof -
      have "get_parent ?p < ?p" "?p < k" using p k parent_less by auto
      then have "valid (d ! get_parent ?p)" "\<not> lt (d ! get_parent ?p) (d ! ?p)"
        using valid vd len p e [of ?p] by auto
      then show ?thesis using vi pi not_lt_trans by blast
    qed
    ultimately show ?thesis by blast
  qed
  have top: "\<not> lt v (d ! ?p) \<and> (0 < ?p \<longrightarrow> \<not> lt (d ! get_parent ?p) (d ! ?p))"
  proof -
    have "valid v" "valid (d ! ?p)" using valid vd len by auto
    moreover have "get_parent ?p \<noteq> k" if "0 < ?p" using parent_less [OF that] parent_less [OF k] by simp
    ultimately show ?thesis using l lt_asym e [of ?p] len by blast
  qed
  show ?thesis
    unfolding up_state_def
  proof (intro conjI)
    show "?p < length (d[k := d ! ?p])" using len by simp
    show "\<forall>x\<in>set (d[k := d ! ?p, ?p := v]). valid x" by (rule valid_move_hole [OF len vd])
    show "edges_ok lt (d[k := d ! ?p]) (\<lambda>i. i \<noteq> ?p \<and> get_parent i \<noteq> ?p)"
      using e below len by (auto simp: edges_ok_def nth_list_update)
    show "\<forall>i. 0 < i \<longrightarrow> i < length (d[k := d ! ?p]) \<longrightarrow> get_parent i = ?p \<longrightarrow>
        \<not> lt v (d[k := d ! ?p] ! i) \<and>
        (0 < ?p \<longrightarrow> \<not> lt (d[k := d ! ?p] ! get_parent ?p) (d[k := d ! ?p] ! i))"
    proof (intro allI impI)
      fix i assume i: "0 < i" "i < length (d[k := d ! ?p])" "get_parent i = ?p"
      have "get_parent ?p \<noteq> k" if "0 < ?p" using parent_less [OF that] parent_less [OF k] by simp
      then show "\<not> lt v (d[k := d ! ?p] ! i) \<and>
          (0 < ?p \<longrightarrow> \<not> lt (d[k := d ! ?p] ! get_parent ?p) (d[k := d ! ?p] ! i))"
        using i top sib [of i] len by (cases "i = k") auto
    qed
  qed
qed

end

context heap_order
begin

lemma up_state_stop:
  assumes st: "up_state d v k" and stop: "0 < k \<Longrightarrow> \<not> lt (d ! get_parent k) v"
  shows "edges_ok lt (d[k := v]) (\<lambda>i. True)"
  using st stop by (auto simp: up_state_def edges_ok_def nth_list_update)

lemma upheap_loop_ok:
  assumes "up_state d v k" and "upheap_loop lt v d k = (d', k')"
  shows "k' < length d'" "mset (d'[k' := v]) = mset (d[k := v])" "edges_ok lt (d'[k' := v]) (\<lambda>i. True)"
    "length d' = length d"
proof -
  have "k' < length d' \<and> mset (d'[k' := v]) = mset (d[k := v]) \<and> edges_ok lt (d'[k' := v]) (\<lambda>i. True) \<and>
      length d' = length d"
    using assms
  proof (induction k arbitrary: d rule: less_induct)
    case (less k)
    note loop = less.prems(2)
    show ?case
    proof (cases "0 < k \<and> lt (d ! get_parent k) v")
      case True
      let ?d = "d[k := d ! get_parent k]"
      have "up_state ?d v (get_parent k)" using up_state_step less.prems(1) True by blast
      moreover have "upheap_loop lt v ?d (get_parent k) = (d', k')"
        using loop True by (subst (asm) upheap_loop.simps) (simp add: get_root_def Let_def)
      moreover have "mset (?d[get_parent k := v]) = mset (d[k := v])"
        using less.prems(1) True parent_less [of k] by (intro mset_move_hole) (auto simp: up_state_def)
      ultimately show ?thesis using less.IH [of "get_parent k" ?d] parent_less [of k] True by simp
    next
      case False
      then have "d' = d" "k' = k"
        using loop by (subst (asm) upheap_loop.simps, auto simp: get_root_def Let_def split: if_splits)+
      then show ?thesis using up_state_stop [OF less.prems(1)] less.prems(1) False
        by (auto simp: up_state_def)
    qed
  qed
  then show "k' < length d'" "mset (d'[k' := v]) = mset (d[k := v])"
    "edges_ok lt (d'[k' := v]) (\<lambda>i. True)" "length d' = length d" by auto
qed

lemma heap_push_ok:
  assumes ok: "heap_ok lt h" and vh: "\<forall>x\<in>set (heap_data h). valid x" and v: "valid v"
    and room: "length (heap_data h) < size_max"
  shows "heap_ok lt (heap_push lt v h)"
    and "mset (heap_data (heap_push lt v h)) = mset (heap_data h) + {#v#}"
proof -
  let ?d = "heap_data h @ [v]" and ?k = "length (heap_data h)"
  obtain d' k' where loop: "upheap_loop lt v ?d ?k = (d', k')" by force
  have e: "\<not> lt (?d ! get_parent i) (?d ! i)" if "0 < i" "i < ?k" for i
    using ok that parent_less [of i] by (auto simp: heap_ok_def edges_ok_def nth_append)
  have np: "get_parent i \<noteq> ?k" if "i \<le> ?k" "0 < i" for i using that parent_less [of i] by simp
  have st: "up_state ?d v ?k"
    using vh v e np by (auto simp: up_state_def edges_ok_def less_Suc_eq)
  note l = upheap_loop_ok [OF st loop]
  have "heap_push lt v h = h\<lparr>heap_data := d'[k' := v], root_cmp_cache := size_max\<rparr>"
    using loop by (simp add: heap_push_def upheap_def reset_root_cmp_cache_def)
  then show "heap_ok lt (heap_push lt v h)"
      "mset (heap_data (heap_push lt v h)) = mset (heap_data h) + {#v#}"
    using l room by (simp_all add: heap_ok_def cache_ok_def)
qed

text \<open>
  The state of the downward loop: a hole at \<open>k\<close> for \<open>v\<close>, and everything below the hole is also
  below its parent.
\<close>

definition down_state :: "'a list \<Rightarrow> 'a \<Rightarrow> nat \<Rightarrow> bool" where
  "down_state d v k \<longleftrightarrow> k < length d \<and> (\<forall>x\<in>set (d[k := v]). valid x) \<and>
     edges_ok lt d (\<lambda>i. i \<noteq> k \<and> get_parent i \<noteq> k) \<and>
     (0 < k \<longrightarrow> \<not> lt (d ! get_parent k) v \<and>
        (\<forall>i. 0 < i \<longrightarrow> i < length d \<longrightarrow> get_parent i = k \<longrightarrow> \<not> lt (d ! get_parent k) (d ! i)))"

definition greater_child :: "'a list \<Rightarrow> nat \<Rightarrow> nat \<Rightarrow> bool" where
  "greater_child d k c \<longleftrightarrow> 0 < c \<and> c < length d \<and> get_parent c = k \<and>
     (\<forall>i. 0 < i \<longrightarrow> i < length d \<longrightarrow> get_parent i = k \<longrightarrow> \<not> lt (d ! c) (d ! i))"

lemma pick_child_greater:
  assumes st: "down_state d v k" and cache: "k = 0 \<Longrightarrow> cache_ok lt d cache" and "get_left k < length d"
  shows "greater_child d k (pick_child lt cache d k)"
proof -
  have valid: "valid (d ! i)" if "0 < i" "i < length d" "get_parent i = k" for i
    using that st valid_nth(2) [of d k v i] parent_less [of i] by (auto simp: down_state_def)
  have kids: "get_parent (get_left k) = k" "get_parent (get_right k) = k" "0 < get_left k"
      "0 < get_right k" "get_left k + 1 = get_right k"
    by (auto simp: get_parent_def get_left_def get_right_def)
  have iff: "greater_child d k c \<longleftrightarrow>
      \<not> lt (d ! c) (d ! get_left k) \<and> (get_right k < length d \<longrightarrow> \<not> lt (d ! c) (d ! get_right k))"
    if "c < length d" "c = get_left k \<or> c = get_right k" for c
    using that kids(1-4) assms(3) by (auto simp: greater_child_def get_parent_eq_iff)
  show ?thesis
  proof (cases "k = 0 \<and> cache < length d")
    case True
    then have "cache = get_left k \<or> cache = get_right k" "pick_child lt cache d k = cache"
      using cache by (simp_all add: cache_ok_def get_left_def get_right_def pick_child_def numeral_2_eq_2)
    moreover have "\<not> lt (d ! cache) (d ! get_left k)"
        "get_right k < length d \<Longrightarrow> \<not> lt (d ! cache) (d ! get_right k)"
      using True cache assms(3) by (simp_all add: cache_ok_def get_left_def get_right_def numeral_2_eq_2)
    ultimately show ?thesis using iff True by simp
  next
    case False
    have left: "valid (d ! get_left k)" using valid kids assms(3) by blast
    show ?thesis
    proof (cases "get_right k < length d \<and> lt (d ! get_left k) (d ! get_right k)")
      case right: True
      then have "valid (d ! get_right k)" using valid kids by blast
      moreover have "pick_child lt cache d k = get_right k"
        using False right kids(5) by (auto simp: pick_child_def)
      ultimately show ?thesis using iff right left lt_asym not_lt_self by simp
    next
      case no_right: False
      then have "pick_child lt cache d k = get_left k"
        using False kids(5) by (auto simp: pick_child_def)
      then show ?thesis using iff no_right assms(3) left not_lt_self by simp
    qed
  qed
qed

lemma down_state_step:
  assumes st: "down_state d v k" and c: "greater_child d k c" and l: "lt v (d ! c)"
  shows "down_state (d[k := d ! c]) v c"
proof -
  have len: "k < length d" "c < length d" "c \<noteq> k" and pc: "get_parent c = k" "0 < c"
    using st c parent_less [of c] by (auto simp: down_state_def greater_child_def)
  have vd: "\<forall>x\<in>set (d[k := v]). valid x" using st by (simp add: down_state_def)
  have e: "\<not> lt (d ! get_parent i) (d ! i)" if "0 < i" "i < length d" "i \<noteq> k" "get_parent i \<noteq> k" for i
    using st that by (auto simp: down_state_def edges_ok_def)
  have sib: "\<not> lt (d ! c) (d ! i)" if "0 < i" "i < length d" "get_parent i = k" for i
    using c that by (auto simp: greater_child_def)
  have up: "\<not> lt (d ! get_parent k) (d ! c)" if "0 < k"
    using st len pc that by (auto simp: down_state_def)
  have "i \<noteq> k" if "get_parent i = c" for i
    using that parent_less [of k] pc parent_less [of c] by (cases "k = 0") (auto simp: get_parent_def)
  then have gkid: "i \<noteq> k \<and> \<not> lt (d ! c) (d ! i)" if "0 < i" "i < length d" "get_parent i = c" for i
    using e [of i] that len(3) by auto
  have gkid': "\<forall>i. 0 < i \<longrightarrow> i < length d \<longrightarrow> get_parent i = c \<longrightarrow> \<not> lt (d ! c) (d[k := d ! c] ! i)"
    using gkid len by (metis nth_list_update_neq)
  have "valid v" "valid (d ! c)" using valid_nth [OF vd len(1)] len by auto
  then have "\<not> lt (d ! c) v" using l lt_asym by blast
  moreover have "edges_ok lt (d[k := d ! c]) (\<lambda>i. i \<noteq> c \<and> get_parent i \<noteq> c)"
    unfolding edges_ok_def
  proof (intro allI impI)
    fix i assume i: "0 < i" "i < length (d[k := d ! c])" "i \<noteq> c \<and> get_parent i \<noteq> c"
    then show "\<not> lt (d[k := d ! c] ! get_parent i) (d[k := d ! c] ! i)"
      using e [of i] sib [of i] up len by (cases "i = k"; cases "get_parent i = k") auto
  qed
  ultimately show ?thesis
    using len pc valid_move_hole [OF len vd] gkid' unfolding down_state_def by simp
qed

lemma down_state_stop:
  assumes st: "down_state d v k"
    and stop: "\<And>i. 0 < i \<Longrightarrow> i < length d \<Longrightarrow> get_parent i = k \<Longrightarrow> \<not> lt v (d ! i)"
  shows "edges_ok lt (d[k := v]) (\<lambda>i. True)"
  using st stop by (auto simp: down_state_def edges_ok_def nth_list_update)

end

context heap_order
begin

lemma greater_child_cache:
  assumes "greater_child d 0 c"
  shows "cache_ok lt (d[0 := v]) c"
proof -
  have "get_parent 1 = 0" "get_parent 2 = 0" by (simp_all add: get_parent_def)
  moreover have "c = 1 \<or> c = 2"
    using assms get_parent_eq_iff [of c 0] by (auto simp: greater_child_def get_left_def get_right_def)
  ultimately show ?thesis using assms by (auto simp: greater_child_def cache_ok_def)
qed

lemma downheap_loop_ok:
  assumes "down_state d v k" and "k = 0 \<Longrightarrow> cache_ok lt d cache" and "length d \<le> size_max"
    and "k = 0 \<Longrightarrow> p = size_max" and "downheap_loop lt cache v d k p = (d', k', p')"
  shows "k' < length d' \<and> k \<le> k' \<and> length d' = length d \<and> mset (d'[k' := v]) = mset (d[k := v]) \<and>
    edges_ok lt (d'[k' := v]) (\<lambda>i. True) \<and> (k' = 0 \<longrightarrow> cache_ok lt (d'[k' := v]) p')"
  using assms
proof (induction "length d - k" arbitrary: d k p rule: less_induct)
  case less
  note st = less.prems(1) and loop = less.prems(5)
  have k: "k < length d" using st by (simp add: down_state_def)
  show ?case
  proof (cases "get_left k < length d")
    case False
    then have eq: "d' = d" "k' = k" "p' = p"
      using loop by (subst (asm) downheap_loop.simps, simp)+
    have "\<not> lt v (d ! i)" if "0 < i" "i < length d" "get_parent i = k" for i
      using that False get_parent_eq_iff [of i k] by (auto simp: get_left_def get_right_def)
    then show ?thesis
      using eq k down_state_stop [OF st] less.prems(3,4) by (auto simp: cache_ok_def)
  next
    case True
    define c where "c = pick_child lt cache d k"
    have c: "greater_child d k c"
      unfolding c_def using pick_child_greater [OF st less.prems(2) True] by blast
    then have ck: "k < c" "c < length d" using parent_less [of c] by (auto simp: greater_child_def)
    have vd: "\<forall>x\<in>set (d[k := v]). valid x" using st by (simp add: down_state_def)
    show ?thesis
    proof (cases "lt v (d ! c)")
      case False
      then have eq: "d' = d" "k' = k" "p' = c"
        using loop True by (subst (asm) downheap_loop.simps, simp add: c_def [symmetric])+
      have "\<not> lt v (d ! i)" if "0 < i" "i < length d" "get_parent i = k" for i
      proof -
        have "i \<noteq> k" "c \<noteq> k" using that ck parent_less [of i] by auto
        then have "valid (d ! i)" "valid (d ! c)" "valid v"
          using valid_nth [OF vd k] that(2) ck by auto
        moreover have "\<not> lt (d ! c) (d ! i)" using c that by (auto simp: greater_child_def)
        ultimately show ?thesis using False not_lt_trans by blast
      qed
      then show ?thesis
        using eq k down_state_stop [OF st] greater_child_cache [of d c v] c by auto
    next
      case l: True
      have "downheap_loop lt cache v (d[k := d ! c]) c c = (d', k', p')"
        using loop True l ck by (subst (asm) downheap_loop.simps) (simp add: c_def [symmetric])
      moreover have "mset (d[k := d ! c, c := v]) = mset (d[k := v])"
        using mset_move_hole [of k d c v] k ck by simp
      ultimately show ?thesis
        using less.hyps [of "d[k := d ! c]" c c] down_state_step [OF st c l] ck k less.prems(3)
          diff_less_mono2 [OF ck(1) k] by auto
    qed
  qed
qed

lemma downheap_root_ok:
  assumes ok: "heap_below_ok lt h" and valid: "\<forall>x\<in>set (heap_data h). valid x" and "heap_data h \<noteq> []"
  shows "heap_ok lt (downheap lt get_root h)"
    and "mset (heap_data (downheap lt get_root h)) = mset (heap_data h)"
proof -
  let ?d = "heap_data h" and ?v = "heap_data h ! 0"
  obtain d' k' p' where loop: "downheap_loop lt (root_cmp_cache h) ?v ?d 0 size_max = (d', k', p')"
    using prod_cases3 by blast
  have "down_state ?d ?v 0"
    using assms by (auto simp: down_state_def heap_below_ok_def edges_ok_def)
  from downheap_loop_ok [OF this _ _ _ loop] ok
  have l: "k' < length d'" "length d' = length ?d" "mset (d'[k' := ?v]) = mset ?d"
      "edges_ok lt (d'[k' := ?v]) (\<lambda>i. True)" "k' = 0 \<Longrightarrow> cache_ok lt (d'[k' := ?v]) p'"
    by (auto simp: heap_below_ok_def)
  have "downheap lt get_root h =
      h\<lparr>heap_data := d'[k' := ?v], root_cmp_cache := (if k' = 0 then p' else size_max)\<rparr>"
    using loop by (simp add: downheap_def get_root_def reset_root_cmp_cache_def)
  moreover have "length ?d \<le> size_max" using ok by (simp add: heap_below_ok_def)
  ultimately show "heap_ok lt (downheap lt get_root h)"
      "mset (heap_data (downheap lt get_root h)) = mset (heap_data h)"
    using l by (auto simp: heap_ok_def cache_ok_def)
qed

lemma replace_top_ok:
  assumes ok: "heap_below_ok lt h" and valid: "\<forall>x\<in>set (tl (heap_data h)). valid x"
    and v: "valid v" and ne: "heap_data h \<noteq> []"
  shows "heap_ok lt (replace_top lt v h)"
    and "mset (heap_data (replace_top lt v h)) = mset (tl (heap_data h)) + {#v#}"
proof -
  let ?h = "h\<lparr>heap_data := (heap_data h)[0 := v]\<rparr>"
  have eq: "(heap_data h)[0 := v] = v # tl (heap_data h)" using ne by (cases "heap_data h") auto
  have "heap_below_ok lt ?h"
    by (rule heap_below_ok_shrink [OF ok]) simp_all
  moreover have "\<forall>x\<in>set (heap_data ?h). valid x" using valid v eq by simp
  moreover have "heap_data ?h \<noteq> []" using ne by simp
  ultimately show "heap_ok lt (replace_top lt v h)"
      "mset (heap_data (replace_top lt v h)) = mset (tl (heap_data h)) + {#v#}"
    using downheap_root_ok [of ?h] eq by (simp_all add: replace_top_def)
qed

lemma heap_pop_ok:
  assumes ok: "heap_below_ok lt h" and valid: "\<forall>x\<in>set (tl (heap_data h)). valid x"
    and ne: "heap_data h \<noteq> []"
  shows "heap_ok lt (heap_pop lt h)"
    and "mset (heap_data (heap_pop lt h)) = mset (tl (heap_data h))"
proof -
  obtain a r where d: "heap_data h = a # r" using ne by (cases "heap_data h") auto
  have "heap_ok lt (heap_pop lt h) \<and> mset (heap_data (heap_pop lt h)) = mset r"
  proof (cases r rule: rev_cases)
    case Nil
    then show ?thesis
      using d by (simp add: heap_pop_def heap_empty_def reset_root_cmp_cache_def heap_ok_def
          edges_ok_def cache_ok_def)
  next
    case (snoc s l)
    let ?h = "h\<lparr>heap_data := l # s\<rparr>"
    have pop: "heap_pop lt h = downheap lt get_root ?h"
      using d snoc by (simp add: heap_pop_def heap_empty_def butlast_append)
    have nth: "heap_data h ! i = (l # s) ! i" if "0 < i" "i < length (l # s)" for i
      using that d snoc by (cases i) (simp_all add: nth_append)
    have "heap_below_ok lt ?h"
      using heap_below_ok_shrink [OF ok, of "l # s"] nth d snoc by simp
    moreover have "\<forall>x\<in>set (heap_data ?h). valid x" using valid d snoc by simp
    ultimately show ?thesis using downheap_root_ok [of ?h] pop snoc by simp
  qed
  then show "heap_ok lt (heap_pop lt h)" "mset (heap_data (heap_pop lt h)) = mset (tl (heap_data h))"
    using d by simp_all
qed

lemma heap_top_greatest:
  assumes ok: "heap_ok lt h" and valid: "\<forall>x\<in>set (heap_data h). valid x" and "x \<in> set (heap_data h)"
  shows "\<not> lt (heap_top h) x"
proof -
  let ?d = "heap_data h"
  have ne: "?d \<noteq> []" using assms(3) by auto
  have "\<not> lt (?d ! 0) (?d ! i)" if "i < length ?d" for i
    using that
  proof (induction i rule: less_induct)
    case (less i)
    show ?case
    proof (cases "i = 0")
      case True
      then show ?thesis using valid ne not_lt_self by simp
    next
      case False
      let ?p = "get_parent i"
      have "?p < i" using False parent_less by blast
      then have "\<not> lt (?d ! 0) (?d ! ?p)" "\<not> lt (?d ! ?p) (?d ! i)"
        using less ok False by (auto simp: heap_ok_def edges_ok_def)
      then show ?thesis
        using not_lt_trans [of "?d ! 0" "?d ! ?p" "?d ! i"] valid less.prems \<open>?p < i\<close> ne by simp
    qed
  qed
  then show ?thesis using assms(3) ne by (auto simp: heap_top_def hd_conv_nth in_set_conv_nth)
qed

end

end
