(* ===== verification/Compaction_Merge.thy ===== *)
theory Compaction_Merge
  imports Dbformat Binary_Heap
begin

text \<open>
  The iterator a compaction reads its input with (\<open>table/compaction_merging_iterator.cc\<close>): it
  merges the sorted runs under it by a heap of pointers to heap items. The start keys of range
  tombstones take part in the merge as keys of their own; the sentinel keys at file boundaries
  are skipped, and passing one installs the range tombstones of the next file.

  The iterators under it are the environment. A child iterator is the list of the entries from
  its position on, with the status it has once the list is exhausted and the positions its
  seeks lead to; a range tombstone iterator is the list of the start keys from its position on.
  A heap item is named by its type and level, as a pointer into \<open>children_\<close> or
  \<open>pinned_heap_item_\<close>; its key is looked up in the state, so it changes when the item's
  iterator moves.
\<close>

section \<open>The iterators under the merge\<close>

record tombstone_iter =
  rt_rest :: "ParsedInternalKey list"
  rt_all :: "ParsedInternalKey list"
  rt_seek :: "slice \<Rightarrow> ParsedInternalKey list"

text \<open>
  A boundary is the sentinel key of a file; moving past it installs the range tombstone
  iterator of the next file, none if the file has no range tombstones.
\<close>

datatype run_entry =
  Point slice slice
| Boundary slice "tombstone_iter option"

fun entry_key :: "run_entry \<Rightarrow> slice" where
  "entry_key (Point k v) = k"
| "entry_key (Boundary k t) = k"

fun entry_value :: "run_entry \<Rightarrow> slice" where
  "entry_value (Point k v) = v"
| "entry_value (Boundary k t) = []"

fun is_sentinel :: "run_entry \<Rightarrow> bool" where
  "is_sentinel (Point k v) = False"
| "is_sentinel (Boundary k t) = True"

text \<open>
  The seeks of a child return its new position and, for an iterator over several files, the
  range tombstone iterator that the file it lands in installs.
\<close>

type_synonym child_move = "run_entry list \<times> tombstone_iter option option"

record child_iter =
  ci_rest :: "run_entry list"
  ci_status :: status
  ci_first :: child_move
  ci_seek :: "slice \<Rightarrow> child_move"

section \<open>The merging iterator\<close>

datatype heap_item = ITERATOR nat | DELETE_RANGE_START nat

record merging_iter =
  mi_children :: "child_iter list"
  pinned_heap_item :: "slice list"
  range_tombstone_iters :: "tombstone_iter option list"
  mi_current :: "heap_item option"
  mi_status :: status
  minHeap :: "heap_item binary_heap"

definition CompactionMergingIterator ::
    "child_iter list \<Rightarrow> tombstone_iter option list \<Rightarrow> merging_iter" where
  "CompactionMergingIterator children range_tombstones =
     \<lparr>mi_children = children, pinned_heap_item = replicate (length children) [],
      range_tombstone_iters = range_tombstones, mi_current = None, mi_status = OK,
      minHeap = BinaryHeap\<rparr>"

definition considerStatus :: "status \<Rightarrow> merging_iter \<Rightarrow> merging_iter" where
  "considerStatus s m = (if \<not> ok s \<and> ok (mi_status m) then m\<lparr>mi_status := s\<rparr> else m)"

text \<open>The entries in front of a child; a level that does not exist has none.\<close>

definition child_rest :: "merging_iter \<Rightarrow> nat \<Rightarrow> run_entry list" where
  "child_rest m level =
     (if level < length (mi_children m) then ci_rest (mi_children m ! level) else [])"

definition child_move_to :: "child_move \<Rightarrow> nat \<Rightarrow> merging_iter \<Rightarrow> merging_iter" where
  "child_move_to mv level m =
     (let m = m\<lparr>mi_children := (mi_children m)[level := (mi_children m ! level)\<lparr>ci_rest := fst mv\<rparr>]\<rparr>
      in case snd mv of
           None \<Rightarrow> m
         | Some t \<Rightarrow> m\<lparr>range_tombstone_iters := (range_tombstone_iters m)[level := t]\<rparr>)"

definition child_Next :: "nat \<Rightarrow> merging_iter \<Rightarrow> merging_iter" where
  "child_Next level m =
     (case child_rest m level of
        [] \<Rightarrow> m
      | Point k v # r \<Rightarrow> child_move_to (r, None) level m
      | Boundary k t # r \<Rightarrow> child_move_to (r, Some t) level m)"

fun HeapItem_key :: "merging_iter \<Rightarrow> heap_item \<Rightarrow> slice" where
  "HeapItem_key m (ITERATOR level) = entry_key (hd (child_rest m level))"
| "HeapItem_key m (DELETE_RANGE_START level) = pinned_heap_item m ! level"

text \<open>The comparison object of the heap, over the internal key comparator \<open>cmp\<close>.\<close>

definition CompactionHeapItemComparator ::
    "(slice \<Rightarrow> slice \<Rightarrow> int) \<Rightarrow> merging_iter \<Rightarrow> heap_item \<Rightarrow> heap_item \<Rightarrow> bool" where
  "CompactionHeapItemComparator cmp m a b \<longleftrightarrow> cmp (HeapItem_key m a) (HeapItem_key m b) > 0"

definition minHeap_push :: "(slice \<Rightarrow> slice \<Rightarrow> int) \<Rightarrow> heap_item \<Rightarrow> merging_iter \<Rightarrow> merging_iter" where
  "minHeap_push cmp i m =
     m\<lparr>minHeap := heap_push (CompactionHeapItemComparator cmp m) i (minHeap m)\<rparr>"

definition minHeap_replace_top ::
    "(slice \<Rightarrow> slice \<Rightarrow> int) \<Rightarrow> heap_item \<Rightarrow> merging_iter \<Rightarrow> merging_iter" where
  "minHeap_replace_top cmp i m =
     m\<lparr>minHeap := replace_top (CompactionHeapItemComparator cmp m) i (minHeap m)\<rparr>"

definition minHeap_pop :: "(slice \<Rightarrow> slice \<Rightarrow> int) \<Rightarrow> merging_iter \<Rightarrow> merging_iter" where
  "minHeap_pop cmp m = m\<lparr>minHeap := heap_pop (CompactionHeapItemComparator cmp m) (minHeap m)\<rparr>"

definition Valid :: "merging_iter \<Rightarrow> bool" where
  "Valid m \<longleftrightarrow> mi_current m \<noteq> None \<and> ok (mi_status m)"

definition merged_key :: "merging_iter \<Rightarrow> slice" where
  "merged_key m = HeapItem_key m (the (mi_current m))"

definition merged_value :: "merging_iter \<Rightarrow> slice" where
  "merged_value m =
     (case the (mi_current m) of
        ITERATOR level \<Rightarrow> entry_value (hd (child_rest m level))
      | DELETE_RANGE_START level \<Rightarrow> [])"

definition IsDeleteRangeSentinelKey :: "merging_iter \<Rightarrow> bool" where
  "IsDeleteRangeSentinelKey m \<longleftrightarrow>
     (case the (mi_current m) of ITERATOR level \<Rightarrow> False | DELETE_RANGE_START level \<Rightarrow> True)"

definition CurrentForward :: "merging_iter \<Rightarrow> heap_item option" where
  "CurrentForward m = (if \<not> heap_empty (minHeap m) then Some (heap_top (minHeap m)) else None)"

definition AddToMinHeapOrCheckStatus ::
    "(slice \<Rightarrow> slice \<Rightarrow> int) \<Rightarrow> nat \<Rightarrow> merging_iter \<Rightarrow> merging_iter" where
  "AddToMinHeapOrCheckStatus cmp level m =
     (if child_rest m level \<noteq> [] then minHeap_push cmp (ITERATOR level) m
      else considerStatus (ci_status (mi_children m ! level)) m)"

text \<open>The start keys from the position of the range tombstone iterator of a level on.\<close>

definition level_tombstones :: "merging_iter \<Rightarrow> nat \<Rightarrow> ParsedInternalKey list" where
  "level_tombstones m level =
     (case range_tombstone_iters m ! level of None \<Rightarrow> [] | Some it \<Rightarrow> rt_rest it)"

definition SetTombstoneForCompaction :: "nat \<Rightarrow> ParsedInternalKey \<Rightarrow> merging_iter \<Rightarrow> merging_iter" where
  "SetTombstoneForCompaction level pik m =
     m\<lparr>pinned_heap_item := (pinned_heap_item m)[level := AppendInternalKey [] pik]\<rparr>"

definition InsertRangeTombstoneAtLevel ::
    "(slice \<Rightarrow> slice \<Rightarrow> int) \<Rightarrow> nat \<Rightarrow> merging_iter \<Rightarrow> merging_iter" where
  "InsertRangeTombstoneAtLevel cmp level m =
     (case level_tombstones m level of
        [] \<Rightarrow> m
      | pik # _ \<Rightarrow>
          minHeap_push cmp (DELETE_RANGE_START level) (SetTombstoneForCompaction level pik m))"

definition tombstone_Next :: "nat \<Rightarrow> merging_iter \<Rightarrow> merging_iter" where
  "tombstone_Next level m =
     (case range_tombstone_iters m ! level of
        None \<Rightarrow> m
      | Some it \<Rightarrow> m\<lparr>range_tombstone_iters :=
          (range_tombstone_iters m)[level := Some (it\<lparr>rt_rest := tl (rt_rest it)\<rparr>)]\<rparr>)"

text \<open>After a child has moved: back into the heap, or out of it.\<close>

definition restore_top :: "(slice \<Rightarrow> slice \<Rightarrow> int) \<Rightarrow> nat \<Rightarrow> merging_iter \<Rightarrow> merging_iter" where
  "restore_top cmp level m =
     (if child_rest m level \<noteq> [] then minHeap_replace_top cmp (ITERATOR level) m
      else minHeap_pop cmp (considerStatus (ci_status (mi_children m ! level)) m))"

text \<open>The children only move by \<open>child_move_to\<close>.\<close>

lemma merging_iter_frame [simp]:
  "mi_children (considerStatus s m) = mi_children m"
  "mi_children (minHeap_push cmp i m) = mi_children m"
  "mi_children (minHeap_replace_top cmp i m) = mi_children m"
  "mi_children (minHeap_pop cmp m) = mi_children m"
  "mi_children (restore_top cmp l m) = mi_children m"
  "mi_children (SetTombstoneForCompaction l k m) = mi_children m"
  "mi_children (InsertRangeTombstoneAtLevel cmp l m) = mi_children m"
  "mi_children (tombstone_Next l m) = mi_children m"
  by (simp_all add: considerStatus_def minHeap_push_def minHeap_replace_top_def minHeap_pop_def
      restore_top_def SetTombstoneForCompaction_def InsertRangeTombstoneAtLevel_def tombstone_Next_def
      split: list.split option.split)

lemma mi_children_move [simp]:
  "mi_children (child_move_to mv l m) = (mi_children m)[l := (mi_children m ! l)\<lparr>ci_rest := fst mv\<rparr>]"
  by (simp add: child_move_to_def Let_def split: option.split)

definition entries_left :: "merging_iter \<Rightarrow> nat" where
  "entries_left m = sum_list (map (length \<circ> ci_rest) (mi_children m))"

lemma entries_left_child_Next:
  assumes "child_rest m l = e # r"
  shows "entries_left (child_Next l m) < entries_left m"
proof -
  have l: "l < length (mi_children m)" "ci_rest (mi_children m ! l) = e # r"
    using assms by (auto simp: child_rest_def split: if_splits)
  have "mi_children (child_Next l m) = (mi_children m)[l := (mi_children m ! l)\<lparr>ci_rest := r\<rparr>]"
    using assms by (cases e) (simp_all add: child_Next_def)
  then have "entries_left (child_Next l m) =
      sum_list ((map (length \<circ> ci_rest) (mi_children m))[l := length r])"
    by (simp add: entries_left_def map_update)
  moreover have "length (e # r) \<le> entries_left m"
    using l elem_le_sum_list [of l "map (length \<circ> ci_rest) (mi_children m)"] by (simp add: entries_left_def)
  ultimately show ?thesis
    using l sum_list_update [of l "map (length \<circ> ci_rest) (mi_children m)" "length r"]
    by (simp add: entries_left_def)
qed

function FindNextVisibleKey :: "(slice \<Rightarrow> slice \<Rightarrow> int) \<Rightarrow> merging_iter \<Rightarrow> merging_iter" where
  "FindNextVisibleKey cmp m =
     (if heap_empty (minHeap m) then m
      else
        case heap_top (minHeap m) of
          DELETE_RANGE_START level \<Rightarrow> m
        | ITERATOR level \<Rightarrow>
            (case child_rest m level of
               [] \<Rightarrow> m
             | e # r \<Rightarrow>
                 if \<not> is_sentinel e then m
                 else FindNextVisibleKey cmp
                   (InsertRangeTombstoneAtLevel cmp level
                     (restore_top cmp level (child_Next level m)))))"
  by pat_completeness auto
termination
proof (relation "measure (\<lambda>(cmp, m). entries_left m)", goal_cases)
  case 1
  show ?case by simp
next
  case (2 cmp m level e r)
  then show ?case using entries_left_child_Next [OF 2(3)] by (simp add: entries_left_def)
qed

declare FindNextVisibleKey.simps [simp del]

definition find_and_set_current :: "(slice \<Rightarrow> slice \<Rightarrow> int) \<Rightarrow> merging_iter \<Rightarrow> merging_iter" where
  "find_and_set_current cmp m =
     (let m = FindNextVisibleKey cmp m in m\<lparr>mi_current := CurrentForward m\<rparr>)"

text \<open>The two loops over the levels that a seek runs.\<close>

definition seek_children ::
    "(slice \<Rightarrow> slice \<Rightarrow> int) \<Rightarrow> (child_iter \<Rightarrow> child_move) \<Rightarrow> merging_iter \<Rightarrow> merging_iter" where
  "seek_children cmp mv m =
     fold (\<lambda>level m. AddToMinHeapOrCheckStatus cmp level
             (child_move_to (mv (mi_children m ! level)) level m))
       [0..<length (mi_children m)] m"

definition seek_tombstones ::
    "(slice \<Rightarrow> slice \<Rightarrow> int) \<Rightarrow> (tombstone_iter \<Rightarrow> ParsedInternalKey list) \<Rightarrow> merging_iter \<Rightarrow> merging_iter" where
  "seek_tombstones cmp mv m =
     fold (\<lambda>level m.
             case range_tombstone_iters m ! level of
               None \<Rightarrow> m
             | Some it \<Rightarrow> InsertRangeTombstoneAtLevel cmp level
                 (m\<lparr>range_tombstone_iters :=
                      (range_tombstone_iters m)[level := Some (it\<lparr>rt_rest := mv it\<rparr>)]\<rparr>))
       [0..<length (range_tombstone_iters m)] m"

definition SeekToFirst :: "(slice \<Rightarrow> slice \<Rightarrow> int) \<Rightarrow> merging_iter \<Rightarrow> merging_iter" where
  "SeekToFirst cmp m =
     (let m = m\<lparr>minHeap := heap_clear (minHeap m), mi_status := OK\<rparr>;
          m = seek_children cmp ci_first m;
          m = seek_tombstones cmp rt_all m
      in find_and_set_current cmp m)"

text \<open>
  \<open>ucmp\<close> is the user comparator; a target that does not parse leaves \<open>pik\<close> as it was
  constructed, which is the argument \<open>pik0\<close>.
\<close>

definition Seek ::
    "(slice \<Rightarrow> slice \<Rightarrow> int) \<Rightarrow> ParsedInternalKey \<Rightarrow> slice \<Rightarrow> merging_iter \<Rightarrow> merging_iter" where
  "Seek ucmp pik0 target m =
     (let cmp = InternalKeyCompare ucmp;
          m = m\<lparr>minHeap := heap_clear (minHeap m), mi_status := OK\<rparr>;
          m = seek_children cmp (\<lambda>c. ci_seek c target) m;
          pik = (case snd (ParseInternalKey target False) of None \<Rightarrow> pik0 | Some p \<Rightarrow> p);
          m = seek_tombstones cmp
                (\<lambda>it. dropWhile (\<lambda>start. InternalKeyCompare_parsed ucmp start pik < 0)
                        (rt_seek it (user_key pik))) m
      in find_and_set_current cmp m)"

definition Next :: "(slice \<Rightarrow> slice \<Rightarrow> int) \<Rightarrow> merging_iter \<Rightarrow> merging_iter" where
  "Next cmp m =
     (case the (mi_current m) of
        ITERATOR level \<Rightarrow> find_and_set_current cmp (restore_top cmp level (child_Next level m))
      | DELETE_RANGE_START level \<Rightarrow>
          (let m = tombstone_Next level m in
           find_and_set_current cmp
             (case level_tombstones m level of
                [] \<Rightarrow> minHeap_pop cmp m
              | pik # _ \<Rightarrow>
                  minHeap_replace_top cmp (DELETE_RANGE_START level)
                    (SetTombstoneForCompaction level pik m))))"

section \<open>Well-formed runs\<close>

text \<open>
  A run at a position is the entries in front of the child and the start keys of the range
  tombstones of the current file. Keys do not decrease along each, the start keys of a file are
  before its boundary, and everything of the next file is at or after the boundary.
\<close>

definition tomb_keys :: "tombstone_iter option \<Rightarrow> slice list" where
  "tomb_keys t = (case t of None \<Rightarrow> [] | Some it \<Rightarrow> map (AppendInternalKey []) (rt_rest it))"

fun run_ok :: "(slice \<Rightarrow> slice \<Rightarrow> int) \<Rightarrow> (slice \<Rightarrow> bool) \<Rightarrow> run_entry list \<Rightarrow> slice list \<Rightarrow> bool" where
  "run_ok cmp valid [] ts \<longleftrightarrow> (\<forall>x\<in>set ts. valid x) \<and> sorted_wrt (\<lambda>a b. cmp a b \<le> 0) ts"
| "run_ok cmp valid (Point k v # es) ts \<longleftrightarrow>
     valid k \<and> run_ok cmp valid es ts \<and> (\<forall>e\<in>set (take 1 es). cmp k (entry_key e) \<le> 0)"
| "run_ok cmp valid (Boundary k t # es) ts \<longleftrightarrow>
     valid k \<and> (\<forall>x\<in>set ts. valid x \<and> cmp x k < 0) \<and> sorted_wrt (\<lambda>a b. cmp a b \<le> 0) ts \<and>
     run_ok cmp valid es (tomb_keys t) \<and> (\<forall>e\<in>set (take 1 es). cmp k (entry_key e) \<le> 0) \<and>
     (\<forall>x\<in>set (tomb_keys t). cmp k x \<le> 0)"

text \<open>What the merge is to return for a run: its points, and its start keys without a value.\<close>

fun run_output :: "run_entry list \<Rightarrow> slice list \<Rightarrow> (slice \<times> slice) multiset" where
  "run_output [] ts = mset (map (\<lambda>k. (k, [])) ts)"
| "run_output (Point k v # es) ts = add_mset (k, v) (run_output es ts)"
| "run_output (Boundary k t # es) ts =
     mset (map (\<lambda>k. (k, [])) ts) + run_output es (tomb_keys t)"

lemma run_ok_tombs: "run_ok cmp valid es ts \<Longrightarrow> (\<forall>x\<in>set ts. valid x) \<and> sorted_wrt (\<lambda>a b. cmp a b \<le> 0) ts"
  by (induction cmp valid es ts rule: run_ok.induct) auto

lemma run_ok_tl: "run_ok cmp valid es (t # ts) \<Longrightarrow> run_ok cmp valid es ts"
  by (induction cmp valid es "t # ts" rule: run_ok.induct) auto

lemma run_output_tl: "run_output es (t # ts) = add_mset (t, []) (run_output es ts)"
  by (induction es "t # ts" rule: run_output.induct) auto

lemma run_ok_head: "run_ok cmp valid (e # es) ts \<Longrightarrow> valid (entry_key e)"
  by (cases e) auto

definition level_keys :: "merging_iter \<Rightarrow> nat \<Rightarrow> slice list" where
  "level_keys m l = map (AppendInternalKey []) (level_tombstones m l)"

lemma level_keys_tomb_keys: "level_keys m l = tomb_keys (range_tombstone_iters m ! l)"
  by (simp add: level_keys_def level_tombstones_def tomb_keys_def split: option.split)

abbreviation levels :: "merging_iter \<Rightarrow> nat" where
  "levels m \<equiv> length (mi_children m)"

definition levels_ok :: "(slice \<Rightarrow> slice \<Rightarrow> int) \<Rightarrow> (slice \<Rightarrow> bool) \<Rightarrow> merging_iter \<Rightarrow> bool" where
  "levels_ok cmp valid m \<longleftrightarrow>
     length (range_tombstone_iters m) = levels m \<and> length (pinned_heap_item m) = levels m \<and>
     2 * levels m \<le> size_max \<and> ok (mi_status m) \<and> (\<forall>c\<in>set (mi_children m). ok (ci_status c)) \<and>
     (\<forall>l<levels m. run_ok cmp valid (child_rest m l) (level_keys m l))"

text \<open>The pinned key of a level that has a start key in front of it.\<close>

definition pinned_ok :: "merging_iter \<Rightarrow> nat \<Rightarrow> bool" where
  "pinned_ok m l \<longleftrightarrow> (level_keys m l \<noteq> [] \<longrightarrow> pinned_heap_item m ! l = hd (level_keys m l))"

definition live :: "merging_iter \<Rightarrow> heap_item set" where
  "live m = {ITERATOR l |l. l < levels m \<and> child_rest m l \<noteq> []} \<union>
     {DELETE_RANGE_START l |l. l < levels m \<and> level_keys m l \<noteq> []}"

definition heap_holds :: "(slice \<Rightarrow> slice \<Rightarrow> int) \<Rightarrow> merging_iter \<Rightarrow> heap_item set \<Rightarrow> bool" where
  "heap_holds cmp m S \<longleftrightarrow> heap_ok (CompactionHeapItemComparator cmp m) (minHeap m) \<and>
     distinct (heap_data (minHeap m)) \<and> set (heap_data (minHeap m)) = S"

definition merge_inv :: "(slice \<Rightarrow> slice \<Rightarrow> int) \<Rightarrow> (slice \<Rightarrow> bool) \<Rightarrow> merging_iter \<Rightarrow> bool" where
  "merge_inv cmp valid m \<longleftrightarrow> levels_ok cmp valid m \<and> (\<forall>l<levels m. pinned_ok m l) \<and>
     heap_holds cmp m (live m)"

definition output_left :: "merging_iter \<Rightarrow> (slice \<times> slice) multiset" where
  "output_left m = (\<Sum>l<levels m. run_output (child_rest m l) (level_keys m l))"

definition at_least :: "(slice \<Rightarrow> slice \<Rightarrow> int) \<Rightarrow> slice \<Rightarrow> merging_iter \<Rightarrow> bool" where
  "at_least cmp k m \<longleftrightarrow> (\<forall>i\<in>live m. cmp k (HeapItem_key m i) \<le> 0)"

lemma heap_ok_cong:
  assumes "heap_ok lt h" and "\<And>a b. a \<in> set (heap_data h) \<Longrightarrow> b \<in> set (heap_data h) \<Longrightarrow> lt' a b = lt a b"
  shows "heap_ok lt' h"
proof -
  have par: "get_parent i < length (heap_data h)" if "i < length (heap_data h)" for i
    using that by (simp add: get_parent_def)
  show ?thesis
    using assms par nth_mem unfolding heap_ok_def edges_ok_def cache_ok_def
    by (smt (verit))
qed

lemma heap_holds_cong:
  assumes "heap_holds cmp m S" and "minHeap m' = minHeap m"
    and "\<And>i. i \<in> S \<Longrightarrow> HeapItem_key m' i = HeapItem_key m i"
  shows "heap_holds cmp m' S"
  using assms heap_ok_cong [of "CompactionHeapItemComparator cmp m" "minHeap m"
      "CompactionHeapItemComparator cmp m'"]
  by (auto simp: heap_holds_def CompactionHeapItemComparator_def)

text \<open>A sum over the levels changes by what one level changes.\<close>

lemma sum_level_change:
  fixes f g :: "nat \<Rightarrow> 'b::comm_monoid_add"
  assumes "l < n" "f l = g l + x" "\<And>i. i < n \<Longrightarrow> i \<noteq> l \<Longrightarrow> f i = g i"
  shows "(\<Sum>i<n. f i) = (\<Sum>i<n. g i) + x"
proof -
  have "(\<Sum>i<n. f i) = f l + (\<Sum>i\<in>{..<n} - {l}. f i)" using assms(1) by (simp add: sum.remove)
  also have "(\<Sum>i\<in>{..<n} - {l}. f i) = (\<Sum>i\<in>{..<n} - {l}. g i)"
    using assms(3) by (intro sum.cong) auto
  also have "f l + \<dots> = (g l + (\<Sum>i\<in>{..<n} - {l}. g i)) + x"
    using assms(2) by (simp add: ac_simps)
  also have "g l + (\<Sum>i\<in>{..<n} - {l}. g i) = (\<Sum>i<n. g i)" using assms(1) by (simp add: sum.remove)
  finally show ?thesis .
qed

section \<open>The heap follows the runs\<close>

context user_comparator
begin

lemma item_order:
  "heap_order (CompactionHeapItemComparator cmp m) (\<lambda>i. valid (HeapItem_key m i))"
proof
  fix a b c
  assume v: "valid (HeapItem_key m a)" "valid (HeapItem_key m b)"
  show "CompactionHeapItemComparator cmp m a b \<Longrightarrow> \<not> CompactionHeapItemComparator cmp m b a"
    using v cmp_swap [of "HeapItem_key m b" "HeapItem_key m a"]
    by (auto simp: CompactionHeapItemComparator_def)
  assume "valid (HeapItem_key m c)" "\<not> CompactionHeapItemComparator cmp m a b"
    "\<not> CompactionHeapItemComparator cmp m b c"
  then show "\<not> CompactionHeapItemComparator cmp m a c"
    using v cmp_le_trans [of "HeapItem_key m a" "HeapItem_key m b" "HeapItem_key m c"]
    by (auto simp: CompactionHeapItemComparator_def not_less)
qed

abbreviation keys_valid :: "merging_iter \<Rightarrow> heap_item set \<Rightarrow> bool" where
  "keys_valid m S \<equiv> \<forall>i\<in>S. valid (HeapItem_key m i)"

lemma HeapItem_key_frame [simp]:
  "HeapItem_key (considerStatus s m) i = HeapItem_key m i"
  "HeapItem_key (minHeap_push c j m) i = HeapItem_key m i"
  "HeapItem_key (minHeap_replace_top c j m) i = HeapItem_key m i"
  "HeapItem_key (minHeap_pop c m) i = HeapItem_key m i"
  by (cases i; simp add: child_rest_def considerStatus_def minHeap_push_def minHeap_replace_top_def
      minHeap_pop_def)+

lemma comparator_frame:
  assumes "\<And>i. HeapItem_key m' i = HeapItem_key m i"
  shows "CompactionHeapItemComparator cmp m' = CompactionHeapItemComparator cmp m"
  using assms by (intro ext) (simp add: CompactionHeapItemComparator_def)

lemma heap_holds_push:
  assumes holds: "heap_holds cmp m S" and new: "i \<notin> S" and valid: "keys_valid m (insert i S)"
    and room: "card S < size_max"
  shows "heap_holds cmp (minHeap_push cmp i m) (insert i S)"
proof -
  let ?lt = "CompactionHeapItemComparator cmp m"
  have h: "heap_ok ?lt (minHeap m)" "distinct (heap_data (minHeap m))"
      "set (heap_data (minHeap m)) = S"
    using holds by (auto simp: heap_holds_def)
  have "length (heap_data (minHeap m)) < size_max" using h room distinct_card by metis
  then have ok: "heap_ok ?lt (heap_push ?lt i (minHeap m))"
    and ms: "mset (heap_data (heap_push ?lt i (minHeap m))) = mset (i # heap_data (minHeap m))"
    using heap_order.heap_push_ok [OF item_order h(1)] h(3) valid by auto
  have "distinct (i # heap_data (minHeap m))" using h new by auto
  then have "distinct (heap_data (heap_push ?lt i (minHeap m)))"
    using ms mset_eq_imp_distinct_iff by blast
  moreover have "set (heap_data (heap_push ?lt i (minHeap m))) = insert i S"
    using mset_eq_setD [OF ms] h(3) by simp
  moreover have "CompactionHeapItemComparator cmp (minHeap_push cmp i m) = ?lt"
    by (rule comparator_frame) simp
  ultimately show ?thesis
    using ok by (simp add: heap_holds_def) (simp add: minHeap_push_def)
qed

lemma heap_holds_below:
  assumes holds: "heap_holds cmp m S" and ne: "S \<noteq> {}" and heap: "minHeap m' = minHeap m"
    and keys: "\<And>i. i \<in> S - {heap_top (minHeap m)} \<Longrightarrow> HeapItem_key m' i = HeapItem_key m i"
  shows "heap_below_ok (CompactionHeapItemComparator cmp m') (minHeap m')"
    and "heap_data (minHeap m) \<noteq> []" and "distinct (tl (heap_data (minHeap m)))"
    and "set (tl (heap_data (minHeap m))) = S - {heap_top (minHeap m)}"
proof -
  have h: "heap_ok (CompactionHeapItemComparator cmp m) (minHeap m)" "distinct (heap_data (minHeap m))"
      "set (heap_data (minHeap m)) = S"
    using holds by (auto simp: heap_holds_def)
  obtain a r where d: "heap_data (minHeap m) = a # r" using h(3) ne by (cases "heap_data (minHeap m)") auto
  show "heap_data (minHeap m) \<noteq> []" "distinct (tl (heap_data (minHeap m)))"
    and tl: "set (tl (heap_data (minHeap m))) = S - {heap_top (minHeap m)}"
    using h(2,3) d by (auto simp: heap_top_def)
  show "heap_below_ok (CompactionHeapItemComparator cmp m') (minHeap m')"
    unfolding heap
    by (rule heap_below_ok_cong [OF heap_ok_below [OF h(1)]])
       (simp add: CompactionHeapItemComparator_def keys tl)
qed

lemma heap_holds_replace_top:
  assumes holds: "heap_holds cmp m S" and top: "i = heap_top (minHeap m)" "i \<in> S"
    and heap: "minHeap m' = minHeap m" and valid: "keys_valid m' S"
    and keys: "\<And>j. j \<in> S \<Longrightarrow> j \<noteq> i \<Longrightarrow> HeapItem_key m' j = HeapItem_key m j"
  shows "heap_holds cmp (minHeap_replace_top cmp i m') S"
proof -
  let ?lt = "CompactionHeapItemComparator cmp m'" and ?t = "tl (heap_data (minHeap m))"
  have "S \<noteq> {}" using top by auto
  note below = heap_holds_below [OF holds this heap]
  have b: "heap_below_ok ?lt (minHeap m')" "heap_data (minHeap m) \<noteq> []" "distinct ?t"
      "set ?t = S - {i}"
    using below keys top by auto
  have ok: "heap_ok ?lt (replace_top ?lt i (minHeap m'))"
    and ms: "mset (heap_data (replace_top ?lt i (minHeap m'))) = mset (i # ?t)"
    using heap_order.replace_top_ok [OF item_order b(1)] b(2,4) valid top heap by auto
  have "distinct (i # ?t)" "set (i # ?t) = S" using b(3,4) top(2) by auto
  then have "distinct (heap_data (replace_top ?lt i (minHeap m')))"
      "set (heap_data (replace_top ?lt i (minHeap m'))) = S"
    using ms mset_eq_imp_distinct_iff mset_eq_setD by (blast, metis)
  moreover have "CompactionHeapItemComparator cmp (minHeap_replace_top cmp i m') = ?lt"
    by (rule comparator_frame) simp
  ultimately show ?thesis
    using ok by (simp add: heap_holds_def) (simp add: minHeap_replace_top_def)
qed

lemma heap_holds_pop:
  assumes holds: "heap_holds cmp m S" and top: "i = heap_top (minHeap m)" "i \<in> S"
    and heap: "minHeap m' = minHeap m" and valid: "keys_valid m' (S - {i})"
    and keys: "\<And>j. j \<in> S \<Longrightarrow> j \<noteq> i \<Longrightarrow> HeapItem_key m' j = HeapItem_key m j"
  shows "heap_holds cmp (minHeap_pop cmp m') (S - {i})"
proof -
  let ?lt = "CompactionHeapItemComparator cmp m'" and ?t = "tl (heap_data (minHeap m))"
  have "S \<noteq> {}" using top by auto
  note below = heap_holds_below [OF holds this heap]
  have b: "heap_below_ok ?lt (minHeap m')" "heap_data (minHeap m) \<noteq> []" "distinct ?t"
      "set ?t = S - {i}"
    using below keys top by auto
  have ok: "heap_ok ?lt (heap_pop ?lt (minHeap m'))"
    and ms: "mset (heap_data (heap_pop ?lt (minHeap m'))) = mset ?t"
    using heap_order.heap_pop_ok [OF item_order b(1)] b(2,4) valid heap by auto
  have "distinct (heap_data (heap_pop ?lt (minHeap m')))"
      "set (heap_data (heap_pop ?lt (minHeap m'))) = S - {i}"
    using b(3,4) ms mset_eq_imp_distinct_iff mset_eq_setD by (blast, metis)
  moreover have "CompactionHeapItemComparator cmp (minHeap_pop cmp m') = ?lt"
    by (rule comparator_frame) simp
  ultimately show ?thesis
    using ok by (simp add: heap_holds_def) (simp add: minHeap_pop_def)
qed

lemma top_is_least:
  assumes holds: "heap_holds cmp m S" and valid: "keys_valid m S" and "i \<in> S"
  shows "heap_top (minHeap m) \<in> S" and "cmp (HeapItem_key m (heap_top (minHeap m))) (HeapItem_key m i) \<le> 0"
proof -
  have d: "set (heap_data (minHeap m)) = S" using holds by (simp add: heap_holds_def)
  have ne: "heap_data (minHeap m) \<noteq> []" using d assms(3) by auto
  then show "heap_top (minHeap m) \<in> S" using d by (metis heap_top_def hd_in_set)
  have "\<not> CompactionHeapItemComparator cmp m (heap_top (minHeap m)) i"
    using holds valid assms(3) d heap_order.heap_top_greatest [OF item_order]
    by (auto simp: heap_holds_def)
  then show "cmp (HeapItem_key m (heap_top (minHeap m))) (HeapItem_key m i) \<le> 0"
    by (simp add: CompactionHeapItemComparator_def)
qed

end

section \<open>Steps of the merge\<close>

lemma merge_frame [simp]:
  "child_rest (considerStatus s m) = child_rest m"
  "child_rest (minHeap_push c i m) = child_rest m"
  "child_rest (minHeap_replace_top c i m) = child_rest m"
  "child_rest (minHeap_pop c m) = child_rest m"
  "child_rest (SetTombstoneForCompaction l k m) = child_rest m"
  "level_tombstones (considerStatus s m) = level_tombstones m"
  "level_tombstones (minHeap_push c i m) = level_tombstones m"
  "level_tombstones (minHeap_replace_top c i m) = level_tombstones m"
  "level_tombstones (minHeap_pop c m) = level_tombstones m"
  "level_tombstones (SetTombstoneForCompaction l k m) = level_tombstones m"
  "range_tombstone_iters (considerStatus s m) = range_tombstone_iters m"
  "range_tombstone_iters (minHeap_push c i m) = range_tombstone_iters m"
  "range_tombstone_iters (minHeap_replace_top c i m) = range_tombstone_iters m"
  "range_tombstone_iters (minHeap_pop c m) = range_tombstone_iters m"
  "range_tombstone_iters (SetTombstoneForCompaction l k m) = range_tombstone_iters m"
  "pinned_heap_item (considerStatus s m) = pinned_heap_item m"
  "pinned_heap_item (minHeap_push c i m) = pinned_heap_item m"
  "pinned_heap_item (minHeap_replace_top c i m) = pinned_heap_item m"
  "pinned_heap_item (minHeap_pop c m) = pinned_heap_item m"
  "pinned_heap_item (SetTombstoneForCompaction l k m) =
     (pinned_heap_item m)[l := AppendInternalKey [] k]"
  "mi_status (minHeap_push c i m) = mi_status m"
  "mi_status (minHeap_replace_top c i m) = mi_status m"
  "mi_status (minHeap_pop c m) = mi_status m"
  "mi_status (SetTombstoneForCompaction l k m) = mi_status m"
  "minHeap (considerStatus s m) = minHeap m"
  "minHeap (SetTombstoneForCompaction l k m) = minHeap m"
  by (simp_all add: considerStatus_def minHeap_push_def minHeap_replace_top_def minHeap_pop_def
      SetTombstoneForCompaction_def child_rest_def level_tombstones_def fun_eq_iff)

lemma considerStatus_ok: "ok s \<Longrightarrow> considerStatus s m = m"
  by (simp add: considerStatus_def)

text \<open>Two states with the same runs, pinned keys and statuses differ at most in the heap.\<close>

definition same_runs :: "merging_iter \<Rightarrow> merging_iter \<Rightarrow> bool" where
  "same_runs m m' \<longleftrightarrow> mi_children m' = mi_children m \<and> mi_status m' = mi_status m \<and>
     range_tombstone_iters m' = range_tombstone_iters m \<and> pinned_heap_item m' = pinned_heap_item m"

lemma same_runs_facts:
  assumes "same_runs m m'"
  shows "child_rest m' = child_rest m" "level_keys m' = level_keys m" "live m' = live m"
    "HeapItem_key m' i = HeapItem_key m i" "levels_ok cmp valid m' = levels_ok cmp valid m"
    "pinned_ok m' l = pinned_ok m l" "output_left m' = output_left m" "at_least cmp k m' = at_least cmp k m"
proof -
  have eq: "child_rest m' = child_rest m" "level_keys m' = level_keys m"
    using assms by (auto simp: same_runs_def child_rest_def level_keys_def level_tombstones_def)
  then have "HeapItem_key m' i = HeapItem_key m i" for i using assms by (cases i) (auto simp: same_runs_def)
  moreover have "live m' = live m" using assms eq by (simp add: live_def same_runs_def)
  ultimately show "child_rest m' = child_rest m" "level_keys m' = level_keys m" "live m' = live m"
    "HeapItem_key m' i = HeapItem_key m i" "levels_ok cmp valid m' = levels_ok cmp valid m"
    "pinned_ok m' l = pinned_ok m l" "output_left m' = output_left m" "at_least cmp k m' = at_least cmp k m"
    using assms eq
    by (simp_all add: same_runs_def levels_ok_def pinned_ok_def output_left_def at_least_def)
qed

lemma merge_inv_same_runs:
  assumes "same_runs m m'" "levels_ok cmp valid m" "\<forall>l<levels m. pinned_ok m l"
    "heap_holds cmp m' (live m)"
  shows "merge_inv cmp valid m'"
  using assms same_runs_facts [OF assms(1)] by (auto simp: merge_inv_def same_runs_def)

lemma same_runs_heap [simp]:
  "same_runs m (minHeap_push c i m)" "same_runs m (minHeap_replace_top c i m)"
  "same_runs m (minHeap_pop c m)" "same_runs m m"
  by (simp_all add: same_runs_def)

lemma restore_top_same_runs:
  assumes "\<forall>c\<in>set (mi_children m). ok (ci_status c)" "l < levels m"
  shows "same_runs m (restore_top cmp l m)"
  using assms by (simp add: restore_top_def considerStatus_ok)

lemma child_Next_effect:
  assumes "child_rest m l = e # r" "length (range_tombstone_iters m) = levels m"
  shows "levels (child_Next l m) = levels m" "l < levels m"
    "child_rest (child_Next l m) i = (if i = l then r else child_rest m i)"
    "level_keys (child_Next l m) i =
       (case e of Boundary k t \<Rightarrow> if i = l then tomb_keys t else level_keys m i | Point k v \<Rightarrow> level_keys m i)"
    "pinned_heap_item (child_Next l m) = pinned_heap_item m" "minHeap (child_Next l m) = minHeap m"
    "mi_status (child_Next l m) = mi_status m"
    "length (range_tombstone_iters (child_Next l m)) = length (range_tombstone_iters m)"
    "map ci_status (mi_children (child_Next l m)) = map ci_status (mi_children m)"
proof -
  show l: "l < levels m" using assms by (simp add: child_rest_def split: if_splits)
  have st: "(map ci_status (mi_children m))[l := ci_status (mi_children m ! l)] = map ci_status (mi_children m)"
    using l by (simp add: list_update_same_conv)
  show "levels (child_Next l m) = levels m"
    "child_rest (child_Next l m) i = (if i = l then r else child_rest m i)"
    "level_keys (child_Next l m) i =
       (case e of Boundary k t \<Rightarrow> if i = l then tomb_keys t else level_keys m i | Point k v \<Rightarrow> level_keys m i)"
    "pinned_heap_item (child_Next l m) = pinned_heap_item m" "minHeap (child_Next l m) = minHeap m"
    "mi_status (child_Next l m) = mi_status m"
    "length (range_tombstone_iters (child_Next l m)) = length (range_tombstone_iters m)"
    "map ci_status (mi_children (child_Next l m)) = map ci_status (mi_children m)"
    using assms l st
    by (cases e; simp add: child_Next_def child_move_to_def level_keys_tomb_keys map_update;
        simp add: child_rest_def)+
qed

lemma ball_ci_status:
  "map ci_status cs = map ci_status cs' \<Longrightarrow> (\<forall>c\<in>set cs. P (ci_status c)) = (\<forall>c\<in>set cs'. P (ci_status c))"
  by (metis (no_types, lifting) image_iff list.set_map)

lemma live_child_Next_point:
  assumes "child_rest m l = Point k v # r" "length (range_tombstone_iters m) = levels m"
  shows "live (child_Next l m) = (if r \<noteq> [] then live m else live m - {ITERATOR l})"
  using child_Next_effect [OF assms] assms(1) by (auto simp: live_def)

context user_comparator
begin

lemma live_keys_valid:
  assumes "levels_ok cmp valid m" and "\<forall>l<levels m. pinned_ok m l"
  shows "keys_valid m (live m)"
proof
  fix i assume i: "i \<in> live m"
  show "valid (HeapItem_key m i)"
  proof (cases i)
    case (ITERATOR l)
    then obtain e r where "child_rest m l = e # r" "l < levels m"
      using i by (auto simp: live_def neq_Nil_conv)
    then show ?thesis using assms ITERATOR run_ok_head by (fastforce simp: levels_ok_def)
  next
    case (DELETE_RANGE_START l)
    then have l: "l < levels m" "level_keys m l \<noteq> []" using i by (auto simp: live_def)
    then have "valid (hd (level_keys m l))"
      using assms run_ok_tombs by (fastforce simp: levels_ok_def)
    then show ?thesis using assms l DELETE_RANGE_START by (simp add: pinned_ok_def)
  qed
qed

lemma card_live: "finite (live m)" "card (live m) \<le> 2 * levels m"
proof -
  have sub: "live m \<subseteq> ITERATOR ` {..<levels m} \<union> DELETE_RANGE_START ` {..<levels m}"
    by (auto simp: live_def)
  have fin: "finite (ITERATOR ` {..<levels m} \<union> DELETE_RANGE_START ` {..<levels m})" by simp
  show "finite (live m)" using sub fin by (rule finite_subset)
  have "card (live m) \<le> card (ITERATOR ` {..<levels m} \<union> DELETE_RANGE_START ` {..<levels m})"
    using sub fin by (rule card_mono [rotated])
  also have "\<dots> \<le> card (ITERATOR ` {..<levels m}) + card (DELETE_RANGE_START ` {..<levels m})"
    by (rule card_Un_le)
  also have "\<dots> = 2 * levels m" by (simp add: card_image inj_on_def)
  finally show "card (live m) \<le> 2 * levels m" .
qed

lemma child_Next_keys:
  assumes "child_rest m l = e # r" "length (range_tombstone_iters m) = levels m" "i \<noteq> ITERATOR l"
  shows "HeapItem_key (child_Next l m) i = HeapItem_key m i"
  using child_Next_effect [OF assms(1,2)] assms(3) by (cases i) auto

text \<open>Moving the child at the top and restoring the heap, before the next file's tombstones.\<close>

lemma restore_top_holds:
  assumes inv: "merge_inv cmp valid m" and top: "heap_top (minHeap m) = ITERATOR l"
    and rest: "child_rest m l = e # r"
  shows "heap_holds cmp (restore_top cmp l (child_Next l m))
    (if r \<noteq> [] then live m else live m - {ITERATOR l})"
proof -
  let ?m = "child_Next l m"
  have lv: "levels_ok cmp valid m" "\<forall>l<levels m. pinned_ok m l" "heap_holds cmp m (live m)"
    using inv by (auto simp: merge_inv_def)
  have len: "length (range_tombstone_iters m) = levels m" using lv by (simp add: levels_ok_def)
  note eff = child_Next_effect [OF rest len] and keys = child_Next_keys [OF rest len]
  have i: "ITERATOR l \<in> live m" using rest eff(2) by (simp add: live_def)
  have run: "run_ok cmp valid (e # r) (level_keys m l)" using lv eff(2) rest by (metis levels_ok_def)
  have st: "ok (ci_status (mi_children ?m ! l))"
    using lv(1) ball_ci_status [OF eff(9), of ok] eff(1,2) by (auto simp: levels_ok_def)
  have valid: "keys_valid ?m (live m - {ITERATOR l})"
    using live_keys_valid [OF lv(1,2)] keys by auto
  show ?thesis
  proof (cases r)
    case Nil
    then show ?thesis
      using heap_holds_pop [OF lv(3) top [symmetric] i eff(6) valid] keys eff(3) [of l] st
      by (simp add: restore_top_def considerStatus_ok)
  next
    case (Cons e' r')
    have "run_ok cmp valid r (case e of Boundary k t \<Rightarrow> tomb_keys t | Point k v \<Rightarrow> level_keys m l)"
      using run by (cases e) auto
    then have "valid (HeapItem_key ?m (ITERATOR l))" using run_ok_head Cons eff(3) [of l] by auto
    then have "keys_valid ?m (live m)" using valid by auto
    then show ?thesis
      using heap_holds_replace_top [OF lv(3) top [symmetric] i eff(6)] keys eff(3) [of l] Cons
      by (simp add: restore_top_def)
  qed
qed

lemma levels_ok_child_Next:
  assumes "levels_ok cmp valid m" "child_rest m l = e # r"
  shows "levels_ok cmp valid (child_Next l m)"
proof -
  have len: "length (range_tombstone_iters m) = levels m" using assms by (simp add: levels_ok_def)
  note eff = child_Next_effect [OF assms(2) len]
  have run: "run_ok cmp valid (e # r) (level_keys m l)" using assms eff(2) by (metis levels_ok_def)
  have "run_ok cmp valid (child_rest (child_Next l m) i) (level_keys (child_Next l m) i)"
    if "i < levels m" for i
    using that run assms(1) eff(3,4) by (cases "i = l"; cases e) (auto simp: levels_ok_def)
  then show ?thesis
    using assms(1) eff ball_ci_status [OF eff(9), of ok] by (simp add: levels_ok_def)
qed

lemma at_least_head:
  assumes "levels_ok cmp valid m" "\<forall>l<levels m. pinned_ok m l" "heap_holds cmp m (live m)" "live m \<noteq> {}"
  shows "at_least cmp (HeapItem_key m (heap_top (minHeap m))) m"
  using top_is_least(2) [OF assms(3) live_keys_valid [OF assms(1,2)]] by (simp add: at_least_def)

lemma at_leastI:
  assumes "at_least cmp k m"
    and "\<And>i. i \<in> live m' \<Longrightarrow> i \<in> live m \<and> HeapItem_key m' i = HeapItem_key m i \<or> cmp k (HeapItem_key m' i) \<le> 0"
  shows "at_least cmp k m'"
  using assms by (fastforce simp: at_least_def)

lemma step_point:
  assumes inv: "merge_inv cmp valid m" and top: "heap_top (minHeap m) = ITERATOR l"
    and rest: "child_rest m l = Point k v # r"
  defines "m' \<equiv> restore_top cmp l (child_Next l m)"
  shows "merge_inv cmp valid m'" "output_left m = add_mset (k, v) (output_left m')" "at_least cmp k m'"
proof -
  let ?m = "child_Next l m"
  have lv: "levels_ok cmp valid m" "\<forall>l<levels m. pinned_ok m l" "heap_holds cmp m (live m)"
    using inv by (auto simp: merge_inv_def)
  have len: "length (range_tombstone_iters m) = levels m" using lv by (simp add: levels_ok_def)
  note eff = child_Next_effect [OF rest len] and keys = child_Next_keys [OF rest len]
  have lv1: "levels_ok cmp valid ?m" by (rule levels_ok_child_Next [OF lv(1) rest])
  have pin: "\<forall>l<levels ?m. pinned_ok ?m l" using lv(2) eff by (simp add: pinned_ok_def)
  have same: "same_runs ?m m'"
    unfolding m'_def using lv1 eff(1,2) by (intro restore_top_same_runs) (auto simp: levels_ok_def)
  show "merge_inv cmp valid m'"
    using merge_inv_same_runs [OF same lv1 pin] restore_top_holds [OF inv top rest]
      live_child_Next_point [OF rest len] by (simp add: m'_def)
  have "output_left m = output_left ?m + {#(k, v)#}"
    unfolding output_left_def eff(1)
    by (rule sum_level_change [OF eff(2)]) (use rest eff in auto)
  then show "output_left m = add_mset (k, v) (output_left m')"
    using same_runs_facts(7) [OF same] by simp
  have "ITERATOR l \<in> live m" using rest eff(2) by (simp add: live_def)
  then have least: "at_least cmp k m" using at_least_head [OF lv] top rest by auto
  have run: "run_ok cmp valid (Point k v # r) (level_keys m l)"
    using lv(1) eff(2) rest by (metis levels_ok_def)
  have "at_least cmp k ?m"
  proof (rule at_leastI [OF least])
    fix i assume "i \<in> live ?m"
    then show "i \<in> live m \<and> HeapItem_key ?m i = HeapItem_key m i \<or> cmp k (HeapItem_key ?m i) \<le> 0"
      using live_child_Next_point [OF rest len] keys [of i] eff(3) [of l] run
      by (cases "i = ITERATOR l") (auto simp: neq_Nil_conv split: if_splits)
  qed
  then show "at_least cmp k m'" using same_runs_facts(8) [OF same] by simp
qed

end

lemma SetTombstone_keys:
  "i \<noteq> DELETE_RANGE_START l \<Longrightarrow> HeapItem_key (SetTombstoneForCompaction l k m) i = HeapItem_key m i"
  by (cases i) auto

lemma level_keys_SetTombstone [simp]: "level_keys (SetTombstoneForCompaction l k m) = level_keys m"
  by (simp add: level_keys_def fun_eq_iff)

lemma live_SetTombstone [simp]: "live (SetTombstoneForCompaction l k m) = live m"
  by (simp add: live_def)

context user_comparator
begin

text \<open>
  Pushing the first start key of a level whose other items are in the heap.
\<close>

lemma InsertRangeTombstone_inv:
  assumes lv: "levels_ok cmp valid m" and pin: "\<forall>i<levels m. i \<noteq> l \<longrightarrow> pinned_ok m i" and l: "l < levels m"
    and holds: "heap_holds cmp m (live m - {DELETE_RANGE_START l})"
  defines "m' \<equiv> InsertRangeTombstoneAtLevel cmp l m"
  shows "merge_inv cmp valid m'" "output_left m' = output_left m" "live m' = live m"
    "i \<noteq> DELETE_RANGE_START l \<Longrightarrow> HeapItem_key m' i = HeapItem_key m i"
    "level_keys m l \<noteq> [] \<Longrightarrow> HeapItem_key m' (DELETE_RANGE_START l) = hd (level_keys m l)"
proof -
  have len: "length (pinned_heap_item m) = levels m" using lv by (simp add: levels_ok_def)
  have "merge_inv cmp valid m' \<and> output_left m' = output_left m \<and> live m' = live m \<and>
      (i \<noteq> DELETE_RANGE_START l \<longrightarrow> HeapItem_key m' i = HeapItem_key m i) \<and>
      (level_keys m l \<noteq> [] \<longrightarrow> HeapItem_key m' (DELETE_RANGE_START l) = hd (level_keys m l))"
  proof (cases "level_tombstones m l")
    case Nil
    then have m': "m' = m" by (simp add: m'_def InsertRangeTombstoneAtLevel_def)
    have none: "level_keys m l = []" using Nil by (simp add: level_keys_def)
    then have "DELETE_RANGE_START l \<notin> live m" by (simp add: live_def)
    moreover have "\<forall>i<levels m. pinned_ok m i" using pin none by (auto simp: pinned_ok_def)
    ultimately show ?thesis using m' none lv holds by (simp add: merge_inv_def)
  next
    case (Cons pik ps)
    let ?m = "SetTombstoneForCompaction l pik m"
    have hd: "hd (level_keys m l) = AppendInternalKey [] pik" "level_keys m l \<noteq> []"
      using Cons by (simp_all add: level_keys_def)
    have m': "m' = minHeap_push cmp (DELETE_RANGE_START l) ?m"
      using Cons by (simp add: m'_def InsertRangeTombstoneAtLevel_def)
    have lv1: "levels_ok cmp valid ?m" using lv by (simp add: levels_ok_def)
    have pin1: "\<forall>i<levels ?m. pinned_ok ?m i"
      using pin hd l len by (auto simp: pinned_ok_def nth_list_update)
    have in_live: "insert (DELETE_RANGE_START l) (live m - {DELETE_RANGE_START l}) = live m"
      using l hd(2) by (auto simp: live_def)
    have "heap_holds cmp ?m (live m - {DELETE_RANGE_START l})"
      using holds by (rule heap_holds_cong) (auto simp: SetTombstone_keys)
    moreover have "keys_valid ?m (insert (DELETE_RANGE_START l) (live m - {DELETE_RANGE_START l}))"
      unfolding in_live using live_keys_valid [OF lv1 pin1] by simp
    moreover have "card (live m - {DELETE_RANGE_START l}) < size_max"
    proof -
      have "card (live m - {DELETE_RANGE_START l}) < card (live m)"
        using in_live card_live(1) by (intro card_Diff1_less) auto
      then show ?thesis using card_live(2) [of m] lv by (simp add: levels_ok_def)
    qed
    ultimately have "heap_holds cmp m' (insert (DELETE_RANGE_START l) (live m - {DELETE_RANGE_START l}))"
      unfolding m' by (intro heap_holds_push) auto
    then have "heap_holds cmp m' (live ?m)" unfolding in_live by simp
    moreover have same: "same_runs ?m m'" by (simp add: m')
    ultimately have "merge_inv cmp valid m'" using merge_inv_same_runs lv1 pin1 by blast
    moreover have "output_left ?m = output_left m" by (simp add: output_left_def)
    moreover have "HeapItem_key ?m (DELETE_RANGE_START l) = AppendInternalKey [] pik"
      using l len by simp
    ultimately show ?thesis
      using same_runs_facts(3,4,7) [OF same] hd(1) SetTombstone_keys [of i l pik m] live_SetTombstone
      by metis
  qed
  then show "merge_inv cmp valid m'" "output_left m' = output_left m" "live m' = live m"
    "i \<noteq> DELETE_RANGE_START l \<Longrightarrow> HeapItem_key m' i = HeapItem_key m i"
    "level_keys m l \<noteq> [] \<Longrightarrow> HeapItem_key m' (DELETE_RANGE_START l) = hd (level_keys m l)" by auto
qed

text \<open>A boundary is at the top only when the start keys of its file are exhausted.\<close>

lemma boundary_exhausted:
  assumes inv: "merge_inv cmp valid m" and top: "heap_top (minHeap m) = ITERATOR l"
    and rest: "child_rest m l = Boundary k t # r"
  shows "level_keys m l = []"
proof (rule ccontr)
  assume ne: "level_keys m l \<noteq> []"
  have lv: "levels_ok cmp valid m" "\<forall>l<levels m. pinned_ok m l" "heap_holds cmp m (live m)"
    using inv by (auto simp: merge_inv_def)
  have l: "l < levels m" using rest by (simp add: child_rest_def split: if_splits)
  then have run: "run_ok cmp valid (Boundary k t # r) (level_keys m l)"
    using lv(1) rest by (metis levels_ok_def)
  have "DELETE_RANGE_START l \<in> live m" using ne l by (simp add: live_def)
  then have "cmp k (hd (level_keys m l)) \<le> 0"
    using top_is_least(2) [OF lv(3) live_keys_valid [OF lv(1,2)], of "DELETE_RANGE_START l"] top rest lv(2) l ne
    by (simp add: pinned_ok_def)
  moreover have "valid (hd (level_keys m l))" "cmp (hd (level_keys m l)) k < 0" "valid k"
    using run hd_in_set [OF ne] by auto
  ultimately show False using cmp_swap [of "hd (level_keys m l)" k] by simp
qed

lemma step_boundary:
  assumes inv: "merge_inv cmp valid m" and top: "heap_top (minHeap m) = ITERATOR l"
    and rest: "child_rest m l = Boundary k t # r"
  defines "m' \<equiv> InsertRangeTombstoneAtLevel cmp l (restore_top cmp l (child_Next l m))"
  shows "merge_inv cmp valid m'" "output_left m' = output_left m" "at_least cmp b m \<Longrightarrow> valid b \<Longrightarrow> at_least cmp b m'"
proof -
  let ?m = "child_Next l m" and ?r = "restore_top cmp l (child_Next l m)"
  have lv: "levels_ok cmp valid m" "\<forall>l<levels m. pinned_ok m l" "heap_holds cmp m (live m)"
    using inv by (auto simp: merge_inv_def)
  have len: "length (range_tombstone_iters m) = levels m" using lv by (simp add: levels_ok_def)
  note eff = child_Next_effect [OF rest len] and keys = child_Next_keys [OF rest len]
  have none: "level_keys m l = []" by (rule boundary_exhausted [OF inv top rest])
  have lv1: "levels_ok cmp valid ?m" by (rule levels_ok_child_Next [OF lv(1) rest])
  have same: "same_runs ?m ?r"
    using lv1 eff(1,2) by (intro restore_top_same_runs) (auto simp: levels_ok_def)
  note sf = same_runs_facts [OF same]
  have lr: "levels ?r = levels m" using same eff(1) by (simp add: same_runs_def)
  have live: "live ?r - {DELETE_RANGE_START l} = (if r \<noteq> [] then live m else live m - {ITERATOR l})"
    using sf(3) eff none rest by (auto simp: live_def)
  have pin: "\<forall>i<levels ?r. i \<noteq> l \<longrightarrow> pinned_ok ?r i"
    using lv(2) eff sf(6) lr by (simp add: pinned_ok_def)
  have "heap_holds cmp ?r (live ?r - {DELETE_RANGE_START l})"
    using restore_top_holds [OF inv top rest] live by simp
  note ins = InsertRangeTombstone_inv [of ?r l, OF _ pin _ this, folded m'_def]
  have lvr: "levels_ok cmp valid ?r" "l < levels ?r" using lv1 sf(5) eff(2) lr by auto
  show "merge_inv cmp valid m'" using ins(1) lvr by blast
  have "output_left m = output_left ?m + {#}"
    unfolding output_left_def eff(1)
    by (rule sum_level_change [OF eff(2)]) (use rest eff none in auto)
  then show "output_left m' = output_left m" using ins(2) lvr sf(7) by simp
  assume b: "at_least cmp b m" "valid b"
  have run: "run_ok cmp valid (Boundary k t # r) (level_keys m l)"
    using lv(1) eff(2) rest by (metis levels_ok_def)
  have "ITERATOR l \<in> live m" using rest eff(2) by (simp add: live_def)
  then have bk: "cmp b k \<le> 0" using b(1) rest by (force simp: at_least_def)
  show "at_least cmp b m'"
  proof (rule at_leastI [OF b(1)])
    fix i assume i: "i \<in> live m'"
    then have ir: "i \<in> live ?r" using ins(3) lvr by simp
    show "i \<in> live m \<and> HeapItem_key m' i = HeapItem_key m i \<or> cmp b (HeapItem_key m' i) \<le> 0"
    proof (cases "i = DELETE_RANGE_START l")
      case True
      then have ne: "tomb_keys t \<noteq> []" using ir sf(3) eff(4) [of l] by (auto simp: live_def)
      have "HeapItem_key m' i = hd (tomb_keys t)"
        using True ins(5) lvr ne sf(2) eff(4) [of l] by simp
      moreover have "cmp k (hd (tomb_keys t)) \<le> 0" "valid (hd (tomb_keys t))" "valid k"
        using run hd_in_set [OF ne] run_ok_tombs [of cmp valid r "tomb_keys t"] by auto
      ultimately show ?thesis using bk b(2) cmp_le_trans [of b k "hd (tomb_keys t)"] by simp
    next
      case False
      then have im: "i \<in> (if r \<noteq> [] then live m else live m - {ITERATOR l})" using ir live by blast
      have key: "HeapItem_key m' i = HeapItem_key ?m i" using False ins(4) [OF lvr] sf(4) by simp
      show ?thesis
      proof (cases "i = ITERATOR l")
        case True
        then obtain e r' where r: "r = e # r'" using im by (cases r) auto
        then have "cmp k (entry_key e) \<le> 0" "valid (entry_key e)" "valid k"
          using run run_ok_head [of cmp valid e r' "tomb_keys t"] by auto
        moreover have "HeapItem_key ?m i = entry_key e" using True eff(3) [of l] r by simp
        ultimately show ?thesis using key bk b(2) cmp_le_trans [of b k "entry_key e"] by simp
      next
        case False
        then have "i \<in> live m" using im by (simp split: if_splits)
        then show ?thesis using key keys [OF False] by simp
      qed
    qed
  qed
qed

end

lemma tombstone_Next_effect:
  assumes "l < levels m" "length (range_tombstone_iters m) = levels m"
  shows "child_rest (tombstone_Next l m) = child_rest m"
    "level_keys (tombstone_Next l m) i = (if i = l then tl (level_keys m l) else level_keys m i)"
    "pinned_heap_item (tombstone_Next l m) = pinned_heap_item m" "minHeap (tombstone_Next l m) = minHeap m"
    "mi_status (tombstone_Next l m) = mi_status m"
    "length (range_tombstone_iters (tombstone_Next l m)) = length (range_tombstone_iters m)"
    "HeapItem_key (tombstone_Next l m) = HeapItem_key m"
proof -
  show rest: "child_rest (tombstone_Next l m) = child_rest m"
    by (simp add: child_rest_def fun_eq_iff)
  show pin: "pinned_heap_item (tombstone_Next l m) = pinned_heap_item m"
    by (simp add: tombstone_Next_def split: option.split)
  show "level_keys (tombstone_Next l m) i = (if i = l then tl (level_keys m l) else level_keys m i)"
    "minHeap (tombstone_Next l m) = minHeap m" "mi_status (tombstone_Next l m) = mi_status m"
    "length (range_tombstone_iters (tombstone_Next l m)) = length (range_tombstone_iters m)"
    using assms by (cases "i = l"; simp add: tombstone_Next_def level_keys_tomb_keys tomb_keys_def map_tl split: option.split)+
  have "HeapItem_key (tombstone_Next l m) i = HeapItem_key m i" for i
    using rest pin by (cases i) auto
  then show "HeapItem_key (tombstone_Next l m) = HeapItem_key m" by blast
qed

text \<open>The second branch of \<open>Next\<close>, up to the search for the next visible key.\<close>

definition next_tombstone :: "(slice \<Rightarrow> slice \<Rightarrow> int) \<Rightarrow> nat \<Rightarrow> merging_iter \<Rightarrow> merging_iter" where
  "next_tombstone cmp level m =
     (let m = tombstone_Next level m in
      case level_tombstones m level of
        [] \<Rightarrow> minHeap_pop cmp m
      | pik # _ \<Rightarrow>
          minHeap_replace_top cmp (DELETE_RANGE_START level) (SetTombstoneForCompaction level pik m))"

lemma Next_simps:
  "mi_current m = Some (ITERATOR l) \<Longrightarrow>
     Next cmp m = find_and_set_current cmp (restore_top cmp l (child_Next l m))"
  "mi_current m = Some (DELETE_RANGE_START l) \<Longrightarrow>
     Next cmp m = find_and_set_current cmp (next_tombstone cmp l m)"
  by (simp_all add: Next_def next_tombstone_def Let_def)

context user_comparator
begin

lemma step_tombstone:
  assumes inv: "merge_inv cmp valid m" and top: "heap_top (minHeap m) = DELETE_RANGE_START l"
    and live: "DELETE_RANGE_START l \<in> live m"
  defines "k \<equiv> hd (level_keys m l)" and "m' \<equiv> next_tombstone cmp l m"
  shows "merge_inv cmp valid m'" "output_left m = add_mset (k, []) (output_left m')" "at_least cmp k m'"
proof -
  let ?m = "tombstone_Next l m" and ?i = "DELETE_RANGE_START l"
  have lv: "levels_ok cmp valid m" "\<forall>l<levels m. pinned_ok m l" "heap_holds cmp m (live m)"
    using inv by (auto simp: merge_inv_def)
  have l: "l < levels m" "level_keys m l \<noteq> []" using live by (auto simp: live_def)
  obtain ts where ks: "level_keys m l = k # ts" using l by (cases "level_keys m l") (auto simp: k_def)
  have len: "length (range_tombstone_iters m) = levels m" "length (pinned_heap_item m) = levels m"
    using lv by (simp_all add: levels_ok_def)
  note eff = tombstone_Next_effect [OF l(1) len(1)]
  have run: "run_ok cmp valid (child_rest m l) (k # ts)" using lv(1) l ks by (metis levels_ok_def)
  then have "run_ok cmp valid (child_rest ?m i) (level_keys ?m i)" if "i < levels m" for i
    using that lv(1) ks eff(1,2) run_ok_tl [OF run] by (cases "i = l") (auto simp: levels_ok_def)
  then have lv1: "levels_ok cmp valid ?m" using lv(1) eff by (simp add: levels_ok_def)
  have sorted: "\<forall>x\<in>set ts. cmp k x \<le> 0" "valid k" using run_ok_tombs [OF run] by auto
  have out: "output_left m = add_mset (k, []) (output_left ?m)"
    using sum_level_change [OF l(1), of "\<lambda>i. run_output (child_rest m i) (level_keys m i)"
        "\<lambda>i. run_output (child_rest ?m i) (level_keys ?m i)" "{#(k, [])#}"] eff(1,2) ks
    by (simp add: output_left_def run_output_tl)
  have key: "HeapItem_key m ?i = k" using lv(2) l ks by (simp add: pinned_ok_def)
  have least: "at_least cmp k m" using at_least_head [OF lv] live top key by auto
  have live1: "live ?m = (if ts \<noteq> [] then live m else live m - {?i})"
    using eff(1,2) ks l by (auto simp: live_def)
  have lk: "level_keys ?m l = ts" using eff(2) ks by simp
  have valid: "keys_valid m (live m)" by (rule live_keys_valid [OF lv(1,2)])
  show "merge_inv cmp valid m'" "output_left m = add_mset (k, []) (output_left m')" "at_least cmp k m'"
  proof (atomize (full), cases "level_tombstones ?m l")
    case Nil
    then have ts: "ts = []" using lk by (simp add: level_keys_def)
    have m': "m' = minHeap_pop cmp ?m" using Nil by (simp add: m'_def next_tombstone_def)
    have same: "same_runs ?m m'" by (simp add: m')
    have "heap_holds cmp m' (live ?m)"
      using heap_holds_pop [OF lv(3) top [symmetric] live eff(4)] valid eff(7) live1 ts m' by auto
    moreover have "\<forall>i<levels ?m. pinned_ok ?m i" using lv(2) eff ts ks by (auto simp: pinned_ok_def)
    moreover have "at_least cmp k ?m" using least live1 ts eff(7) by (auto simp: at_least_def)
    ultimately show "merge_inv cmp valid m' \<and> output_left m = add_mset (k, []) (output_left m') \<and>
        at_least cmp k m'"
      using merge_inv_same_runs [OF same lv1] same_runs_facts(7,8) [OF same] out by simp
  next
    case (Cons pik ps)
    let ?s = "SetTombstoneForCompaction l pik ?m"
    obtain k' ts' where ts: "ts = k' # ts'" "k' = AppendInternalKey [] pik"
      using lk Cons by (auto simp: level_keys_def)
    have m': "m' = minHeap_replace_top cmp ?i ?s" using Cons by (simp add: m'_def next_tombstone_def)
    have same: "same_runs ?s m'" by (simp add: m')
    have lvs: "levels_ok cmp valid ?s" using lv1 by (simp add: levels_ok_def)
    have pin: "\<forall>i<levels ?s. pinned_ok ?s i"
      using lv(2) eff ts ks len l by (auto simp: pinned_ok_def nth_list_update)
    have keys: "HeapItem_key ?s j = HeapItem_key m j" if "j \<noteq> ?i" for j
      using that eff(7) by (simp add: SetTombstone_keys)
    have lives: "live ?s = live m" using live1 ts by simp
    have "keys_valid ?s (live m)" using live_keys_valid [OF lvs pin] lives by simp
    then have "heap_holds cmp m' (live ?s)"
      unfolding m' lives using keys eff(4)
      by (intro heap_holds_replace_top [OF lv(3) top [symmetric] live]) auto
    moreover have "at_least cmp k ?s"
    proof (rule at_leastI [OF least])
      fix j assume "j \<in> live ?s"
      moreover have "HeapItem_key ?s ?i = k'" using ts eff(3) len l by simp
      ultimately show "j \<in> live m \<and> HeapItem_key ?s j = HeapItem_key m j \<or> cmp k (HeapItem_key ?s j) \<le> 0"
        using keys [of j] sorted ts lives by (cases "j = ?i") auto
    qed
    moreover have "output_left ?s = output_left ?m" by (simp add: output_left_def)
    ultimately show "merge_inv cmp valid m' \<and> output_left m = add_mset (k, []) (output_left m') \<and>
        at_least cmp k m'"
      using merge_inv_same_runs [OF same lvs pin] same_runs_facts(7,8) [OF same] out by simp
  qed
qed

end

section \<open>Scanning\<close>

definition visible_top :: "merging_iter \<Rightarrow> bool" where
  "visible_top m \<longleftrightarrow>
     (case CurrentForward m of
        Some (ITERATOR l) \<Rightarrow> (\<exists>k v r. child_rest m l = Point k v # r)
      | _ \<Rightarrow> True)"

definition positioned :: "(slice \<Rightarrow> slice \<Rightarrow> int) \<Rightarrow> (slice \<Rightarrow> bool) \<Rightarrow> merging_iter \<Rightarrow> bool" where
  "positioned cmp valid m \<longleftrightarrow>
     merge_inv cmp valid m \<and> mi_current m = CurrentForward m \<and> visible_top m"

text \<open>The loop of a client: up to \<open>n\<close> keys and values while the iterator is valid.\<close>

fun scan :: "(slice \<Rightarrow> slice \<Rightarrow> int) \<Rightarrow> nat \<Rightarrow> merging_iter \<Rightarrow> (slice \<times> slice) list \<times> merging_iter" where
  "scan cmp 0 m = ([], m)"
| "scan cmp (Suc n) m =
     (if Valid m then
        let (out, m') = scan cmp n (Next cmp m) in ((merged_key m, merged_value m) # out, m')
      else ([], m))"

context user_comparator
begin

lemma top_live:
  assumes "merge_inv cmp valid m" and "\<not> heap_empty (minHeap m)"
  shows "heap_top (minHeap m) \<in> live m"
proof -
  have "set (heap_data (minHeap m)) = live m" "heap_data (minHeap m) \<noteq> []"
    using assms by (auto simp: merge_inv_def heap_holds_def heap_empty_def)
  then show ?thesis by (metis heap_top_def hd_in_set)
qed

lemma FindNextVisibleKey_ok:
  assumes "merge_inv cmp valid m"
  defines "m' \<equiv> FindNextVisibleKey cmp m"
  shows "merge_inv cmp valid m' \<and> output_left m' = output_left m \<and> visible_top m' \<and>
    (\<forall>b. at_least cmp b m \<longrightarrow> valid b \<longrightarrow> at_least cmp b m')"
  using assms(1) unfolding m'_def
proof (induction "entries_left m" arbitrary: m rule: less_induct)
  case less
  note inv = less.prems
  show ?case
  proof (cases "\<exists>l k t r. \<not> heap_empty (minHeap m) \<and> heap_top (minHeap m) = ITERATOR l \<and>
      child_rest m l = Boundary k t # r")
    case True
    then obtain l k t r where top: "\<not> heap_empty (minHeap m)" "heap_top (minHeap m) = ITERATOR l"
      and rest: "child_rest m l = Boundary k t # r" by blast
    let ?m = "InsertRangeTombstoneAtLevel cmp l (restore_top cmp l (child_Next l m))"
    have "FindNextVisibleKey cmp m = FindNextVisibleKey cmp ?m"
      using top rest by (subst FindNextVisibleKey.simps) simp
    moreover have "entries_left ?m < entries_left m"
      using entries_left_child_Next [OF rest] by (simp add: entries_left_def)
    moreover note step_boundary [OF inv top(2) rest]
    ultimately show ?thesis using less.hyps [of ?m] by simp
  next
    case False
    have fin: "FindNextVisibleKey cmp m = m"
      using False by (subst FindNextVisibleKey.simps)
        (auto split: heap_item.split list.split simp: is_sentinel.simps elim: is_sentinel.elims)
    have "child_rest m l \<noteq> []" if "\<not> heap_empty (minHeap m)" "heap_top (minHeap m) = ITERATOR l" for l
      using top_live [OF inv that(1)] that(2) by (simp add: live_def)
    then have "visible_top m"
      using False by (auto simp: visible_top_def CurrentForward_def neq_Nil_conv split: heap_item.split)
        (metis run_entry.exhaust)
    then show ?thesis using fin inv by simp
  qed
qed

lemma merge_inv_current: "merge_inv cmp valid (m\<lparr>mi_current := c\<rparr>) \<longleftrightarrow> merge_inv cmp valid m"
proof -
  have same: "same_runs m (m\<lparr>mi_current := c\<rparr>)" by (simp add: same_runs_def)
  have "CompactionHeapItemComparator cmp (m\<lparr>mi_current := c\<rparr>) = CompactionHeapItemComparator cmp m"
    by (rule comparator_frame) (rule same_runs_facts(4) [OF same])
  then show ?thesis
    using same_runs_facts [OF same] by (simp add: merge_inv_def heap_holds_def)
qed

lemma find_and_set_current_ok:
  assumes "merge_inv cmp valid m"
  defines "m' \<equiv> find_and_set_current cmp m"
  shows "positioned cmp valid m'" "output_left m' = output_left m"
    "at_least cmp b m \<Longrightarrow> valid b \<Longrightarrow> at_least cmp b m'"
proof -
  let ?f = "FindNextVisibleKey cmp m"
  have same: "same_runs ?f m'" by (simp add: same_runs_def m'_def find_and_set_current_def Let_def)
  have m': "m' = ?f\<lparr>mi_current := CurrentForward ?f\<rparr>" by (simp add: m'_def find_and_set_current_def Let_def)
  have f: "merge_inv cmp valid ?f" "output_left ?f = output_left m" "visible_top ?f"
      "\<And>b. at_least cmp b m \<Longrightarrow> valid b \<Longrightarrow> at_least cmp b ?f"
    using FindNextVisibleKey_ok [OF assms(1)] by auto
  have cur: "CurrentForward m' = CurrentForward ?f" by (simp add: m' CurrentForward_def)
  have "visible_top m'" using f(3) unfolding visible_top_def cur same_runs_facts(1) [OF same] .
  then show "positioned cmp valid m'"
    using f(1) cur by (simp add: positioned_def m' merge_inv_current)
  show "output_left m' = output_left m" using same_runs_facts(7) [OF same] f(2) by simp
  show "at_least cmp b m \<Longrightarrow> valid b \<Longrightarrow> at_least cmp b m'" using same_runs_facts(8) [OF same] f(4) by simp
qed

text \<open>One step of a client: the current entry leaves the output, and the rest is not before it.\<close>

lemma Next_ok:
  assumes pos: "positioned cmp valid m" and "Valid m"
  shows "positioned cmp valid (Next cmp m)"
    "output_left m = add_mset (merged_key m, merged_value m) (output_left (Next cmp m))"
    "at_least cmp (merged_key m) (Next cmp m)" "valid (merged_key m)"
    "at_least cmp b m \<Longrightarrow> cmp b (merged_key m) \<le> 0"
proof -
  have inv: "merge_inv cmp valid m" and cur: "mi_current m = CurrentForward m" and vis: "visible_top m"
    using pos by (auto simp: positioned_def)
  have ne: "\<not> heap_empty (minHeap m)" and top: "mi_current m = Some (heap_top (minHeap m))"
    using \<open>Valid m\<close> cur by (auto simp: Valid_def CurrentForward_def split: if_splits)
  have live: "heap_top (minHeap m) \<in> live m" by (rule top_live [OF inv ne])
  have "keys_valid m (live m)" using inv live_keys_valid by (auto simp: merge_inv_def)
  then show valid: "valid (merged_key m)" using live top by (simp add: merged_key_def)
  show "at_least cmp b m \<Longrightarrow> cmp b (merged_key m) \<le> 0"
    using live top by (auto simp: at_least_def merged_key_def)
  show "positioned cmp valid (Next cmp m)"
    "output_left m = add_mset (merged_key m, merged_value m) (output_left (Next cmp m))"
    "at_least cmp (merged_key m) (Next cmp m)"
  proof (atomize (full), cases "heap_top (minHeap m)")
    case (ITERATOR l)
    then obtain k v r where rest: "child_rest m l = Point k v # r"
      using vis top cur by (auto simp: visible_top_def)
    note s = step_point [OF inv ITERATOR rest] and nx = Next_simps(1) [of m l cmp]
    have "merged_key m = k" "merged_value m = v"
      using top ITERATOR rest by (simp_all add: merged_key_def merged_value_def)
    then show "positioned cmp valid (Next cmp m) \<and>
        output_left m = add_mset (merged_key m, merged_value m) (output_left (Next cmp m)) \<and>
        at_least cmp (merged_key m) (Next cmp m)"
      using s find_and_set_current_ok [OF s(1)] nx top ITERATOR valid by simp
  next
    case (DELETE_RANGE_START l)
    note s = step_tombstone [OF inv DELETE_RANGE_START live [unfolded DELETE_RANGE_START]]
      and nx = Next_simps(2) [of m l cmp]
    have "pinned_ok m l" "level_keys m l \<noteq> []"
      using inv live DELETE_RANGE_START by (auto simp: merge_inv_def live_def)
    then have "merged_key m = hd (level_keys m l)" "merged_value m = []"
      using top DELETE_RANGE_START by (simp_all add: merged_key_def merged_value_def pinned_ok_def)
    then show "positioned cmp valid (Next cmp m) \<and>
        output_left m = add_mset (merged_key m, merged_value m) (output_left (Next cmp m)) \<and>
        at_least cmp (merged_key m) (Next cmp m)"
      using s find_and_set_current_ok [OF s(1)] nx top DELETE_RANGE_START valid by simp
  qed
qed

end

context user_comparator
begin

lemma scan_ok:
  assumes "positioned cmp valid m" and "size (output_left m) \<le> n" and "scan cmp n m = (out, m')"
  shows "mset out = output_left m \<and> sorted_wrt (\<lambda>a b. cmp (fst a) (fst b) \<le> 0) out \<and> \<not> Valid m' \<and>
    (\<forall>b. at_least cmp b m \<longrightarrow> valid b \<longrightarrow> (\<forall>x\<in>set out. cmp b (fst x) \<le> 0)) \<and> (\<forall>x\<in>set out. valid (fst x))"
  using assms
proof (induction n arbitrary: m out)
  case 0
  then show ?case using Next_ok(2) [OF 0(1)] by (cases "Valid m") auto
next
  case (Suc n)
  show ?case
  proof (cases "Valid m")
    case True
    note nx = Next_ok [OF Suc.prems(1) True]
    obtain o' where o': "scan cmp n (Next cmp m) = (o', m')" "out = (merged_key m, merged_value m) # o'"
      using Suc.prems(3) True by (auto simp: Let_def split: prod.splits)
    have "size (output_left (Next cmp m)) \<le> n" using Suc.prems(2) nx(2) by simp
    from Suc.IH [OF nx(1) this o'(1)] nx
    have ih: "mset o' = output_left (Next cmp m)" "sorted_wrt (\<lambda>a b. cmp (fst a) (fst b) \<le> 0) o'"
        "\<not> Valid m'" "\<forall>x\<in>set o'. cmp (merged_key m) (fst x) \<le> 0" "\<forall>x\<in>set o'. valid (fst x)"
      by auto
    have "cmp b (fst x) \<le> 0" if "at_least cmp b m" "valid b" "x \<in> set out" for b x
    proof -
      have bk: "cmp b (merged_key m) \<le> 0" by (rule nx(5) [OF that(1)])
      then show ?thesis
        using that o'(2) ih(4,5) nx(4) cmp_le_trans [of b "merged_key m" "fst x"] by auto
    qed
    then show ?thesis using o'(2) ih nx(2,4) by auto
  next
    case False
    then have "heap_empty (minHeap m)"
      using Suc.prems(1)
      by (auto simp: Valid_def positioned_def merge_inv_def levels_ok_def CurrentForward_def split: if_splits)
    then have "live m = {}"
      using Suc.prems(1) by (simp add: positioned_def merge_inv_def heap_holds_def heap_empty_def)
    then have "child_rest m l = [] \<and> level_keys m l = []" if "l < levels m" for l
      using that by (auto simp: live_def)
    then have "output_left m = {#}" by (simp add: output_left_def)
    then show ?thesis using Suc.prems(3) False by auto
  qed
qed

end

section \<open>Seeking\<close>

text \<open>
  The position a seek leads a level to: the entries of the child and the start keys of the
  range tombstone iterator that is then in place.
\<close>

definition sought_entries :: "(child_iter \<Rightarrow> child_move) \<Rightarrow> merging_iter \<Rightarrow> nat \<Rightarrow> run_entry list" where
  "sought_entries cmv m l = fst (cmv (mi_children m ! l))"

definition sought_iter :: "(child_iter \<Rightarrow> child_move) \<Rightarrow> merging_iter \<Rightarrow> nat \<Rightarrow> tombstone_iter option" where
  "sought_iter cmv m l =
     (case snd (cmv (mi_children m ! l)) of None \<Rightarrow> range_tombstone_iters m ! l | Some t \<Rightarrow> t)"

definition sought_keys ::
    "(child_iter \<Rightarrow> child_move) \<Rightarrow> (tombstone_iter \<Rightarrow> ParsedInternalKey list) \<Rightarrow> merging_iter \<Rightarrow> nat \<Rightarrow> slice list" where
  "sought_keys cmv tmv m l =
     (case sought_iter cmv m l of None \<Rightarrow> [] | Some it \<Rightarrow> map (AppendInternalKey []) (tmv it))"

definition runs_ready ::
    "(slice \<Rightarrow> slice \<Rightarrow> int) \<Rightarrow> (slice \<Rightarrow> bool) \<Rightarrow> (child_iter \<Rightarrow> child_move) \<Rightarrow>
     (tombstone_iter \<Rightarrow> ParsedInternalKey list) \<Rightarrow> merging_iter \<Rightarrow> bool" where
  "runs_ready cmp valid cmv tmv m \<longleftrightarrow>
     length (range_tombstone_iters m) = levels m \<and> length (pinned_heap_item m) = levels m \<and>
     2 * levels m \<le> size_max \<and> (\<forall>c\<in>set (mi_children m). ok (ci_status c)) \<and>
     (\<forall>l<levels m. run_ok cmp valid (sought_entries cmv m l) (sought_keys cmv tmv m l))"

text \<open>The states of the first loop, after the levels below \<open>j\<close>.\<close>

definition children_sought :: "(child_iter \<Rightarrow> child_move) \<Rightarrow> merging_iter \<Rightarrow> nat \<Rightarrow> merging_iter \<Rightarrow> bool" where
  "children_sought cmv m j m' \<longleftrightarrow>
     levels m' = levels m \<and> length (range_tombstone_iters m') = levels m \<and>
     pinned_heap_item m' = pinned_heap_item m \<and> mi_status m' = mi_status m \<and>
     map ci_status (mi_children m') = map ci_status (mi_children m) \<and>
     (\<forall>i. j \<le> i \<longrightarrow> i < levels m \<longrightarrow>
        mi_children m' ! i = mi_children m ! i \<and> range_tombstone_iters m' ! i = range_tombstone_iters m ! i) \<and>
     (\<forall>i<j. child_rest m' i = sought_entries cmv m i \<and> range_tombstone_iters m' ! i = sought_iter cmv m i)"

lemma children_sought_move:
  assumes "children_sought cmv m j m'" "j < levels m"
  shows "children_sought cmv m (Suc j) (child_move_to (cmv (mi_children m' ! j)) j m')"
    "minHeap (child_move_to (cmv (mi_children m' ! j)) j m') = minHeap m'"
    "child_rest (child_move_to (cmv (mi_children m' ! j)) j m') j = sought_entries cmv m j"
    "i \<noteq> ITERATOR j \<Longrightarrow> HeapItem_key (child_move_to (cmv (mi_children m' ! j)) j m') i = HeapItem_key m' i"
proof -
  let ?c = "mi_children m ! j" and ?m = "child_move_to (cmv (mi_children m' ! j)) j m'"
  have c: "mi_children m' ! j = ?c" "levels m' = levels m" "length (range_tombstone_iters m') = levels m"
      "range_tombstone_iters m' ! j = range_tombstone_iters m ! j"
    using assms by (auto simp: children_sought_def)
  have st: "map ci_status (mi_children ?m) = map ci_status (mi_children m')"
    using c assms(2) by (simp add: map_update list_update_same_conv)
  have rest: "child_rest ?m i = (if i = j then sought_entries cmv m j else child_rest m' i)" for i
    using c assms(2) by (simp add: child_rest_def sought_entries_def)
  have iters: "range_tombstone_iters ?m ! i =
      (if i = j then sought_iter cmv m j else range_tombstone_iters m' ! i)" for i
    using c assms(2) by (auto simp: child_move_to_def sought_iter_def Let_def split: option.split)
  have pin: "pinned_heap_item ?m = pinned_heap_item m'" "mi_status ?m = mi_status m'"
      "length (range_tombstone_iters ?m) = length (range_tombstone_iters m')"
    by (simp_all add: child_move_to_def Let_def split: option.split)
  show heap: "minHeap ?m = minHeap m'" by (simp add: child_move_to_def Let_def split: option.split)
  show "child_rest ?m j = sought_entries cmv m j" using rest by simp
  show "i \<noteq> ITERATOR j \<Longrightarrow> HeapItem_key ?m i = HeapItem_key m' i"
    using rest pin by (cases i) auto
  show "children_sought cmv m (Suc j) ?m"
    using assms c st rest iters pin unfolding children_sought_def
    by (auto simp: less_Suc_eq nth_list_update)
qed

lemma children_sought_push [simp]:
  "children_sought cmv m j (minHeap_push c i m') \<longleftrightarrow> children_sought cmv m j m'"
  by (simp add: children_sought_def)

text \<open>
  The states of the second loop: the children are in place, and so are the range tombstone
  iterators of the levels below \<open>j\<close>.
\<close>

definition tombstones_sought ::
    "(child_iter \<Rightarrow> child_move) \<Rightarrow> (tombstone_iter \<Rightarrow> ParsedInternalKey list) \<Rightarrow> merging_iter \<Rightarrow> nat \<Rightarrow>
     merging_iter \<Rightarrow> bool" where
  "tombstones_sought cmv tmv m j m' \<longleftrightarrow>
     levels m' = levels m \<and> length (range_tombstone_iters m') = levels m \<and>
     length (pinned_heap_item m') = levels m \<and> mi_status m' = mi_status m \<and>
     map ci_status (mi_children m') = map ci_status (mi_children m) \<and>
     (\<forall>i<levels m. child_rest m' i = sought_entries cmv m i) \<and>
     (\<forall>i. j \<le> i \<longrightarrow> i < levels m \<longrightarrow> range_tombstone_iters m' ! i = sought_iter cmv m i) \<and>
     (\<forall>i<j. level_keys m' i = sought_keys cmv tmv m i \<and> pinned_ok m' i)"

context user_comparator
begin

lemma seek_children_step:
  assumes ready: "runs_ready cmp valid cmv tmv m" and j: "j < levels m" and f: "children_sought cmv m j f"
    and holds: "heap_holds cmp f {ITERATOR i |i. i < j \<and> sought_entries cmv m i \<noteq> []}"
  defines "g \<equiv> child_move_to (cmv (mi_children f ! j)) j f"
  shows "children_sought cmv m (Suc j) (AddToMinHeapOrCheckStatus cmp j g) \<and>
    heap_holds cmp (AddToMinHeapOrCheckStatus cmp j g) {ITERATOR i |i. i < Suc j \<and> sought_entries cmv m i \<noteq> []}"
proof -
  let ?S = "\<lambda>j. {ITERATOR i |i. i < j \<and> sought_entries cmv m i \<noteq> []}"
  note mv = children_sought_move [OF f j, folded g_def]
  have g: "heap_holds cmp g (?S j)"
  proof (rule heap_holds_cong [OF holds mv(2)])
    fix i assume "i \<in> ?S j"
    then have "i \<noteq> ITERATOR j" by auto
    then show "HeapItem_key g i = HeapItem_key f i" by (rule mv(4))
  qed
  show ?thesis
  proof (cases "sought_entries cmv m j")
    case Nil
    have st: "map ci_status (mi_children g) = map ci_status (mi_children m)" "levels g = levels m"
      using mv(1) by (auto simp: children_sought_def)
    have "\<forall>c\<in>set (mi_children g). ok (ci_status c)"
      using ready ball_ci_status [OF st(1), of ok] by (simp add: runs_ready_def)
    then have "ok (ci_status (mi_children g ! j))" using st(2) j by simp
    then have "AddToMinHeapOrCheckStatus cmp j g = g"
      using Nil mv(3) by (simp add: AddToMinHeapOrCheckStatus_def considerStatus_ok)
    moreover have "?S (Suc j) = ?S j" using Nil by (auto simp: less_Suc_eq)
    ultimately show ?thesis using g mv(1) by simp
  next
    case (Cons e r)
    have add: "AddToMinHeapOrCheckStatus cmp j g = minHeap_push cmp (ITERATOR j) g"
      using Cons mv(3) by (simp add: AddToMinHeapOrCheckStatus_def)
    have S: "?S (Suc j) = insert (ITERATOR j) (?S j)" using Cons by (auto simp: less_Suc_eq)
    have "valid (HeapItem_key g (ITERATOR i))" if "i \<le> j" "sought_entries cmv m i \<noteq> []" for i
    proof -
      have "child_rest g i = sought_entries cmv m i" using mv(1) that by (simp add: children_sought_def)
      moreover have "run_ok cmp valid (sought_entries cmv m i) (sought_keys cmv tmv m i)"
        using ready that j by (simp add: runs_ready_def)
      ultimately show ?thesis using run_ok_head that(2) by (fastforce simp: neq_Nil_conv)
    qed
    then have "keys_valid g (insert (ITERATOR j) (?S j))" using Cons by auto
    moreover have "card (?S j) < size_max"
    proof -
      have "card (?S j) \<le> card (ITERATOR ` {..<j})" by (rule card_mono) auto
      also have "\<dots> = j" by (simp add: card_image inj_on_def)
      finally show ?thesis using j ready by (simp add: runs_ready_def)
    qed
    ultimately have "heap_holds cmp (minHeap_push cmp (ITERATOR j) g) (?S (Suc j))"
      unfolding S using g by (intro heap_holds_push) auto
    then show ?thesis using add mv(1) by simp
  qed
qed

lemma seek_children_ok:
  assumes ready: "runs_ready cmp valid cmv tmv m" and holds: "heap_holds cmp m {}"
  shows "children_sought cmv m (levels m) (seek_children cmp cmv m) \<and>
    heap_holds cmp (seek_children cmp cmv m) {ITERATOR i |i. i < levels m \<and> sought_entries cmv m i \<noteq> []}"
proof -
  let ?step = "\<lambda>level m. AddToMinHeapOrCheckStatus cmp level
      (child_move_to (cmv (mi_children m ! level)) level m)"
  have "children_sought cmv m j (fold ?step [0..<j] m) \<and>
      heap_holds cmp (fold ?step [0..<j] m) {ITERATOR i |i. i < j \<and> sought_entries cmv m i \<noteq> []}"
    if "j \<le> levels m" for j
    using that
  proof (induction j)
    case 0
    then show ?case using ready holds by (simp add: children_sought_def runs_ready_def)
  next
    case (Suc j)
    then show ?case using seek_children_step [OF ready, of j "fold ?step [0..<j] m"] by simp
  qed
  then show ?thesis by (simp add: seek_children_def)
qed

end

lemma level_keys_iter:
  "range_tombstone_iters m' ! i = sought_iter cmv m i \<Longrightarrow>
   level_keys m' i = (case sought_iter cmv m i of None \<Rightarrow> [] | Some it \<Rightarrow> map (AppendInternalKey []) (rt_rest it))"
  by (simp add: level_keys_tomb_keys tomb_keys_def)

text \<open>One round of the second loop, without the push.\<close>

definition tombstone_seek_at :: "(tombstone_iter \<Rightarrow> ParsedInternalKey list) \<Rightarrow> nat \<Rightarrow> tombstone_iter \<Rightarrow> merging_iter \<Rightarrow> merging_iter" where
  "tombstone_seek_at tmv j it m =
     m\<lparr>range_tombstone_iters := (range_tombstone_iters m)[j := Some (it\<lparr>rt_rest := tmv it\<rparr>)]\<rparr>"

lemma tombstone_seek_at_frame [simp]:
  "mi_children (tombstone_seek_at tmv j it m) = mi_children m"
  "mi_status (tombstone_seek_at tmv j it m) = mi_status m"
  "pinned_heap_item (tombstone_seek_at tmv j it m) = pinned_heap_item m"
  "minHeap (tombstone_seek_at tmv j it m) = minHeap m"
  "child_rest (tombstone_seek_at tmv j it m) = child_rest m"
  "HeapItem_key (tombstone_seek_at tmv j it m) i = HeapItem_key m i"
  by (simp_all add: tombstone_seek_at_def child_rest_def fun_eq_iff)
     (cases i; simp add: child_rest_def)

lemma tombstone_seek_at_keys:
  assumes "j < length (range_tombstone_iters m)"
  shows "level_keys (tombstone_seek_at tmv j it m) i =
    (if i = j then map (AppendInternalKey []) (tmv it) else level_keys m i)"
  using assms by (simp add: tombstone_seek_at_def level_keys_tomb_keys tomb_keys_def)

text \<open>The items that are in the heap after the levels below \<open>j\<close>.\<close>

definition sought_items ::
    "(child_iter \<Rightarrow> child_move) \<Rightarrow> (tombstone_iter \<Rightarrow> ParsedInternalKey list) \<Rightarrow> merging_iter \<Rightarrow> nat \<Rightarrow> heap_item set" where
  "sought_items cmv tmv m j =
     {ITERATOR i |i. i < levels m \<and> sought_entries cmv m i \<noteq> []} \<union>
     {DELETE_RANGE_START i |i. i < j \<and> sought_keys cmv tmv m i \<noteq> []}"

context user_comparator
begin

lemma sought_keys_valid:
  assumes ready: "runs_ready cmp valid cmv tmv m" and t: "tombstones_sought cmv tmv m j m'" and "j \<le> levels m"
  shows "keys_valid m' (sought_items cmv tmv m j)"
proof
  fix i assume i: "i \<in> sought_items cmv tmv m j"
  have run: "run_ok cmp valid (sought_entries cmv m l) (sought_keys cmv tmv m l)" if "l < levels m" for l
    using ready that by (simp add: runs_ready_def)
  show "valid (HeapItem_key m' i)"
  proof (cases i)
    case (ITERATOR l)
    then have l: "l < levels m" "sought_entries cmv m l \<noteq> []" "child_rest m' l = sought_entries cmv m l"
      using i t by (auto simp: sought_items_def tombstones_sought_def)
    then show ?thesis using run [OF l(1)] run_ok_head ITERATOR by (fastforce simp: neq_Nil_conv)
  next
    case (DELETE_RANGE_START l)
    then have l: "l < j" "sought_keys cmv tmv m l \<noteq> []" using i by (auto simp: sought_items_def)
    then have "pinned_heap_item m' ! l = hd (sought_keys cmv tmv m l)"
      using t by (simp add: tombstones_sought_def pinned_ok_def)
    moreover have "valid (hd (sought_keys cmv tmv m l))"
      using run [of l] l assms(3) run_ok_tombs hd_in_set [OF l(2)] by force
    ultimately show ?thesis using DELETE_RANGE_START by simp
  qed
qed

lemma card_sought_items:
  assumes "j < levels m"
  shows "card (sought_items cmv tmv m j) < 2 * levels m"
proof -
  let ?A = "ITERATOR ` {..<levels m} \<union> DELETE_RANGE_START ` {..<j}"
  have "card (sought_items cmv tmv m j) \<le> card ?A"
    by (rule card_mono) (auto simp: sought_items_def)
  also have "\<dots> \<le> card (ITERATOR ` {..<levels m}) + card (DELETE_RANGE_START ` {..<j})"
    by (rule card_Un_le)
  also have "\<dots> \<le> levels m + j" by (simp add: card_image inj_on_def)
  finally show ?thesis using assms by simp
qed

lemma seek_tombstones_step:
  assumes ready: "runs_ready cmp valid cmv tmv m" and j: "j < levels m"
    and t: "tombstones_sought cmv tmv m j m'" and holds: "heap_holds cmp m' (sought_items cmv tmv m j)"
    and iter: "sought_iter cmv m j = Some it"
  defines "m2 \<equiv> InsertRangeTombstoneAtLevel cmp j (tombstone_seek_at tmv j it m')"
  shows "tombstones_sought cmv tmv m (Suc j) m2 \<and> heap_holds cmp m2 (sought_items cmv tmv m (Suc j))"
proof -
  let ?m = "tombstone_seek_at tmv j it m'" and ?i = "DELETE_RANGE_START j"
  have len: "length (range_tombstone_iters m') = levels m" "length (pinned_heap_item m') = levels m"
    using t by (auto simp: tombstones_sought_def)
  have keys: "level_keys ?m i = (if i = j then sought_keys cmv tmv m j else level_keys m' i)" for i
    using tombstone_seek_at_keys [of j m' tmv it i] len j iter by (simp add: sought_keys_def)
  have iters: "range_tombstone_iters ?m ! i = range_tombstone_iters m' ! i" if "i \<noteq> j" for i
    using that by (simp add: tombstone_seek_at_def)
  have lens: "length (range_tombstone_iters ?m) = levels m" using len by (simp add: tombstone_seek_at_def)
  have hold: "heap_holds cmp ?m (sought_items cmv tmv m j)"
    by (rule heap_holds_cong [OF holds]) simp_all
  show ?thesis
  proof (cases "level_tombstones ?m j")
    case Nil
    then have none: "sought_keys cmv tmv m j = []" using keys [of j] by (simp add: level_keys_def)
    have m2: "m2 = ?m" using Nil by (simp add: m2_def InsertRangeTombstoneAtLevel_def)
    have "sought_items cmv tmv m (Suc j) = sought_items cmv tmv m j"
      using none by (auto simp: sought_items_def less_Suc_eq)
    moreover have "tombstones_sought cmv tmv m (Suc j) ?m"
      using t keys iters lens none by (auto simp: tombstones_sought_def less_Suc_eq pinned_ok_def)
    ultimately show ?thesis using m2 hold by simp
  next
    case (Cons pik ps)
    let ?s = "SetTombstoneForCompaction j pik ?m"
    have "sought_keys cmv tmv m j = AppendInternalKey [] pik # map (AppendInternalKey []) ps"
      using keys [of j, symmetric] Cons by (simp add: level_keys_def)
    then have hd: "sought_keys cmv tmv m j \<noteq> []" "hd (sought_keys cmv tmv m j) = AppendInternalKey [] pik"
      by simp_all
    have m2: "m2 = minHeap_push cmp ?i ?s" using Cons by (simp add: m2_def InsertRangeTombstoneAtLevel_def)
    have ts: "tombstones_sought cmv tmv m (Suc j) ?s"
      using t keys iters lens hd len j
      by (auto simp: tombstones_sought_def less_Suc_eq pinned_ok_def nth_list_update)
    have items: "sought_items cmv tmv m (Suc j) = insert ?i (sought_items cmv tmv m j)"
      using hd by (auto simp: sought_items_def less_Suc_eq)
    have "heap_holds cmp ?s (sought_items cmv tmv m j)"
      by (rule heap_holds_cong [OF hold]) (auto simp: sought_items_def SetTombstone_keys)
    moreover have "keys_valid ?s (insert ?i (sought_items cmv tmv m j))"
      using sought_keys_valid [OF ready ts] j items by simp
    moreover have "card (sought_items cmv tmv m j) < size_max"
      using card_sought_items [OF j, of cmv tmv] ready by (simp add: runs_ready_def)
    moreover have "?i \<notin> sought_items cmv tmv m j" by (simp add: sought_items_def)
    ultimately have "heap_holds cmp m2 (sought_items cmv tmv m (Suc j))"
      unfolding items m2 by (intro heap_holds_push) auto
    moreover have "tombstones_sought cmv tmv m (Suc j) m2"
      using ts same_runs_facts(1,2,6) [of ?s m2] by (simp add: m2 tombstones_sought_def)
    ultimately show ?thesis by simp
  qed
qed

end

context user_comparator
begin

lemma seek_tombstones_ok:
  assumes ready: "runs_ready cmp valid cmv tmv m" and t0: "tombstones_sought cmv tmv m 0 m'"
    and holds: "heap_holds cmp m' (sought_items cmv tmv m 0)"
  shows "tombstones_sought cmv tmv m (levels m) (seek_tombstones cmp tmv m') \<and>
    heap_holds cmp (seek_tombstones cmp tmv m') (sought_items cmv tmv m (levels m))"
proof -
  let ?step = "\<lambda>level m. case range_tombstone_iters m ! level of None \<Rightarrow> m
      | Some it \<Rightarrow> InsertRangeTombstoneAtLevel cmp level (tombstone_seek_at tmv level it m)"
  have eq: "seek_tombstones cmp tmv m' = fold ?step [0..<levels m] m'"
    unfolding tombstone_seek_at_def using t0 by (simp add: seek_tombstones_def tombstones_sought_def)
  have "tombstones_sought cmv tmv m j (fold ?step [0..<j] m') \<and>
      heap_holds cmp (fold ?step [0..<j] m') (sought_items cmv tmv m j)" if "j \<le> levels m" for j
    using that
  proof (induction j)
    case 0
    then show ?case using t0 holds by simp
  next
    case (Suc j)
    define f where "f = fold ?step [0..<j] m'"
    have f: "tombstones_sought cmv tmv m j f" "heap_holds cmp f (sought_items cmv tmv m j)" "j < levels m"
      using Suc by (simp_all add: f_def)
    have iter: "range_tombstone_iters f ! j = sought_iter cmv m j"
      using f by (simp add: tombstones_sought_def)
    show ?case
    proof (cases "sought_iter cmv m j")
      case None
      then have "sought_keys cmv tmv m j = []" "level_keys f j = []"
        using level_keys_iter [OF iter] by (simp_all add: sought_keys_def)
      then have "sought_items cmv tmv m (Suc j) = sought_items cmv tmv m j"
          "tombstones_sought cmv tmv m (Suc j) f"
        using f(1) by (auto simp: sought_items_def less_Suc_eq tombstones_sought_def pinned_ok_def)
      then show ?thesis using f None iter by (simp add: f_def [symmetric])
    next
      case (Some it)
      then show ?thesis
        using seek_tombstones_step [OF ready f(3) f(1,2) Some] iter by (simp add: f_def [symmetric])
    qed
  qed
  then show ?thesis using eq by simp
qed

text \<open>
  After both loops the state is a well-formed merge of the runs the seek leads to.
\<close>

lemma seek_loops_ok:
  assumes ready: "runs_ready cmp valid cmv tmv m"
  defines "m' \<equiv> seek_tombstones cmp tmv
    (seek_children cmp cmv (m\<lparr>minHeap := heap_clear (minHeap m), mi_status := OK\<rparr>))"
  shows "merge_inv cmp valid m'"
    "output_left m' = (\<Sum>l<levels m. run_output (sought_entries cmv m l) (sought_keys cmv tmv m l))"
    "(\<And>l. l < levels m \<Longrightarrow> (sought_entries cmv m l \<noteq> [] \<longrightarrow>
        cmp b (entry_key (hd (sought_entries cmv m l))) \<le> 0) \<and>
      (sought_keys cmv tmv m l \<noteq> [] \<longrightarrow> cmp b (hd (sought_keys cmv tmv m l)) \<le> 0)) \<Longrightarrow> at_least cmp b m'"
proof -
  let ?m = "m\<lparr>minHeap := heap_clear (minHeap m), mi_status := OK\<rparr>" and ?c = "seek_children cmp cmv
    (m\<lparr>minHeap := heap_clear (minHeap m), mi_status := OK\<rparr>)"
  have s: "sought_entries cmv ?m = sought_entries cmv m" "sought_iter cmv ?m = sought_iter cmv m"
      "sought_keys cmv tmv ?m = sought_keys cmv tmv m"
    by (simp_all add: sought_entries_def sought_iter_def sought_keys_def fun_eq_iff cong: option.case_cong)
  have r: "runs_ready cmp valid cmv tmv ?m" using ready s by (simp add: runs_ready_def)
  have "heap_holds cmp ?m {}"
    by (simp add: heap_holds_def heap_clear_def reset_root_cmp_cache_def heap_ok_def edges_ok_def cache_ok_def)
  from seek_children_ok [OF r this] have c: "children_sought cmv ?m (levels m) ?c"
      "heap_holds cmp ?c (sought_items cmv tmv ?m 0)"
    by (simp_all add: sought_items_def)
  have "tombstones_sought cmv tmv ?m 0 ?c"
    using c(1) ready by (auto simp: children_sought_def tombstones_sought_def runs_ready_def)
  from seek_tombstones_ok [OF r this c(2)] have t: "tombstones_sought cmv tmv ?m (levels m) m'"
      "heap_holds cmp m' (sought_items cmv tmv ?m (levels m))"
    by (simp_all add: m'_def)
  have f: "levels m' = levels m" "\<And>i. i < levels m \<Longrightarrow> child_rest m' i = sought_entries cmv m i"
      "\<And>i. i < levels m \<Longrightarrow> level_keys m' i = sought_keys cmv tmv m i"
      "\<And>i. i < levels m \<Longrightarrow> pinned_ok m' i" "mi_status m' = OK"
      "map ci_status (mi_children m') = map ci_status (mi_children m)"
    using t(1) s by (auto simp: tombstones_sought_def)
  have st: "\<forall>c\<in>set (mi_children m'). ok (ci_status c)"
    using ready ball_ci_status [OF f(6), of ok] by (simp add: runs_ready_def)
  have "ok OK" by (simp add: ok_def OK_def)
  then have lv: "levels_ok cmp valid m'"
    using ready f st t(1) by (simp add: levels_ok_def runs_ready_def tombstones_sought_def)
  moreover have live: "live m' = sought_items cmv tmv ?m (levels m)"
    using f s by (auto simp: live_def sought_items_def)
  ultimately show "merge_inv cmp valid m'" using t(2) f by (simp add: merge_inv_def)
  show "output_left m' = (\<Sum>l<levels m. run_output (sought_entries cmv m l) (sought_keys cmv tmv m l))"
    using f by (simp add: output_left_def)
  show "(\<And>l. l < levels m \<Longrightarrow> (sought_entries cmv m l \<noteq> [] \<longrightarrow>
        cmp b (entry_key (hd (sought_entries cmv m l))) \<le> 0) \<and>
      (sought_keys cmv tmv m l \<noteq> [] \<longrightarrow> cmp b (hd (sought_keys cmv tmv m l)) \<le> 0)) \<Longrightarrow> at_least cmp b m'"
    using f by (auto simp: at_least_def live_def pinned_ok_def)
qed

end

interpretation compaction_heap: heap_order
    "CompactionHeapItemComparator (InternalKeyCompare BytewiseCompare) m"
    "\<lambda>i. internal_valid (\<lambda>_. True) (HeapItem_key m i)" for m
  by (rule internal_bytewise.item_order)

section \<open>The contracts\<close>

text \<open>
  C18: The binary heap is a priority queue. It refines the multiset of its elements: \<open>push\<close>
  adds one, \<open>pop\<close> and \<open>replace_top\<close> remove the root, and the root is never below another
  element. Every operation keeps the invariant, which includes that the cached child of the
  root is the greater one; \<open>replace_top\<close> and \<open>pop\<close> need it below the root only, so that they
  repair the heap after the key of its root has changed.
\<close>

theorem heap_refines_multiset:
  assumes "heap_order lt valid" and "\<forall>x\<in>set (heap_data h). valid x" and "valid v"
  shows "(heap_ok lt h \<and> heap_size h < size_max \<longrightarrow> heap_ok lt (heap_push lt v h) \<and>
      mset (heap_data (heap_push lt v h)) = add_mset v (mset (heap_data h))) \<and>
    (heap_below_ok lt h \<and> \<not> heap_empty h \<longrightarrow>
      heap_ok lt (heap_pop lt h) \<and> heap_ok lt (replace_top lt v h) \<and>
      add_mset (heap_top h) (mset (heap_data (heap_pop lt h))) = mset (heap_data h) \<and>
      mset (heap_data (replace_top lt v h)) = add_mset v (mset (heap_data (heap_pop lt h)))) \<and>
    (heap_ok lt h \<longrightarrow> (\<forall>x\<in>set (heap_data h). \<not> lt (heap_top h) x)) \<and>
    heap_ok lt (heap_clear h) \<and> heap_empty (heap_clear h)"
proof -
  have tl: "heap_data h = heap_top h # tl (heap_data h)" if "\<not> heap_empty h"
    using that by (simp add: heap_empty_def heap_top_def)
  have vtl: "\<forall>x\<in>set (tl (heap_data h)). valid x" using assms(2) by (cases "heap_data h") auto
  have "heap_ok lt (heap_clear h) \<and> heap_empty (heap_clear h)"
    by (simp add: heap_clear_def reset_root_cmp_cache_def heap_ok_def edges_ok_def cache_ok_def heap_empty_def)
  moreover have "heap_ok lt h \<and> heap_size h < size_max \<longrightarrow> heap_ok lt (heap_push lt v h) \<and>
      mset (heap_data (heap_push lt v h)) = add_mset v (mset (heap_data h))"
    using heap_order.heap_push_ok [OF assms(1) _ assms(2,3)] by (simp add: heap_size_def)
  moreover have "heap_ok lt h \<longrightarrow> (\<forall>x\<in>set (heap_data h). \<not> lt (heap_top h) x)"
    using heap_order.heap_top_greatest [OF assms(1) _ assms(2)] by blast
  moreover have "heap_ok lt (heap_pop lt h) \<and> heap_ok lt (replace_top lt v h) \<and>
      add_mset (heap_top h) (mset (heap_data (heap_pop lt h))) = mset (heap_data h) \<and>
      mset (heap_data (replace_top lt v h)) = add_mset v (mset (heap_data (heap_pop lt h)))"
    if "heap_below_ok lt h \<and> \<not> heap_empty h"
    using that heap_order.heap_pop_ok [OF assms(1) _ vtl] heap_order.replace_top_ok [OF assms(1) _ vtl assms(3)]
      arg_cong [OF tl, of mset] by (simp add: heap_empty_def)
  ultimately show ?thesis by blast
qed

theorem heap_refines_multiset_witness:
  "let lt = (\<lambda>a b. CompactionHeapItemComparator (InternalKeyCompare BytewiseCompare)
                (CompactionMergingIterator [] []\<lparr>pinned_heap_item :=
                   [InternalKey [98] 1 kTypeValue, InternalKey [97] 1 kTypeValue]\<rparr>) a b);
       h = heap_push lt (DELETE_RANGE_START 0) BinaryHeap
   in heap_top (heap_push lt (DELETE_RANGE_START 1) h) = DELETE_RANGE_START 1 \<and>
      mset (heap_data (heap_push lt (DELETE_RANGE_START 1) h)) =
        {#DELETE_RANGE_START 0, DELETE_RANGE_START 1#}"
proof -
  let ?m = "CompactionMergingIterator [] []\<lparr>pinned_heap_item :=
      [InternalKey [98] 1 kTypeValue, InternalKey [97] 1 kTypeValue]\<rparr>"
  let ?lt = "CompactionHeapItemComparator (InternalKeyCompare BytewiseCompare) ?m"
  let ?v = "\<lambda>i. internal_valid (\<lambda>_. True) (HeapItem_key ?m i)"
  let ?h = "heap_push ?lt (DELETE_RANGE_START 0) BinaryHeap"
  have ord: "heap_order ?lt ?v" by (rule internal_bytewise.item_order)
  have v: "?v (DELETE_RANGE_START 0)" "?v (DELETE_RANGE_START 1)"
    by (simp_all add: internal_valid_def InternalKey_eq)
  have h: "heap_data ?h = [DELETE_RANGE_START 0]" "root_cmp_cache ?h = size_max"
    by (simp_all add: heap_push_def upheap_def upheap_loop.simps BinaryHeap_def get_root_def reset_root_cmp_cache_def)
  have "heap_ok ?lt ?h" by (simp add: heap_ok_def edges_ok_def cache_ok_def h size_max_def)
  then have "mset (heap_data (heap_push ?lt (DELETE_RANGE_START 1) ?h)) =
      {#DELETE_RANGE_START 0, DELETE_RANGE_START 1#}"
    using heap_refines_multiset [OF ord, of ?h "DELETE_RANGE_START 1"] v h
    by (simp add: heap_size_def size_max_def add_mset_commute)
  moreover have "?lt (DELETE_RANGE_START 0) (DELETE_RANGE_START 1)"
    by (simp add: CompactionHeapItemComparator_def InternalKeyCompare_footer BytewiseCompare_def Let_def)
  then have "heap_top (heap_push ?lt (DELETE_RANGE_START 1) ?h) = DELETE_RANGE_START 1"
    using h by (simp add: heap_push_def [of _ _ "heap_push _ _ _"] upheap_def upheap_loop.simps get_root_def
        get_parent_def reset_root_cmp_cache_def heap_top_def)
  ultimately show ?thesis by (simp add: Let_def)
qed

lemma merge_from:
  assumes "user_comparator ucmp valid"
    and ready: "runs_ready (InternalKeyCompare ucmp) (internal_valid valid) cmv tmv m"
    and n: "size (\<Sum>l<levels m. run_output (sought_entries cmv m l) (sought_keys cmv tmv m l)) \<le> n"
    and scan: "scan (InternalKeyCompare ucmp) n (find_and_set_current (InternalKeyCompare ucmp)
      (seek_tombstones (InternalKeyCompare ucmp) tmv (seek_children (InternalKeyCompare ucmp) cmv
        (m\<lparr>minHeap := heap_clear (minHeap m), mi_status := OK\<rparr>)))) = (out, m')"
  shows "mset out = (\<Sum>l<levels m. run_output (sought_entries cmv m l) (sought_keys cmv tmv m l))"
    "sorted_wrt (\<lambda>a b. InternalKeyCompare ucmp (fst a) (fst b) \<le> 0) out" "\<not> Valid m'"
    "\<lbrakk>\<And>l. l < levels m \<Longrightarrow> (sought_entries cmv m l \<noteq> [] \<longrightarrow>
        InternalKeyCompare ucmp b (entry_key (hd (sought_entries cmv m l))) \<le> 0) \<and>
      (sought_keys cmv tmv m l \<noteq> [] \<longrightarrow> InternalKeyCompare ucmp b (hd (sought_keys cmv tmv m l)) \<le> 0);
      internal_valid valid b; x \<in> set out\<rbrakk> \<Longrightarrow> InternalKeyCompare ucmp b (fst x) \<le> 0"
proof -
  let ?cmp = "InternalKeyCompare ucmp"
  have uc: "user_comparator ?cmp (internal_valid valid)"
    by (rule user_comparator.InternalKeyCompare_user_comparator [OF assms(1)])
  note loops = user_comparator.seek_loops_ok [OF uc ready]
  note f = user_comparator.find_and_set_current_ok [OF uc loops(1)]
  note sc = user_comparator.scan_ok [OF uc f(1) _ scan]
  show "mset out = (\<Sum>l<levels m. run_output (sought_entries cmv m l) (sought_keys cmv tmv m l))"
    "sorted_wrt (\<lambda>a b. ?cmp (fst a) (fst b) \<le> 0) out" "\<not> Valid m'"
    using sc n f(2) loops(2) by auto
  assume b: "\<And>l. l < levels m \<Longrightarrow> (sought_entries cmv m l \<noteq> [] \<longrightarrow>
        ?cmp b (entry_key (hd (sought_entries cmv m l))) \<le> 0) \<and>
      (sought_keys cmv tmv m l \<noteq> [] \<longrightarrow> ?cmp b (hd (sought_keys cmv tmv m l)) \<le> 0)"
    "internal_valid valid b" "x \<in> set out"
  show "?cmp b (fst x) \<le> 0"
    using sc n f(2) loops(2) f(3) [OF loops(3) [OF b(1)] b(2)] b(2,3) by auto
qed

text \<open>
  C1: A compaction sees its inputs merged. Over runs that are sorted (\<open>run_ok\<close>), with
  statuses that are ok and any user comparator that keeps its contract, scanning from
  \<open>SeekToFirst\<close> returns every point entry and every range tombstone start key of every level
  exactly once, in internal key order, skips the file boundaries, and ends.
\<close>

theorem compaction_merge_is_sorted_merge:
  assumes "user_comparator ucmp valid"
    and "runs_ready (InternalKeyCompare ucmp) (internal_valid valid) ci_first rt_all m"
    and "size (\<Sum>l<levels m. run_output (sought_entries ci_first m l) (sought_keys ci_first rt_all m l)) \<le> n"
  shows "case scan (InternalKeyCompare ucmp) n (SeekToFirst (InternalKeyCompare ucmp) m) of (out, m') \<Rightarrow>
    mset out = (\<Sum>l<levels m. run_output (sought_entries ci_first m l) (sought_keys ci_first rt_all m l)) \<and>
    sorted_wrt (\<lambda>a b. InternalKeyCompare ucmp (fst a) (fst b) \<le> 0) out \<and> \<not> Valid m'"
proof -
  obtain out m' where scan: "scan (InternalKeyCompare ucmp) n (SeekToFirst (InternalKeyCompare ucmp) m) = (out, m')"
    by force
  show ?thesis
    using merge_from [OF assms scan [unfolded SeekToFirst_def Let_def]] scan by simp
qed

definition example_runs :: merging_iter where
  "example_runs =
     (let c = (\<lambda>es. \<lparr>ci_rest = [], ci_status = OK, ci_first = (es, None), ci_seek = (\<lambda>_. (es, None))\<rparr>)
      in CompactionMergingIterator
           [c [Point (InternalKey [97] 5 kTypeValue) [1], Point (InternalKey [99] 4 kTypeValue) [2]],
            c [Point (InternalKey [98] 3 kTypeValue) [3]]]
           [None, Some \<lparr>rt_rest = [], rt_all = [\<lparr>user_key = [99], sequence = 2, type = kTypeRangeDeletion\<rparr>],
                        rt_seek = (\<lambda>_. [])\<rparr>])"

lemma example_runs_ready:
  "runs_ready (InternalKeyCompare BytewiseCompare) (internal_valid (\<lambda>_. True)) ci_first rt_all example_runs"
proof -
  have "ok OK" by (simp add: ok_def OK_def)
  then show ?thesis
    by (simp add: runs_ready_def example_runs_def CompactionMergingIterator_def Let_def size_max_def
        sought_entries_def sought_keys_def sought_iter_def All_less_Suc internal_valid_def
        InternalKey_eq InternalKeyCompare_def BytewiseCompare_def AppendInternalKey_eq ExtractUserKey_def
        kNumInternalBytes_def)
qed

theorem compaction_merge_is_sorted_merge_witness:
  "case scan (InternalKeyCompare BytewiseCompare) 4 (SeekToFirst (InternalKeyCompare BytewiseCompare) example_runs) of
     (out, m') \<Rightarrow> length out = 4 \<and> \<not> Valid m'"
proof -
  have out: "(\<Sum>l<levels example_runs. run_output (sought_entries ci_first example_runs l)
      (sought_keys ci_first rt_all example_runs l)) =
    {#(InternalKey [97] 5 kTypeValue, [1]), (InternalKey [99] 4 kTypeValue, [2]),
      (InternalKey [98] 3 kTypeValue, [3]), (InternalKey [99] 2 kTypeRangeDeletion, [])#}"
    by (simp add: example_runs_def CompactionMergingIterator_def Let_def sought_entries_def sought_keys_def
        sought_iter_def lessThan_Suc AppendInternalKey_eq)
  obtain o' m' where scan: "scan (InternalKeyCompare BytewiseCompare) 4
      (SeekToFirst (InternalKeyCompare BytewiseCompare) example_runs) = (o', m')" by force
  have "mset o' = {#(InternalKey [97] 5 kTypeValue, [1]), (InternalKey [99] 4 kTypeValue, [2]),
      (InternalKey [98] 3 kTypeValue, [3]), (InternalKey [99] 2 kTypeRangeDeletion, [])#} \<and> \<not> Valid m'"
    using compaction_merge_is_sorted_merge [OF bytewise.user_comparator_axioms example_runs_ready, of 4] out scan
    by simp
  then have "size (mset o') = 4" "\<not> Valid m'" by simp_all
  then show ?thesis using scan by simp
qed

definition seek_moves :: "(slice \<Rightarrow> slice \<Rightarrow> int) \<Rightarrow> slice \<Rightarrow> u64 \<Rightarrow> value_type \<Rightarrow> tombstone_iter \<Rightarrow> ParsedInternalKey list" where
  "seek_moves ucmp k s t it =
     dropWhile (\<lambda>start. InternalKeyCompare_parsed ucmp start \<lparr>user_key = k, sequence = s, type = t\<rparr> < 0) (rt_seek it k)"

lemma Seek_InternalKey:
  assumes "s \<le> kMaxSequenceNumber"
  shows "Seek ucmp pik0 (InternalKey k s t) m =
    find_and_set_current (InternalKeyCompare ucmp) (seek_tombstones (InternalKeyCompare ucmp) (seek_moves ucmp k s t)
      (seek_children (InternalKeyCompare ucmp) (\<lambda>c. ci_seek c (InternalKey k s t))
        (m\<lparr>minHeap := heap_clear (minHeap m), mi_status := OK\<rparr>)))"
  using ParseInternalKey_InternalKey(1) [OF assms, of k t False]
  by (simp add: Seek_def Let_def seek_moves_def [abs_def])

text \<open>
  C19: A subcompaction starts at its lower bound. When every child lands at or after the target
  of a \<open>Seek\<close>, the scan from there returns the entries and range tombstone start keys the
  seeks lead to, in order, and none of them is before the target: start keys before it are
  passed over.
\<close>

theorem compaction_seek_starts_at_target:
  assumes "user_comparator ucmp valid" and "s \<le> kMaxSequenceNumber" and "valid k"
    and "runs_ready (InternalKeyCompare ucmp) (internal_valid valid) (\<lambda>c. ci_seek c (InternalKey k s t))
      (seek_moves ucmp k s t) m"
    and "\<forall>l<levels m. \<forall>e\<in>set (sought_entries (\<lambda>c. ci_seek c (InternalKey k s t)) m l).
      InternalKeyCompare ucmp (InternalKey k s t) (entry_key e) \<le> 0"
    and "\<forall>l<levels m. \<forall>it\<in>set_option (sought_iter (\<lambda>c. ci_seek c (InternalKey k s t)) m l).
      \<forall>p\<in>set (rt_seek it k). sequence p \<le> kMaxSequenceNumber"
    and "size (\<Sum>l<levels m. run_output (sought_entries (\<lambda>c. ci_seek c (InternalKey k s t)) m l)
      (sought_keys (\<lambda>c. ci_seek c (InternalKey k s t)) (seek_moves ucmp k s t) m l)) \<le> n"
  shows "case scan (InternalKeyCompare ucmp) n (Seek ucmp pik0 (InternalKey k s t) m) of (out, m') \<Rightarrow>
    mset out = (\<Sum>l<levels m. run_output (sought_entries (\<lambda>c. ci_seek c (InternalKey k s t)) m l)
      (sought_keys (\<lambda>c. ci_seek c (InternalKey k s t)) (seek_moves ucmp k s t) m l)) \<and>
    sorted_wrt (\<lambda>a b. InternalKeyCompare ucmp (fst a) (fst b) \<le> 0) out \<and> \<not> Valid m' \<and>
    (\<forall>x\<in>set out. InternalKeyCompare ucmp (InternalKey k s t) (fst x) \<le> 0)"
proof -
  let ?cmp = "InternalKeyCompare ucmp" and ?b = "InternalKey k s t" and ?c = "\<lambda>c. ci_seek c (InternalKey k s t)"
  obtain out m' where scan: "scan ?cmp n (Seek ucmp pik0 ?b m) = (out, m')" by force
  note mf = merge_from [OF assms(1,4,7) scan [unfolded Seek_InternalKey [OF assms(2)]]]
  have vb: "internal_valid valid ?b" using assms(3) by (simp add: internal_valid_def InternalKey_eq ExtractUserKey_def kNumInternalBytes_def)
  have "?cmp ?b (hd (sought_keys ?c (seek_moves ucmp k s t) m l)) \<le> 0"
    if l: "l < levels m" "sought_keys ?c (seek_moves ucmp k s t) m l \<noteq> []" for l
  proof -
    obtain it where it: "sought_iter ?c m l = Some it" "seek_moves ucmp k s t it \<noteq> []"
      using l(2) by (auto simp: sought_keys_def split: option.splits)
    define p where "p = hd (seek_moves ucmp k s t it)"
    have "p \<in> set (rt_seek it k)" using it(2) unfolding p_def seek_moves_def by (meson hd_in_set set_dropWhileD)
    then have p: "sequence p \<le> kMaxSequenceNumber" using assms(6) it l(1) by auto
    have "\<not> InternalKeyCompare_parsed ucmp p \<lparr>user_key = k, sequence = s, type = t\<rparr> < 0"
      using hd_dropWhile [OF it(2) [unfolded seek_moves_def]] by (simp add: p_def seek_moves_def)
    then have ge: "\<not> ?cmp (InternalKey (user_key p) (sequence p) (type p)) ?b < 0"
      using InternalKeyCompare_overloads(1) [OF p assms(2), of ucmp "user_key p" "type p" k t]
      by (cases p) simp
    have key: "hd (sought_keys ?c (seek_moves ucmp k s t) m l) = InternalKey (user_key p) (sequence p) (type p)"
      using it by (simp add: sought_keys_def hd_map p_def AppendInternalKey_eq)
    have "\<forall>x\<in>set (sought_keys ?c (seek_moves ucmp k s t) m l). internal_valid valid x"
      using assms(4) l(1) run_ok_tombs by (fastforce simp: runs_ready_def)
    then have "internal_valid valid (InternalKey (user_key p) (sequence p) (type p))"
      using l(2) key hd_in_set by metis
    then show ?thesis
      using ge vb key user_comparator.cmp_le_swap
        [OF user_comparator.InternalKeyCompare_user_comparator [OF assms(1)], of ?b] by simp
  qed
  then have "?cmp ?b (fst x) \<le> 0" if "x \<in> set out" for x
    using mf(4) [OF _ vb that] assms(5) by auto
  then show ?thesis using scan mf(1-3) by simp
qed

theorem compaction_seek_starts_at_target_witness:
  "case scan (InternalKeyCompare BytewiseCompare) 3
      (Seek BytewiseCompare \<lparr>user_key = [], sequence = 0, type = 0\<rparr> (InternalKey [97] 6 kTypeValue) example_runs) of
     (out, m') \<Rightarrow> length out = 3 \<and> \<not> Valid m'"
proof -
  let ?c = "\<lambda>c. ci_seek c (InternalKey [97] 6 kTypeValue)" and ?t = "seek_moves BytewiseCompare [97] 6 kTypeValue"
  have ok: "ok OK" by (simp add: ok_def OK_def)
  have s: "(6 :: u64) \<le> kMaxSequenceNumber" by (simp add: kMaxSequenceNumber_val)
  have ready: "runs_ready (InternalKeyCompare BytewiseCompare) (internal_valid (\<lambda>_. True)) ?c ?t example_runs"
    using ok by (simp add: runs_ready_def example_runs_def CompactionMergingIterator_def Let_def size_max_def
        sought_entries_def sought_keys_def sought_iter_def All_less_Suc internal_valid_def seek_moves_def
        InternalKey_eq InternalKeyCompare_def BytewiseCompare_def ExtractUserKey_def kNumInternalBytes_def)
  have at: "\<forall>l<levels example_runs. \<forall>e\<in>set (sought_entries ?c example_runs l).
      InternalKeyCompare BytewiseCompare (InternalKey [97] 6 kTypeValue) (entry_key e) \<le> 0"
    by (simp add: example_runs_def CompactionMergingIterator_def Let_def sought_entries_def All_less_Suc
        InternalKeyCompare_def BytewiseCompare_def InternalKey_eq ExtractUserKey_def kNumInternalBytes_def
        PackSequenceAndType_def kTypeValue_def)
  have seqs: "\<forall>l<levels example_runs. \<forall>it\<in>set_option (sought_iter ?c example_runs l).
      \<forall>p\<in>set (rt_seek it [97]). sequence p \<le> kMaxSequenceNumber"
    by (simp add: example_runs_def CompactionMergingIterator_def Let_def sought_iter_def All_less_Suc)
  have out: "(\<Sum>l<levels example_runs. run_output (sought_entries ?c example_runs l) (sought_keys ?c ?t example_runs l)) =
    {#(InternalKey [97] 5 kTypeValue, [1]), (InternalKey [99] 4 kTypeValue, [2]), (InternalKey [98] 3 kTypeValue, [3])#}"
    by (simp add: example_runs_def CompactionMergingIterator_def Let_def sought_entries_def sought_keys_def
        sought_iter_def lessThan_Suc seek_moves_def)
  obtain o' m' where scan: "scan (InternalKeyCompare BytewiseCompare) 3
      (Seek BytewiseCompare \<lparr>user_key = [], sequence = 0, type = 0\<rparr> (InternalKey [97] 6 kTypeValue) example_runs) = (o', m')"
    by force
  have "size (mset o') = 3 \<and> \<not> Valid m'"
    using compaction_seek_starts_at_target [OF bytewise.user_comparator_axioms s TrueI ready at seqs, of 3
        "\<lparr>user_key = [], sequence = 0, type = 0\<rparr>"] out scan by simp
  then show ?thesis using scan by simp
qed

end
