(* ===== verification/Hash.thy ===== *)
theory Hash
  imports Coding
begin

text \<open>
  The persistent 32-bit hash of \<open>util/hash.cc\<close> and the wrappers of \<open>util/hash.h\<close> that the data
  block hash index and the legacy Bloom filters call.
\<close>

unbundle bit_operations_syntax

definition hash_m :: u32 where
  "hash_m = 0xc6a4a793"

text \<open>The byte is cast to \<open>int8_t\<close> first, so that its sign is extended.\<close>

definition signed_byte :: "byte \<Rightarrow> u32" where
  "signed_byte c = scast c"

definition hash_last :: "u32 \<Rightarrow> byte \<Rightarrow> u32" where
  "hash_last h c =
     (let h = h + signed_byte c; h = h * hash_m in h XOR drop_bit 24 h)"

text \<open>The cases of the switch fall through from three remaining bytes to one.\<close>

definition hash_tail :: "u32 \<Rightarrow> slice \<Rightarrow> u32" where
  "hash_tail h d =
     (case d of
        [b0, b1, b2] \<Rightarrow>
          hash_last (h + push_bit 16 (signed_byte b2) + push_bit 8 (signed_byte b1)) b0
      | [b0, b1] \<Rightarrow> hash_last (h + push_bit 8 (signed_byte b1)) b0
      | [b0] \<Rightarrow> hash_last h b0
      | _ \<Rightarrow> h)"

function Hash_loop :: "u32 \<Rightarrow> slice \<Rightarrow> u32" where
  "Hash_loop h d =
     (if 4 \<le> length d then
        (let w = DecodeFixed32 d; h = h + w; h = h * hash_m; h = h XOR drop_bit 16 h
         in Hash_loop h (drop 4 d))
      else hash_tail h d)"
  by pat_completeness auto
termination
  by (relation "measure (length \<circ> snd)") auto

declare Hash_loop.simps [simp del]

definition Hash :: "slice \<Rightarrow> u32 \<Rightarrow> u32" where
  "Hash d seed = Hash_loop (ucast ((ucast seed :: u64) XOR (of_nat (length d) * ucast hash_m))) d"

definition BloomHash :: "slice \<Rightarrow> u32" where
  "BloomHash key = Hash key 0xbc9f1d34"

definition GetSliceHash :: "slice \<Rightarrow> u32" where
  "GetSliceHash s = Hash s 397"

definition Upper32of64 :: "u64 \<Rightarrow> u32" where
  "Upper32of64 v = ucast (drop_bit 32 v)"

definition Lower32of64 :: "u64 \<Rightarrow> u32" where
  "Lower32of64 v = ucast v"

end
