(* ===== verification/Block_Builder.thy ===== *)
theory Block_Builder
  imports Dbformat Hash
begin

text \<open>
  The writer of blocks: \<open>table/block_based/block_builder.cc\<close>, the footer word of
  \<open>data_block_footer.cc\<close> and the builder half of \<open>data_block_hash_index.cc\<close>. A block is the
  concatenation of delta-encoded entries, the array of restart offsets, optionally a table of
  hash buckets, and the footer word.
\<close>

unbundle bit_operations_syntax

section \<open>The block footer\<close>

datatype DataBlockIndexType = kDataBlockBinarySearch | kDataBlockBinaryAndHash

definition kDataBlockIndexTypeBitShift :: nat where
  "kDataBlockIndexTypeBitShift = 31"

definition kNumRestartsMask :: u32 where
  "kNumRestartsMask = push_bit kDataBlockIndexTypeBitShift 1 - 1"

definition PackIndexTypeAndNumRestarts :: "DataBlockIndexType \<Rightarrow> u32 \<Rightarrow> u32" where
  "PackIndexTypeAndNumRestarts index_type num_restarts =
     (if index_type = kDataBlockBinaryAndHash
      then num_restarts OR push_bit kDataBlockIndexTypeBitShift 1 else num_restarts)"

definition UnPackIndexTypeAndNumRestarts :: "u32 \<Rightarrow> DataBlockIndexType \<times> u32" where
  "UnPackIndexTypeAndNumRestarts block_footer =
     (if block_footer AND push_bit kDataBlockIndexTypeBitShift 1 \<noteq> 0
      then kDataBlockBinaryAndHash else kDataBlockBinarySearch,
      block_footer AND kNumRestartsMask)"

section \<open>The hash index of a data block\<close>

definition kNoEntry :: byte where "kNoEntry = 255"
definition kCollision :: byte where "kCollision = 254"
definition kMaxRestartSupportedByHashIndex :: nat where "kMaxRestartSupportedByHashIndex = 253"
definition kMaxBlockSizeSupportedByHashIndex :: nat where
  "kMaxBlockSizeSupportedByHashIndex = 65536"

text \<open>
  \<open>bucket_per_key_\<close> and \<open>estimated_num_buckets_\<close> are floating-point numbers that only ever reach
  the block through a cast to \<open>uint16_t\<close>. \<open>hb_buckets n\<close> is the value of that cast after \<open>n\<close>
  additions of \<open>bucket_per_key_\<close> to zero, and \<open>hb_added\<close> counts the additions; nothing is
  assumed of \<open>hb_buckets\<close>. \<open>hb_positive\<close> is \<open>bucket_per_key_ > 0\<close>.
\<close>

record hash_index_builder =
  hb_positive :: bool
  hb_buckets :: "nat \<Rightarrow> u16"
  hb_added :: nat
  hb_valid :: bool
  hash_and_restart_pairs :: "(u32 \<times> byte) list"

definition DataBlockHashIndexBuilder :: hash_index_builder where
  "DataBlockHashIndexBuilder =
     \<lparr>hb_positive = False, hb_buckets = (\<lambda>_. 0), hb_added = 0, hb_valid = False,
      hash_and_restart_pairs = []\<rparr>"

definition hb_Initialize :: "(nat \<Rightarrow> u16) \<Rightarrow> hash_index_builder \<Rightarrow> hash_index_builder" where
  "hb_Initialize buckets h = h\<lparr>hb_positive := True, hb_buckets := buckets, hb_valid := True\<rparr>"

definition hb_Valid :: "hash_index_builder \<Rightarrow> bool" where
  "hb_Valid h \<longleftrightarrow> hb_valid h \<and> hb_positive h"

definition hb_EstimateSize :: "hash_index_builder \<Rightarrow> nat" where
  "hb_EstimateSize h = 2 + unat (hb_buckets h (hb_added h) OR 1)"

definition hb_Add :: "slice \<Rightarrow> nat \<Rightarrow> hash_index_builder \<Rightarrow> hash_index_builder" where
  "hb_Add key restart_index h =
     (if restart_index > kMaxRestartSupportedByHashIndex then h\<lparr>hb_valid := False\<rparr>
      else h\<lparr>hash_and_restart_pairs :=
               hash_and_restart_pairs h @ [(GetSliceHash key, of_nat restart_index)],
             hb_added := hb_added h + 1\<rparr>)"

definition add_to_bucket :: "nat \<Rightarrow> u32 \<times> byte \<Rightarrow> byte list \<Rightarrow> byte list" where
  "add_to_bucket num_buckets entry buckets =
     (let (hash_value, restart_index) = entry;
          buck_idx = unat hash_value mod num_buckets
      in if buckets ! buck_idx = kNoEntry then buckets[buck_idx := restart_index]
         else if buckets ! buck_idx \<noteq> restart_index then buckets[buck_idx := kCollision]
         else buckets)"

definition hb_num_buckets :: "hash_index_builder \<Rightarrow> u16" where
  "hb_num_buckets h =
     (let num_buckets = hb_buckets h (hb_added h);
          num_buckets = (if num_buckets = 0 then 1 else num_buckets)
      in num_buckets OR 1)"

definition hb_Finish :: "slice \<Rightarrow> hash_index_builder \<Rightarrow> slice" where
  "hb_Finish buffer h =
     (let num_buckets = hb_num_buckets h;
          buckets = fold (add_to_bucket (unat num_buckets)) (hash_and_restart_pairs h)
                      (replicate (unat num_buckets) kNoEntry)
      in PutFixed16 (buffer @ buckets) num_buckets)"

definition hb_Reset :: "hash_index_builder \<Rightarrow> hash_index_builder" where
  "hb_Reset h = h\<lparr>hb_added := 0, hb_valid := True, hash_and_restart_pairs := []\<rparr>"

section \<open>The builder\<close>

record block_builder =
  block_restart_interval :: nat
  use_delta_encoding :: bool
  use_value_delta_encoding :: bool
  strip_ts_sz :: nat
  bb_is_user_key :: bool
  bb_buffer :: slice
  bb_restarts :: "u32 list"
  bb_estimate :: nat
  bb_counter :: nat
  bb_finished :: bool
  bb_last_key :: slice
  bb_hash :: hash_index_builder

text \<open>The bucket counts of \<open>DataBlockHashIndexBuilder::Initialize\<close> come with the index type.\<close>

definition BlockBuilder ::
    "nat \<Rightarrow> bool \<Rightarrow> bool \<Rightarrow> DataBlockIndexType \<Rightarrow> (nat \<Rightarrow> u16) \<Rightarrow> nat \<Rightarrow> bool \<Rightarrow> bool \<Rightarrow> block_builder" where
  "BlockBuilder interval delta value_delta index_type buckets ts_sz persist is_user_key =
     \<lparr>block_restart_interval = interval, use_delta_encoding = delta,
      use_value_delta_encoding = value_delta,
      strip_ts_sz = (if persist then 0 else ts_sz), bb_is_user_key = is_user_key,
      bb_buffer = [], bb_restarts = [0], bb_estimate = 4 + 4, bb_counter = 0,
      bb_finished = False, bb_last_key = [],
      bb_hash = (case index_type of
                   kDataBlockBinarySearch \<Rightarrow> DataBlockHashIndexBuilder
                 | kDataBlockBinaryAndHash \<Rightarrow> hb_Initialize buckets DataBlockHashIndexBuilder)\<rparr>"

definition bb_Reset :: "block_builder \<Rightarrow> block_builder" where
  "bb_Reset b =
     b\<lparr>bb_buffer := [], bb_restarts := take 1 (bb_restarts b), bb_estimate := 4 + 4,
       bb_counter := 0, bb_finished := False, bb_last_key := [],
       bb_hash := (if hb_Valid (bb_hash b) then hb_Reset (bb_hash b) else bb_hash b)\<rparr>"

definition SwapAndReset :: "slice \<Rightarrow> block_builder \<Rightarrow> slice \<times> block_builder" where
  "SwapAndReset buffer b = (bb_buffer b, bb_Reset (b\<lparr>bb_buffer := buffer\<rparr>))"

definition CurrentSizeEstimate :: "block_builder \<Rightarrow> nat" where
  "CurrentSizeEstimate b =
     bb_estimate b + (if hb_Valid (bb_hash b) then hb_EstimateSize (bb_hash b) else 0)"

definition bb_empty :: "block_builder \<Rightarrow> bool" where
  "bb_empty b \<longleftrightarrow> bb_buffer b = []"

definition EstimateSizeAfterKV :: "slice \<Rightarrow> slice \<Rightarrow> block_builder \<Rightarrow> nat" where
  "EstimateSizeAfterKV key val b =
     (let full = \<not> use_value_delta_encoding b \<or> bb_counter b \<ge> block_restart_interval b;
          estimate = CurrentSizeEstimate b + length key;
          estimate = (if strip_ts_sz b > 0 then estimate - strip_ts_sz b else estimate);
          estimate = estimate + (if full then length val else length val div 2);
          estimate = estimate + (if bb_counter b \<ge> block_restart_interval b then 4 else 0);
          estimate = estimate + 4 + unat (VarintLength (of_nat (length key)))
      in if full then estimate + unat (VarintLength (of_nat (length val))) else estimate)"

definition bb_Finish :: "block_builder \<Rightarrow> slice \<times> block_builder" where
  "bb_Finish b =
     (let buffer = fold (\<lambda>r buffer. PutFixed32 buffer r) (bb_restarts b) (bb_buffer b);
          num_restarts = of_nat (length (bb_restarts b));
          hash = hb_Valid (bb_hash b) \<and> CurrentSizeEstimate b \<le> kMaxBlockSizeSupportedByHashIndex;
          buffer = (if hash then hb_Finish buffer (bb_hash b) else buffer);
          index_type = (if hash then kDataBlockBinaryAndHash else kDataBlockBinarySearch);
          buffer = PutFixed32 buffer (PackIndexTypeAndNumRestarts index_type num_restarts)
      in (buffer, b\<lparr>bb_buffer := buffer, bb_finished := True\<rparr>))"

definition MaybeStripTimestampFromKey :: "block_builder \<Rightarrow> slice \<Rightarrow> slice" where
  "MaybeStripTimestampFromKey b key =
     (if strip_ts_sz b > 0 then
        (if bb_is_user_key b then remove_suffix key (strip_ts_sz b)
         else StripTimestampFromInternalKey [] key (strip_ts_sz b))
      else key)"

text \<open>
  \<open>delta_value\<close> is only read when it is not null: the assertion on that branch is \<open>the\<close> here.
\<close>

definition AddWithLastKeyImpl ::
    "slice \<Rightarrow> slice \<Rightarrow> slice \<Rightarrow> slice option \<Rightarrow> bool \<Rightarrow> nat \<Rightarrow> block_builder \<Rightarrow> block_builder" where
  "AddWithLastKeyImpl key val last_key delta_value skip_delta_encoding buffer_size b =
     (let key_to_persist = MaybeStripTimestampFromKey b key;
          last_key_persisted =
            (if length last_key = 0 then last_key else MaybeStripTimestampFromKey b last_key);
          restart = bb_counter b \<ge> block_restart_interval b;
          shared = (if \<not> restart \<and> use_delta_encoding b \<and> \<not> skip_delta_encoding
                    then difference_offset key_to_persist last_key_persisted else 0);
          b = (if restart
               then b\<lparr>bb_restarts := bb_restarts b @ [of_nat buffer_size],
                      bb_estimate := bb_estimate b + 4, bb_counter := 0\<rparr>
               else b);
          non_shared = length key_to_persist - shared;
          buffer = (if use_value_delta_encoding b
                    then PutVarint32Varint32 (bb_buffer b) (of_nat shared) (of_nat non_shared)
                    else PutVarint32Varint32Varint32 (bb_buffer b) (of_nat shared)
                           (of_nat non_shared) (of_nat (length val)));
          buffer = buffer @ take non_shared (drop shared key_to_persist);
          buffer = (if shared \<noteq> 0 \<and> use_value_delta_encoding b then buffer @ the delta_value
                    else buffer @ val);
          b = b\<lparr>bb_buffer := buffer\<rparr>;
          b = (if hb_Valid (bb_hash b)
               then b\<lparr>bb_hash := hb_Add (ExtractUserKey key) (length (bb_restarts b) - 1) (bb_hash b)\<rparr>
               else b)
      in b\<lparr>bb_counter := bb_counter b + 1,
           bb_estimate := bb_estimate b + (length buffer - buffer_size)\<rparr>)"

definition bb_Add :: "slice \<Rightarrow> slice \<Rightarrow> slice option \<Rightarrow> bool \<Rightarrow> block_builder \<Rightarrow> block_builder" where
  "bb_Add key val delta_value skip_delta_encoding b =
     (let b = AddWithLastKeyImpl key val (bb_last_key b) delta_value skip_delta_encoding
                (length (bb_buffer b)) b
      in if use_delta_encoding b then b\<lparr>bb_last_key := key\<rparr> else b)"

definition AddWithLastKey ::
    "slice \<Rightarrow> slice \<Rightarrow> slice \<Rightarrow> slice option \<Rightarrow> bool \<Rightarrow> block_builder \<Rightarrow> block_builder" where
  "AddWithLastKey key val last_key_param delta_value skip_delta_encoding b =
     (let buffer_size = length (bb_buffer b);
          last_key = take (length last_key_param * of_bool (buffer_size > 0)) last_key_param
      in AddWithLastKeyImpl key val last_key delta_value skip_delta_encoding buffer_size b)"

end
