(* ===== verification/Iter_Key.thy ===== *)
theory Iter_Key
  imports Dbformat
begin

text \<open>
  \<open>IterKey\<close> of \<open>db/dbformat.h\<close>: the key an iterator is positioned at. The key lives in one of two
  buffers the object owns or is a pointer to bytes outside it; a new key may share a prefix with
  the old one, and with timestamps that are not persisted a minimal timestamp is inserted in
  front of the footer while the parts are copied from one buffer to the other.
\<close>

unbundle bit_operations_syntax

section \<open>State\<close>

text \<open>
  \<open>key_\<close> points to \<open>buf_\<close>, to \<open>secondary_buf_\<close> or elsewhere. A buffer is a byte list whose length
  is its size (\<open>buf_size_\<close>, \<open>secondary_buf_size_\<close>); the bytes of a fresh buffer, which the code
  leaves uninitialised, are zeros here. Bytes behind an outside pointer are \<open>ik_outside\<close>.
  \<open>ik_overrun\<close> records that a copy wrote past the end of its buffer, after which the behaviour of the
  program is undefined; nothing in the code corresponds to it.
\<close>

datatype key_place = In_Buf | In_Secondary | Outside

record iter_key =
  ik_place :: key_place
  ik_outside :: slice
  ik_key_size :: nat
  ik_buf :: slice
  ik_secondary_buf :: slice
  ik_is_user_key :: bool
  ik_overrun :: bool

definition kInlineBufferSize :: nat where
  "kInlineBufferSize = 39"

definition kTsMin :: slice where
  "kTsMin = replicate 9 0"

definition IterKey :: iter_key where
  "IterKey =
     \<lparr>ik_place = In_Buf, ik_outside = [], ik_key_size = 0,
      ik_buf = replicate kInlineBufferSize 0, ik_secondary_buf = replicate kInlineBufferSize 0,
      ik_is_user_key = True, ik_overrun = False\<rparr>"

text \<open>
  \<open>memcpy(b + off, s, |s|)\<close>: a buffer keeps its size, so bytes past its end are lost. Writes to
  the two buffers of a key note when that happens.
\<close>

definition copy_to :: "slice \<Rightarrow> nat \<Rightarrow> slice \<Rightarrow> slice" where
  "copy_to b off s = take (length b) (take off b @ s @ drop (off + length s) b)"

definition write_buf :: "nat \<Rightarrow> slice \<Rightarrow> iter_key \<Rightarrow> iter_key" where
  "write_buf off s k =
     k\<lparr>ik_buf := copy_to (ik_buf k) off s,
       ik_overrun := ik_overrun k \<or> off + length s > length (ik_buf k)\<rparr>"

definition write_secondary :: "nat \<Rightarrow> slice \<Rightarrow> iter_key \<Rightarrow> iter_key" where
  "write_secondary off s k =
     k\<lparr>ik_secondary_buf := copy_to (ik_secondary_buf k) off s,
       ik_overrun := ik_overrun k \<or> off + length s > length (ik_secondary_buf k)\<rparr>"

text \<open>The bytes from \<open>key_\<close> on.\<close>

definition key_ptr :: "iter_key \<Rightarrow> slice" where
  "key_ptr k =
     (case ik_place k of
        In_Buf \<Rightarrow> ik_buf k | In_Secondary \<Rightarrow> ik_secondary_buf k | Outside \<Rightarrow> ik_outside k)"

definition SetIsUserKey :: "bool \<Rightarrow> iter_key \<Rightarrow> iter_key" where
  "SetIsUserKey b k = k\<lparr>ik_is_user_key := b\<rparr>"

definition GetKey :: "iter_key \<Rightarrow> slice" where
  "GetKey k = take (ik_key_size k) (key_ptr k)"

definition GetInternalKey :: "iter_key \<Rightarrow> slice" where
  "GetInternalKey k = take (ik_key_size k) (key_ptr k)"

definition GetUserKey :: "iter_key \<Rightarrow> slice" where
  "GetUserKey k =
     (if ik_is_user_key k then take (ik_key_size k) (key_ptr k)
      else take (ik_key_size k - kNumInternalBytes) (key_ptr k))"

definition IterKey_Clear :: "iter_key \<Rightarrow> iter_key" where
  "IterKey_Clear k = k\<lparr>ik_key_size := 0\<rparr>"

definition IsKeyPinned :: "iter_key \<Rightarrow> bool" where
  "IsKeyPinned k \<longleftrightarrow> ik_place k \<noteq> In_Buf \<and> ik_place k \<noteq> In_Secondary"

section \<open>Buffers\<close>

text \<open>
  Replacing a buffer that \<open>key_\<close> points to leaves a dangling pointer, here an outside pointer to
  nothing; \<open>key_size_\<close> is 0 then. A buffer of another size than the inline one was allocated.
\<close>

definition leave_buf :: "iter_key \<Rightarrow> iter_key" where
  "leave_buf k = (if ik_place k = In_Buf then k\<lparr>ik_place := Outside, ik_outside := []\<rparr> else k)"

definition leave_secondary_buf :: "iter_key \<Rightarrow> iter_key" where
  "leave_secondary_buf k =
     (if ik_place k = In_Secondary then k\<lparr>ik_place := Outside, ik_outside := []\<rparr> else k)"

definition ResetBuffer :: "iter_key \<Rightarrow> iter_key" where
  "ResetBuffer k =
     (let k = (if ik_place k = In_Buf then k\<lparr>ik_key_size := 0\<rparr> else k)
      in if length (ik_buf k) \<noteq> kInlineBufferSize
         then (leave_buf k)\<lparr>ik_buf := replicate kInlineBufferSize 0\<rparr> else k)"

definition ResetSecondaryBuffer :: "iter_key \<Rightarrow> iter_key" where
  "ResetSecondaryBuffer k =
     (let k = (if ik_place k = In_Secondary then k\<lparr>ik_key_size := 0\<rparr> else k)
      in if length (ik_secondary_buf k) \<noteq> kInlineBufferSize
         then (leave_secondary_buf k)\<lparr>ik_secondary_buf := replicate kInlineBufferSize 0\<rparr> else k)"

definition EnlargeBuffer :: "nat \<Rightarrow> iter_key \<Rightarrow> iter_key" where
  "EnlargeBuffer key_size k = (leave_buf (ResetBuffer k))\<lparr>ik_buf := replicate key_size 0\<rparr>"

definition EnlargeBufferIfNeeded :: "nat \<Rightarrow> iter_key \<Rightarrow> iter_key" where
  "EnlargeBufferIfNeeded key_size k =
     (if key_size > length (ik_buf k) then EnlargeBuffer key_size k else k)"

definition EnlargeSecondaryBufferIfNeeded :: "nat \<Rightarrow> iter_key \<Rightarrow> iter_key" where
  "EnlargeSecondaryBufferIfNeeded key_size k =
     (if key_size \<le> length (ik_secondary_buf k) then k
      else (leave_secondary_buf (ResetSecondaryBuffer k))\<lparr>ik_secondary_buf := replicate key_size 0\<rparr>)"

definition SetKeyImpl :: "slice \<Rightarrow> bool \<Rightarrow> iter_key \<Rightarrow> iter_key" where
  "SetKeyImpl key copy k =
     (let k = (if copy then
                 (write_buf 0 key (EnlargeBufferIfNeeded (length key) k))\<lparr>ik_place := In_Buf\<rparr>
               else k\<lparr>ik_place := Outside, ik_outside := key\<rparr>)
      in k\<lparr>ik_key_size := length key\<rparr>)"

text \<open>
  The version over \<open>key_slices_\<close> copies into the buffer the key is not in. The parts may point
  into the old key, which stays where it is; \<open>copy_parts\<close> is the loop.
\<close>

fun copy_parts ::
    "(nat \<Rightarrow> slice \<Rightarrow> iter_key \<Rightarrow> iter_key) \<Rightarrow> nat \<Rightarrow> slice list \<Rightarrow> iter_key \<Rightarrow> iter_key" where
  "copy_parts write off [] k = k"
| "copy_parts write off (s # parts) k = copy_parts write (off + length s) parts (write off s k)"

definition SetKeyImpl_parts :: "slice list \<Rightarrow> nat \<Rightarrow> iter_key \<Rightarrow> iter_key" where
  "SetKeyImpl_parts key_slices total_bytes k =
     (let k = (if ik_place k = In_Buf then
                 copy_parts write_secondary 0 key_slices
                   ((EnlargeSecondaryBufferIfNeeded total_bytes k)\<lparr>ik_place := In_Secondary\<rparr>)
               else
                 copy_parts write_buf 0 key_slices
                   ((EnlargeBufferIfNeeded total_bytes k)\<lparr>ik_place := In_Buf\<rparr>))
      in k\<lparr>ik_key_size := total_bytes\<rparr>)"

section \<open>Setting the key\<close>

definition SetKey :: "slice \<Rightarrow> bool \<Rightarrow> iter_key \<Rightarrow> iter_key" where
  "SetKey key copy k = SetKeyImpl key copy k"

definition SetUserKey :: "slice \<Rightarrow> bool \<Rightarrow> iter_key \<Rightarrow> iter_key" where
  "SetUserKey key copy k = SetKeyImpl key copy (k\<lparr>ik_is_user_key := True\<rparr>)"

definition SetInternalKey :: "slice \<Rightarrow> bool \<Rightarrow> iter_key \<Rightarrow> iter_key" where
  "SetInternalKey key copy k = SetKeyImpl key copy (k\<lparr>ik_is_user_key := False\<rparr>)"

definition SetInternalKey_parts ::
    "slice \<Rightarrow> slice \<Rightarrow> u64 \<Rightarrow> value_type \<Rightarrow> slice option \<Rightarrow> iter_key \<Rightarrow> iter_key" where
  "SetInternalKey_parts key_prefix ukey s t ts k =
     (let psize = length key_prefix;
          usize = length ukey;
          ts_sz = (case ts of None \<Rightarrow> 0 | Some ts \<Rightarrow> length ts);
          k = EnlargeBufferIfNeeded (psize + usize + 8 + ts_sz) k;
          k = (if psize > 0 then write_buf 0 key_prefix k else k);
          k = write_buf psize ukey k;
          k = (case ts of None \<Rightarrow> k | Some ts \<Rightarrow> write_buf (psize + usize) ts k);
          k = write_buf (usize + psize + ts_sz) (EncodeFixed64 (PackSequenceAndType s t)) k
      in k\<lparr>ik_place := In_Buf, ik_key_size := psize + usize + 8 + ts_sz, ik_is_user_key := False\<rparr>)"

definition IterKey_UpdateInternalKey :: "u64 \<Rightarrow> value_type \<Rightarrow> slice option \<Rightarrow> iter_key \<Rightarrow> iter_key" where
  "IterKey_UpdateInternalKey seq t ts k =
     (let k = (case ts of
                 None \<Rightarrow> k
               | Some ts \<Rightarrow>
                   write_buf (ik_key_size k - kNumInternalBytes - length ts) ts k);
          newval = push_bit 8 seq OR ucast t;
          pos = ik_key_size k - kNumInternalBytes
      in if ik_place k = In_Buf then write_buf pos (EncodeFixed64 newval) k
         else write_secondary pos (EncodeFixed64 newval) k)"

definition IterKey_Reserve :: "nat \<Rightarrow> iter_key \<Rightarrow> iter_key" where
  "IterKey_Reserve sz k = (EnlargeBufferIfNeeded sz k)\<lparr>ik_key_size := sz\<rparr>"

definition EncodeLengthPrefixedKey :: "slice \<Rightarrow> iter_key \<Rightarrow> iter_key" where
  "EncodeLengthPrefixedKey key k =
     (let sz = length key;
          k = EnlargeBufferIfNeeded (sz + unat (VarintLength (of_nat sz))) k;
          head = EncodeVarint32 (of_nat sz)
      in (write_buf (length head) key (write_buf 0 head k))
           \<lparr>ik_place := In_Buf, ik_is_user_key := True\<rparr>)"

section \<open>Sharing a prefix with the old key\<close>

definition TrimAppend :: "nat \<Rightarrow> slice \<Rightarrow> iter_key \<Rightarrow> iter_key" where
  "TrimAppend shared_len non_shared k =
     (let total_size = shared_len + length non_shared;
          k = (if IsKeyPinned k then
                 let k = EnlargeBufferIfNeeded total_size k
                 in write_buf 0 (take shared_len (key_ptr k)) k
               else if total_size > length (ik_buf k) then
                 write_buf 0 (take shared_len (key_ptr k)) (k\<lparr>ik_buf := replicate total_size 0\<rparr>)
               else k)
      in (write_buf shared_len non_shared k)\<lparr>ik_place := In_Buf, ik_key_size := total_size\<rparr>)"

definition MaybeAddKeyPartsWithTimestamp ::
    "slice \<Rightarrow> nat \<Rightarrow> bool \<Rightarrow> nat \<Rightarrow> nat \<Rightarrow> slice list \<times> bool \<Rightarrow> slice list \<times> bool" where
  "MaybeAddKeyPartsWithTimestamp slice_data slice_sz add_timestamp left_sz ts_sz st =
     (let (parts, ts_added) = st in
      if add_timestamp \<and> \<not> ts_added then
        (parts @ [take left_sz slice_data, take ts_sz kTsMin,
                  take (slice_sz - left_sz) (drop left_sz slice_data)], True)
      else (parts @ [take slice_sz slice_data], ts_added))"

text \<open>
  The sizes in front of the timestamp are differences of unsigned numbers that are only used
  when they do not wrap around.
\<close>

definition TrimAppendWithTimestamp :: "nat \<Rightarrow> slice \<Rightarrow> nat \<Rightarrow> iter_key \<Rightarrow> iter_key" where
  "TrimAppendWithTimestamp shared_len non_shared ts_sz k =
     (let key = key_ptr k;
          non_shared_len = length non_shared;
          parts =
            (if ik_is_user_key k then [take shared_len key, non_shared, take ts_sz kTsMin]
             else
               let user_key_len = ik_key_size k - kNumInternalBytes;
                   sharable_user_key_len = user_key_len - ts_sz;
                   shared_user_key_len = min shared_len sharable_user_key_len;
                   shared_internal_bytes_len = shared_len - shared_user_key_len;
                   st = MaybeAddKeyPartsWithTimestamp key shared_user_key_len
                          (shared_internal_bytes_len + non_shared_len < kNumInternalBytes)
                          (shared_len + non_shared_len - kNumInternalBytes) ts_sz ([], False);
                   st = MaybeAddKeyPartsWithTimestamp (drop user_key_len key)
                          shared_internal_bytes_len (non_shared_len < kNumInternalBytes)
                          (shared_internal_bytes_len + non_shared_len - kNumInternalBytes) ts_sz st;
                   st = MaybeAddKeyPartsWithTimestamp non_shared non_shared_len
                          (non_shared_len \<ge> kNumInternalBytes)
                          (non_shared_len - kNumInternalBytes) ts_sz st
               in fst st)
      in SetKeyImpl_parts parts (shared_len + non_shared_len + ts_sz) k)"

definition SetKeyWithPaddedMinTimestamp :: "slice \<Rightarrow> nat \<Rightarrow> iter_key \<Rightarrow> iter_key" where
  "SetKeyWithPaddedMinTimestamp key ts_sz k =
     (let parts =
            (if ik_is_user_key k then [key, take ts_sz kTsMin]
             else
               let user_key_size = length key - kNumInternalBytes
               in [take user_key_size key, take ts_sz kTsMin,
                   take kNumInternalBytes (drop user_key_size key)])
      in SetKeyImpl_parts parts (length key + ts_sz) k)"

section \<open>What the operations leave as the key\<close>

named_theorems ik_simps

definition ik_ok :: "iter_key \<Rightarrow> bool" where
  "ik_ok k \<longleftrightarrow> ik_key_size k \<le> length (key_ptr k)"

definition pad_min :: "bool \<Rightarrow> nat \<Rightarrow> slice \<Rightarrow> slice" where
  "pad_min is_user_key ts_sz key =
     (if is_user_key then key @ replicate ts_sz 0 else PadInternalKeyWithMinTimestamp [] key ts_sz)"

lemma length_GetKey [ik_simps]: "ik_ok k \<Longrightarrow> length (GetKey k) = ik_key_size k"
  by (simp add: ik_ok_def GetKey_def)

lemma length_copy_to [simp]: "length (copy_to b off s) = length b"
  by (auto simp: copy_to_def)

lemma take_copy_to:
  "off + length s \<le> length b \<Longrightarrow> take (off + length s) (copy_to b off s) = take off b @ s"
  by (simp add: copy_to_def)

lemma write_buf_fields [simp]:
  "ik_place (write_buf off s k) = ik_place k" "ik_outside (write_buf off s k) = ik_outside k"
  "ik_key_size (write_buf off s k) = ik_key_size k" "ik_buf (write_buf off s k) = copy_to (ik_buf k) off s"
  "ik_secondary_buf (write_buf off s k) = ik_secondary_buf k" "ik_is_user_key (write_buf off s k) = ik_is_user_key k"
  "ik_overrun (write_buf off s k) \<longleftrightarrow> ik_overrun k \<or> length (ik_buf k) < off + length s"
  by (auto simp: write_buf_def)

lemma write_secondary_fields [simp]:
  "ik_place (write_secondary off s k) = ik_place k" "ik_outside (write_secondary off s k) = ik_outside k"
  "ik_key_size (write_secondary off s k) = ik_key_size k" "ik_buf (write_secondary off s k) = ik_buf k"
  "ik_secondary_buf (write_secondary off s k) = copy_to (ik_secondary_buf k) off s"
  "ik_is_user_key (write_secondary off s k) = ik_is_user_key k"
  "ik_overrun (write_secondary off s k) \<longleftrightarrow> ik_overrun k \<or> length (ik_secondary_buf k) < off + length s"
  by (auto simp: write_secondary_def)

text \<open>What the loop over parts does, for a buffer that is written by \<open>put\<close> and read by \<open>get\<close>.\<close>

locale key_buffer =
  fixes get :: "iter_key \<Rightarrow> slice"
    and put :: "nat \<Rightarrow> slice \<Rightarrow> iter_key \<Rightarrow> iter_key"
  assumes get_write: "get (put off s k) = copy_to (get k) off s"
    and overrun_write: "ik_overrun (put off s k) \<longleftrightarrow> ik_overrun k \<or> length (get k) < off + length s"
    and place_write: "ik_place (put off s k) = ik_place k"
    and user_write: "ik_is_user_key (put off s k) = ik_is_user_key k"
begin

lemma copy_parts_fields:
  "length (get (copy_parts put off parts k)) = length (get k)"
  "ik_place (copy_parts put off parts k) = ik_place k"
  "ik_is_user_key (copy_parts put off parts k) = ik_is_user_key k"
  by (induction parts arbitrary: off k) (simp_all add: get_write place_write user_write)

lemma copy_parts_overrun:
  "off + length (concat parts) \<le> length (get k) \<Longrightarrow> ik_overrun (copy_parts put off parts k) = ik_overrun k"
  by (induction parts arbitrary: off k) (auto simp: overrun_write get_write)

lemma copy_parts_take:
  "off + length (concat parts) \<le> length (get k) \<Longrightarrow>
   take (off + length (concat parts)) (get (copy_parts put off parts k)) = take off (get k) @ concat parts"
proof (induction parts arbitrary: off k)
  case (Cons s parts)
  have "take (off + length s + length (concat parts)) (get (copy_parts put (off + length s) parts (put off s k))) =
      take (off + length s) (get (put off s k)) @ concat parts"
    using Cons.prems by (intro Cons.IH) (simp add: get_write)
  with Cons.prems show ?case by (simp add: take_copy_to get_write ac_simps)
qed simp

end

interpretation first_buffer: key_buffer ik_buf write_buf
  by unfold_locales simp_all

interpretation second_buffer: key_buffer ik_secondary_buf write_secondary
  by unfold_locales simp_all

lemma EnlargeBufferIfNeeded_facts [simp]:
  "sz \<le> length (ik_buf (EnlargeBufferIfNeeded sz k))"
  "ik_is_user_key (EnlargeBufferIfNeeded sz k) = ik_is_user_key k"
  "ik_secondary_buf (EnlargeBufferIfNeeded sz k) = ik_secondary_buf k"
  "ik_overrun (EnlargeBufferIfNeeded sz k) = ik_overrun k"
  by (auto simp: EnlargeBufferIfNeeded_def EnlargeBuffer_def ResetBuffer_def leave_buf_def Let_def)

lemma EnlargeBufferIfNeeded_outside:
  "ik_place k \<noteq> In_Buf \<Longrightarrow> key_ptr (EnlargeBufferIfNeeded sz k) = key_ptr k"
  by (auto simp: EnlargeBufferIfNeeded_def EnlargeBuffer_def ResetBuffer_def leave_buf_def
      key_ptr_def Let_def split: key_place.splits)

lemma EnlargeSecondaryBufferIfNeeded_facts [simp]:
  "sz \<le> length (ik_secondary_buf (EnlargeSecondaryBufferIfNeeded sz k))"
  "ik_is_user_key (EnlargeSecondaryBufferIfNeeded sz k) = ik_is_user_key k"
  "ik_overrun (EnlargeSecondaryBufferIfNeeded sz k) = ik_overrun k"
  by (auto simp: EnlargeSecondaryBufferIfNeeded_def ResetSecondaryBuffer_def
      leave_secondary_buf_def Let_def)

lemma SetKeyImpl_facts:
  "GetKey (SetKeyImpl key copy k) = key" "ik_ok (SetKeyImpl key copy k)"
  "ik_is_user_key (SetKeyImpl key copy k) = ik_is_user_key k"
  "IsKeyPinned (SetKeyImpl key copy k) = (\<not> copy)"
  "ik_place (SetKeyImpl key copy k) \<noteq> In_Secondary"
  "ik_overrun (SetKeyImpl key copy k) = ik_overrun k"
  using take_copy_to [of 0 key "ik_buf (EnlargeBufferIfNeeded (length key) k)"]
  by (auto simp: SetKeyImpl_def GetKey_def ik_ok_def key_ptr_def IsKeyPinned_def Let_def
      EnlargeBufferIfNeeded_facts(1) [THEN leD])

lemmas SetKey_facts [ik_simps] = SetKeyImpl_facts [folded SetKey_def]

lemma SetKeyImpl_parts_ok: "ik_ok (SetKeyImpl_parts parts tot k)"
  by (simp add: SetKeyImpl_parts_def ik_ok_def key_ptr_def Let_def first_buffer.copy_parts_fields
      second_buffer.copy_parts_fields)

lemma SetKeyImpl_parts_fits:
  assumes "length (concat parts) \<le> tot"
  shows "ik_overrun (SetKeyImpl_parts parts tot k) = ik_overrun k"
  using order_trans [OF assms EnlargeBufferIfNeeded_facts(1), of k]
    order_trans [OF assms EnlargeSecondaryBufferIfNeeded_facts(1), of k]
  by (simp add: SetKeyImpl_parts_def Let_def first_buffer.copy_parts_overrun second_buffer.copy_parts_overrun)

lemma SetKeyImpl_parts_facts:
  assumes "tot = length (concat parts)"
  shows "GetKey (SetKeyImpl_parts parts tot k) = concat parts"
    "ik_ok (SetKeyImpl_parts parts tot k)"
    "ik_is_user_key (SetKeyImpl_parts parts tot k) = ik_is_user_key k"
    "\<not> IsKeyPinned (SetKeyImpl_parts parts tot k)"
proof -
  show "GetKey (SetKeyImpl_parts parts tot k) = concat parts"
    using assms first_buffer.copy_parts_take [of 0 parts "(EnlargeBufferIfNeeded tot k)\<lparr>ik_place := In_Buf\<rparr>"]
      second_buffer.copy_parts_take [of 0 parts "(EnlargeSecondaryBufferIfNeeded tot k)\<lparr>ik_place := In_Secondary\<rparr>"]
    by (simp add: SetKeyImpl_parts_def GetKey_def key_ptr_def Let_def first_buffer.copy_parts_fields
        second_buffer.copy_parts_fields)
  show "ik_ok (SetKeyImpl_parts parts tot k)" by (rule SetKeyImpl_parts_ok)
qed (simp_all add: SetKeyImpl_parts_def IsKeyPinned_def Let_def first_buffer.copy_parts_fields
    second_buffer.copy_parts_fields)

lemma Clear_facts [ik_simps]:
  "GetKey (IterKey_Clear k) = []" "ik_ok (IterKey_Clear k)" "ik_key_size (IterKey_Clear k) = 0"
  "ik_is_user_key (IterKey_Clear k) = ik_is_user_key k" "ik_place (IterKey_Clear k) = ik_place k"
  by (simp_all add: IterKey_Clear_def GetKey_def ik_ok_def)

lemma GetUserKey_eq [ik_simps]:
  "ik_ok k \<Longrightarrow> GetUserKey k = (if ik_is_user_key k then GetKey k else ExtractUserKey (GetKey k))"
  by (simp add: GetUserKey_def GetKey_def ExtractUserKey_def ik_ok_def min_def)

lemma GetInternalKey_eq [ik_simps]: "GetInternalKey k = GetKey k"
  by (simp add: GetInternalKey_def GetKey_def)

text \<open>
  \<open>TrimAppend\<close> takes the shared bytes from where the key is, unless the key is in the secondary
  buffer and the first buffer is large enough.
\<close>

lemma TrimAppend_facts:
  assumes "ik_ok k" and "shared \<le> ik_key_size k" and "ik_place k \<noteq> In_Secondary"
  shows "GetKey (TrimAppend shared s k) = take shared (GetKey k) @ s"
    "ik_ok (TrimAppend shared s k)"
    "ik_is_user_key (TrimAppend shared s k) = ik_is_user_key k"
    "ik_place (TrimAppend shared s k) = In_Buf"
proof -
  let ?sh = "take shared (key_ptr k)"
  have len: "length ?sh = shared" using assms by (simp add: ik_ok_def)
  have sh: "take shared (GetKey k) = ?sh" using assms by (simp add: GetKey_def)
  obtain k' where k': "TrimAppend shared s k =
      (write_buf shared s k')\<lparr>ik_place := In_Buf, ik_key_size := shared + length s\<rparr>"
    and room: "shared + length s \<le> length (ik_buf k')"
    and pre: "take shared (ik_buf k') = ?sh" and user: "ik_is_user_key k' = ik_is_user_key k"
  proof (cases "IsKeyPinned k")
    case True
    let ?e = "EnlargeBufferIfNeeded (shared + length s) k"
    have room: "shared + length s \<le> length (ik_buf ?e)" by simp
    have "take shared (copy_to (ik_buf ?e) 0 ?sh) = ?sh"
      using take_copy_to [of 0 ?sh "ik_buf ?e"] len room by (simp del: EnlargeBufferIfNeeded_facts)
    moreover have "key_ptr ?e = key_ptr k"
      using True by (intro EnlargeBufferIfNeeded_outside) (simp add: IsKeyPinned_def)
    ultimately show ?thesis
      using True len room
      by (intro that [of "write_buf 0 ?sh ?e"])
        (simp_all add: TrimAppend_def Let_def del: EnlargeBufferIfNeeded_facts(1))
  next
    case False
    then have buf: "key_ptr k = ik_buf k"
      using assms(3) by (cases "ik_place k") (simp_all add: IsKeyPinned_def key_ptr_def)
    have "take shared (copy_to (replicate (shared + length s) 0) 0 ?sh) = ?sh"
      using take_copy_to [of 0 ?sh "replicate (shared + length s) 0"] len by simp
    with False len buf show ?thesis
      by (intro that [of "if shared + length s > length (ik_buf k)
            then write_buf 0 ?sh (k\<lparr>ik_buf := replicate (shared + length s) 0\<rparr>) else k"])
        (auto simp: TrimAppend_def Let_def)
  qed
  show "GetKey (TrimAppend shared s k) = take shared (GetKey k) @ s"
    unfolding sh using take_copy_to [OF room] pre by (simp add: k' GetKey_def key_ptr_def)
  show "ik_ok (TrimAppend shared s k)" using room by (simp add: k' ik_ok_def key_ptr_def)
  show "ik_is_user_key (TrimAppend shared s k) = ik_is_user_key k"
    "ik_place (TrimAppend shared s k) = In_Buf"
    by (simp_all add: k' user)
qed

lemma pad_at:
  assumes "kNumInternalBytes \<le> length a + length b" and "length b \<le> kNumInternalBytes"
  shows "PadInternalKeyWithMinTimestamp [] (a @ b) ts =
    take (length a + length b - kNumInternalBytes) a @ replicate ts 0 @
    drop (length a + length b - kNumInternalBytes) a @ b"
  using assms by (simp add: PadInternalKeyWithMinTimestamp_def Let_def)

lemma timestamp_parts:
  assumes b: "length b \<le> kNumInternalBytes"
    and long: "kNumInternalBytes \<le> length a + length b + length s" and ts: "ts \<le> 9"
  shows "concat (fst (MaybeAddKeyPartsWithTimestamp s (length s) (length s \<ge> kNumInternalBytes)
      (length s - kNumInternalBytes) ts
     (MaybeAddKeyPartsWithTimestamp (b @ y) (length b) (length s < kNumInternalBytes)
        (length b + length s - kNumInternalBytes) ts
       (MaybeAddKeyPartsWithTimestamp (a @ x) (length a) (length b + length s < kNumInternalBytes)
          (length a + length b + length s - kNumInternalBytes) ts ([], False))))) =
    PadInternalKeyWithMinTimestamp [] (a @ b @ s) ts"
proof -
  have kts: "take ts kTsMin = replicate ts 0" using ts by (simp add: kTsMin_def)
  consider "length b + length s < kNumInternalBytes"
    | "length b + length s \<ge> kNumInternalBytes" "length s < kNumInternalBytes"
    | "length s \<ge> kNumInternalBytes" by linarith
  then show ?thesis
  proof cases
    case 1
    then show ?thesis
      using b long pad_at [of a "b @ s"]
      by (simp add: MaybeAddKeyPartsWithTimestamp_def kts add.assoc)
  next
    case 2
    then show ?thesis
      using b long pad_at [of "a @ b" s]
      by (simp add: MaybeAddKeyPartsWithTimestamp_def kts add.assoc)
  next
    case 3
    then show ?thesis
      using b long pad_at [of "a @ b @ s" "[]"]
      by (simp add: MaybeAddKeyPartsWithTimestamp_def kts add.assoc)
  qed
qed

lemma length_pad_min [ik_simps]: "length (pad_min user ts key) = length key + ts"
  by (simp add: pad_min_def PadInternalKeyWithMinTimestamp_def Let_def)

lemma key_ptr_GetKey: "ik_ok k \<Longrightarrow> \<exists>rest. key_ptr k = GetKey k @ rest"
  using append_take_drop_id [of "ik_key_size k" "key_ptr k"] by (metis GetKey_def)

lemma TrimAppendWithTimestamp_facts:
  assumes k: "ik_ok k" "GetKey k = pad_min (ik_is_user_key k) ts st" and ts: "ts \<le> 9"
    and sh: "shared \<le> length st"
    and footer: "\<not> ik_is_user_key k \<Longrightarrow>
      kNumInternalBytes \<le> length st \<and> kNumInternalBytes \<le> shared + length s"
  defines "k' \<equiv> TrimAppendWithTimestamp shared s ts k"
  shows "GetKey k' = pad_min (ik_is_user_key k) ts (take shared st @ s) \<and> ik_ok k' \<and>
    ik_is_user_key k' = ik_is_user_key k \<and> \<not> IsKeyPinned k'"
proof -
  obtain rest where ptr: "key_ptr k = pad_min (ik_is_user_key k) ts st @ rest"
    using key_ptr_GetKey [OF k(1)] k(2) by auto
  have size: "ik_key_size k = length st + ts" using length_GetKey [OF k(1)] k(2) length_pad_min by simp
  have parts: "\<exists>parts. k' = SetKeyImpl_parts parts (shared + length s + ts) k \<and>
      concat parts = pad_min (ik_is_user_key k) ts (take shared st @ s)"
  proof (cases "ik_is_user_key k")
    case True
    then show ?thesis
      using ptr sh ts
      by (intro exI [of _ "[take shared st, s, replicate ts 0]"])
        (simp add: k'_def TrimAppendWithTimestamp_def Let_def pad_min_def kTsMin_def)
  next
    case False
    define n where "n = length st - kNumInternalBytes"
    have st: "take n st @ drop n st = st" "length (take n st) = n"
      "length (drop n st) = kNumInternalBytes" "kNumInternalBytes \<le> length st"
      using footer [OF False] by (auto simp: n_def)
    have ptr': "key_ptr k = take n st @ replicate ts 0 @ drop n st @ rest"
      using ptr False st by (simp add: pad_min_def PadInternalKeyWithMinTimestamp_def Let_def n_def)
    let ?su = "min shared n" and ?si = "shared - min shared n"
    let ?a = "take ?su st" and ?b = "take ?si (drop n st)"
    have len: "length ?a = ?su" "length ?b = ?si" using sh st by (auto simp: n_def min_def)
    have cut: "take shared st = ?a @ ?b"
      using sh by (cases "shared \<le> n") (auto simp: min_def take_add [symmetric])
    have "take ?su (key_ptr k) = ?a" using st by (simp add: ptr' n_def)
    then obtain x where a: "?a @ x = key_ptr k" by (metis append_take_drop_id)
    have "take ?si (drop (n + ts) (key_ptr k)) = ?b" using sh st by (simp add: ptr' n_def min_def)
    then obtain y where b: "?b @ y = drop (n + ts) (key_ptr k)" by (metis append_take_drop_id)
    have n: "length st + ts - kNumInternalBytes = n + ts" "n + ts - ts = n" "?su + ?si = shared"
      using st by (auto simp: n_def)
    let ?P = "fst (MaybeAddKeyPartsWithTimestamp s (length s) (length s \<ge> kNumInternalBytes)
        (length s - kNumInternalBytes) ts
       (MaybeAddKeyPartsWithTimestamp (drop (n + ts) (key_ptr k)) ?si (length s < kNumInternalBytes)
          (?si + length s - kNumInternalBytes) ts
         (MaybeAddKeyPartsWithTimestamp (key_ptr k) ?su (?si + length s < kNumInternalBytes)
            (shared + length s - kNumInternalBytes) ts ([], False))))"
    have "concat ?P =
      PadInternalKeyWithMinTimestamp [] (?a @ ?b @ s) ts"
      using timestamp_parts [of ?b ?a s ts y x] footer [OF False] ts sh st(3,4) n(3)
      unfolding a b len by (simp add: n_def)
    moreover have "k' = SetKeyImpl_parts ?P (shared + length s + ts) k"
      using False by (simp add: k'_def TrimAppendWithTimestamp_def Let_def size n)
    ultimately show ?thesis using False by (intro exI [of _ ?P]) (simp add: cut pad_min_def)
  qed
  then obtain parts where *: "k' = SetKeyImpl_parts parts (shared + length s + ts) k"
    "concat parts = pad_min (ik_is_user_key k) ts (take shared st @ s)" by auto
  have "shared + length s + ts = length (concat parts)" using sh by (simp add: *(2) length_pad_min)
  from SetKeyImpl_parts_facts [OF this, of k] show ?thesis by (simp add: *)
qed

lemma SetKeyWithPaddedMinTimestamp_facts:
  assumes "ts \<le> 9" and "\<not> ik_is_user_key k \<Longrightarrow> kNumInternalBytes \<le> length key"
  defines "k' \<equiv> SetKeyWithPaddedMinTimestamp key ts k"
  shows "GetKey k' = pad_min (ik_is_user_key k) ts key \<and> ik_ok k' \<and>
    ik_is_user_key k' = ik_is_user_key k \<and> \<not> IsKeyPinned k'"
proof -
  obtain parts where *: "k' = SetKeyImpl_parts parts (length key + ts) k"
    "concat parts = pad_min (ik_is_user_key k) ts key"
    using assms(1) by (intro that [of "if ik_is_user_key k then [key, replicate ts 0]
        else [take (length key - kNumInternalBytes) key, replicate ts 0,
          take kNumInternalBytes (drop (length key - kNumInternalBytes) key)]"])
      (simp_all add: k'_def SetKeyWithPaddedMinTimestamp_def Let_def pad_min_def
        kTsMin_def PadInternalKeyWithMinTimestamp_def)
  have "length key + ts = length (concat parts)" by (simp add: *(2) length_pad_min)
  from SetKeyImpl_parts_facts [OF this, of k] show ?thesis by (simp add: *)
qed

section \<open>Reachable keys\<close>

text \<open>
  The states of an \<open>IterKey\<close> under its public operations, called as their assertions demand. Where
  the code relies on more than it asserts, so do the rules: the timestamp of \<open>UpdateInternalKey\<close> is
  written to \<open>buf_\<close> wherever the key is, \<open>Reserve\<close> changes the size of the key and not the place, and
  \<open>EncodeLengthPrefixedKey\<close> changes the place and not the size.
\<close>

inductive iter_key_reach :: "iter_key \<Rightarrow> bool" where
  new: "iter_key_reach IterKey"
| is_user: "iter_key_reach k \<Longrightarrow> iter_key_reach (SetIsUserKey b k)"
| clear: "iter_key_reach k \<Longrightarrow> iter_key_reach (IterKey_Clear k)"
| set: "iter_key_reach k \<Longrightarrow> iter_key_reach (SetKey key copy k)"
| set_user: "iter_key_reach k \<Longrightarrow> iter_key_reach (SetUserKey key copy k)"
| set_internal: "iter_key_reach k \<Longrightarrow> iter_key_reach (SetInternalKey key copy k)"
| set_parts: "iter_key_reach k \<Longrightarrow> iter_key_reach (SetInternalKey_parts key_prefix ukey s t ts k)"
| update: "iter_key_reach k \<Longrightarrow> \<not> IsKeyPinned k \<Longrightarrow> kNumInternalBytes \<le> ik_key_size k \<Longrightarrow>
    iter_key_reach (IterKey_UpdateInternalKey s t None k)"
| update_ts: "iter_key_reach k \<Longrightarrow> ik_place k = In_Buf \<Longrightarrow> kNumInternalBytes + length ts \<le> ik_key_size k \<Longrightarrow>
    iter_key_reach (IterKey_UpdateInternalKey s t (Some ts) k)"
| trim_append: "iter_key_reach k \<Longrightarrow> shared_len \<le> ik_key_size k \<Longrightarrow>
    iter_key_reach (TrimAppend shared_len non_shared k)"
| trim_append_ts: "iter_key_reach k \<Longrightarrow> ts_sz = 8 \<Longrightarrow> shared_len + ts_sz \<le> ik_key_size k \<Longrightarrow>
    ik_is_user_key k \<or> kNumInternalBytes + ts_sz \<le> ik_key_size k \<and> kNumInternalBytes \<le> shared_len + length non_shared \<Longrightarrow>
    iter_key_reach (TrimAppendWithTimestamp shared_len non_shared ts_sz k)"
| set_padded: "iter_key_reach k \<Longrightarrow> ts_sz = 8 \<Longrightarrow> ik_is_user_key k \<or> kNumInternalBytes \<le> length key \<Longrightarrow>
    iter_key_reach (SetKeyWithPaddedMinTimestamp key ts_sz k)"
| reserve: "iter_key_reach k \<Longrightarrow> sz \<le> length (ik_buf k) \<Longrightarrow> sz \<le> length (key_ptr k) \<Longrightarrow>
    iter_key_reach (IterKey_Reserve sz k)"
| length_prefixed: "iter_key_reach k \<Longrightarrow> ik_key_size k \<le> length (ik_buf k) \<Longrightarrow> length key < 2 ^ 32 \<Longrightarrow>
    iter_key_reach (EncodeLengthPrefixedKey key k)"

text \<open>The key is inside its memory, and no copy ever left its buffer.\<close>

definition ik_safe :: "iter_key \<Rightarrow> bool" where
  "ik_safe k \<longleftrightarrow> ik_ok k \<and> \<not> ik_overrun k"

lemma SetKeyImpl_safe: "ik_safe k \<Longrightarrow> ik_safe (SetKeyImpl key copy (k\<lparr>ik_is_user_key := b\<rparr>))"
  "ik_safe k \<Longrightarrow> ik_safe (SetKeyImpl key copy k)"
  by (simp_all add: ik_safe_def SetKeyImpl_facts)

lemma SetInternalKey_parts_safe:
  assumes "ik_safe k"
  shows "ik_safe (SetInternalKey_parts key_prefix ukey s t ts k)"
proof -
  define n where "n = length key_prefix + length ukey + 8 + (case ts of None \<Rightarrow> 0 | Some ts \<Rightarrow> length ts)"
  have "n \<le> length (ik_buf (EnlargeBufferIfNeeded n k))" by simp
  then show ?thesis
    using assms unfolding SetInternalKey_parts_def Let_def n_def [symmetric]
    by (auto simp: ik_safe_def ik_ok_def key_ptr_def n_def split: option.splits
        simp del: EnlargeBufferIfNeeded_facts(1))
qed

lemma UpdateInternalKey_safe:
  assumes "ik_safe k" and "\<not> IsKeyPinned k" and "kNumInternalBytes + (case ts of None \<Rightarrow> 0 | Some ts \<Rightarrow> length ts) \<le> ik_key_size k"
    and "ts \<noteq> None \<longrightarrow> ik_place k = In_Buf"
  shows "ik_safe (IterKey_UpdateInternalKey s t ts k)"
  using assms
  by (cases "ik_place k") (auto simp: ik_safe_def ik_ok_def key_ptr_def IsKeyPinned_def kNumInternalBytes_def
      IterKey_UpdateInternalKey_def Let_def split: option.splits)

lemma TrimAppend_safe:
  assumes "ik_safe k"
  shows "ik_safe (TrimAppend shared_len s k)"
proof -
  have "shared_len + length s \<le> length (ik_buf (EnlargeBufferIfNeeded (shared_len + length s) k))" by simp
  then show ?thesis
    using assms by (auto simp: ik_safe_def ik_ok_def key_ptr_def TrimAppend_def Let_def not_less
        simp del: EnlargeBufferIfNeeded_facts(1))
qed

lemma MaybeAddKeyParts_length:
  assumes "add \<longrightarrow> left_sz \<le> slice_sz"
    and "MaybeAddKeyPartsWithTimestamp slice_data slice_sz add left_sz ts_sz (parts, added) = (parts', added')"
  shows "length (concat parts') + (if added' then 0 else ts_sz) \<le>
    length (concat parts) + (if added then 0 else ts_sz) + slice_sz"
  using assms by (auto simp: MaybeAddKeyPartsWithTimestamp_def split: if_splits)

lemma TrimAppendWithTimestamp_safe:
  assumes "ik_safe k"
  shows "ik_safe (TrimAppendWithTimestamp shared_len s ts_sz k)"
proof -
  obtain parts where "TrimAppendWithTimestamp shared_len s ts_sz k = SetKeyImpl_parts parts (shared_len + length s + ts_sz) k"
    and "length (concat parts) \<le> shared_len + length s + ts_sz"
  proof (cases "ik_is_user_key k")
    case True
    then show ?thesis
      by (intro that [of "[take shared_len (key_ptr k), s, take ts_sz kTsMin]"])
        (simp_all add: TrimAppendWithTimestamp_def Let_def)
  next
    case False
    let ?u = "ik_key_size k - kNumInternalBytes" and ?key = "key_ptr k"
    define su where "su = min shared_len (?u - ts_sz)"
    define si where "si = shared_len - su"
    have sum: "su + si = shared_len" by (simp add: su_def si_def)
    obtain p1 a1 where 1: "MaybeAddKeyPartsWithTimestamp ?key su (si + length s < kNumInternalBytes)
        (shared_len + length s - kNumInternalBytes) ts_sz ([], False) = (p1, a1)" by fastforce
    obtain p2 a2 where 2: "MaybeAddKeyPartsWithTimestamp (drop ?u ?key) si (length s < kNumInternalBytes)
        (si + length s - kNumInternalBytes) ts_sz (p1, a1) = (p2, a2)" by fastforce
    obtain p3 a3 where 3: "MaybeAddKeyPartsWithTimestamp s (length s) (length s \<ge> kNumInternalBytes)
        (length s - kNumInternalBytes) ts_sz (p2, a2) = (p3, a3)" by fastforce
    have "TrimAppendWithTimestamp shared_len s ts_sz k = SetKeyImpl_parts p3 (shared_len + length s + ts_sz) k"
      using False unfolding TrimAppendWithTimestamp_def Let_def su_def [symmetric] si_def [symmetric] 1 2 3
      by simp
    moreover have "length (concat p3) \<le> shared_len + length s + ts_sz"
      using MaybeAddKeyParts_length [OF _ 1] MaybeAddKeyParts_length [OF _ 2] MaybeAddKeyParts_length [OF _ 3] sum
      by (simp, linarith)
    ultimately show ?thesis by (rule that)
  qed
  then show ?thesis using assms SetKeyImpl_parts_ok SetKeyImpl_parts_fits by (simp add: ik_safe_def)
qed

lemma SetKeyWithPaddedMinTimestamp_safe:
  assumes "ik_safe k" and "ik_is_user_key k \<or> kNumInternalBytes \<le> length key"
  shows "ik_safe (SetKeyWithPaddedMinTimestamp key ts_sz k)"
proof -
  have "length (concat (if ik_is_user_key k then [key, take ts_sz kTsMin]
      else [take (length key - kNumInternalBytes) key, take ts_sz kTsMin,
        take kNumInternalBytes (drop (length key - kNumInternalBytes) key)])) \<le> length key + ts_sz"
    using assms(2) by auto
  then show ?thesis
    using assms(1) SetKeyImpl_parts_ok SetKeyImpl_parts_fits
    by (simp only: SetKeyWithPaddedMinTimestamp_def Let_def ik_safe_def) simp
qed

lemma EncodeLengthPrefixedKey_safe:
  assumes "ik_safe k" and "ik_key_size k \<le> length (ik_buf k)" and "length key < 2 ^ 32"
  shows "ik_safe (EncodeLengthPrefixedKey key k)"
proof -
  define head where "head = EncodeVarint32 (of_nat (length key))"
  define e where "e = EnlargeBufferIfNeeded (length key + unat (VarintLength (of_nat (length key)))) k"
  have head: "unat (VarintLength (of_nat (length key))) = length head"
    using assms(3) by (simp add: head_def VarintLength_eq EncodeVarint32_eq ucast_of_nat_up)
  have "length key + length head \<le> length (ik_buf e)" unfolding e_def head [symmetric] by simp
  moreover have "ik_key_size e \<le> length (ik_buf e)" "ik_overrun e = ik_overrun k"
    using assms(2)
    by (auto simp: e_def EnlargeBufferIfNeeded_def EnlargeBuffer_def ResetBuffer_def leave_buf_def Let_def)
  ultimately show ?thesis
    using assms(1) unfolding EncodeLengthPrefixedKey_def Let_def e_def [symmetric] head_def [symmetric]
    by (auto simp: ik_safe_def ik_ok_def key_ptr_def)
qed

lemma IterKey_Reserve_safe:
  "ik_safe k \<Longrightarrow> sz \<le> length (ik_buf k) \<Longrightarrow> sz \<le> length (key_ptr k) \<Longrightarrow> ik_safe (IterKey_Reserve sz k)"
  by (auto simp: ik_safe_def ik_ok_def IterKey_Reserve_def EnlargeBufferIfNeeded_def key_ptr_def split: key_place.splits)

lemma reach_safe: "iter_key_reach k \<Longrightarrow> ik_safe k"
proof (induction rule: iter_key_reach.induct)
  case new
  show ?case by (simp add: ik_safe_def ik_ok_def IterKey_def)
next
  case (is_user k b)
  then show ?case by (auto simp: ik_safe_def ik_ok_def SetIsUserKey_def key_ptr_def split: key_place.splits)
next
  case (clear k)
  then show ?case by (simp add: ik_safe_def ik_ok_def IterKey_Clear_def)
qed (auto simp: SetUserKey_def SetInternalKey_def SetKey_def intro: SetKeyImpl_safe SetInternalKey_parts_safe
    UpdateInternalKey_safe TrimAppend_safe TrimAppendWithTimestamp_safe SetKeyWithPaddedMinTimestamp_safe
    IterKey_Reserve_safe EncodeLengthPrefixedKey_safe simp: IsKeyPinned_def)

text \<open>
  C35: An \<open>IterKey\<close> is well formed in every reachable state: the key lies inside the buffer, or the
  outside memory, that \<open>key_\<close> points to, so that \<open>GetKey\<close> returns exactly \<open>key_size_\<close> bytes and
  \<open>GetUserKey\<close> is the user key of what \<open>GetInternalKey\<close> returns; and no copy on the way there wrote
  past the end of a buffer. The states are those of all public operations under their assertions.
  Beyond these, \<open>Reserve\<close> must find its size in \<open>buf_\<close> and behind \<open>key_\<close>, \<open>EncodeLengthPrefixedKey\<close>
  must find the old key size in \<open>buf_\<close>, and a timestamp is updated only in a key in \<open>buf_\<close>.
\<close>

theorem IterKey_well_formed:
  assumes "iter_key_reach k"
  shows "\<not> ik_overrun k \<and> ik_key_size k \<le> length (key_ptr k) \<and> length (GetKey k) = ik_key_size k \<and>
    (ik_is_user_key k \<longrightarrow> GetUserKey k = GetKey k) \<and>
    (\<not> ik_is_user_key k \<longrightarrow> kNumInternalBytes \<le> ik_key_size k \<longrightarrow>
      GetUserKey k = ExtractUserKey (GetInternalKey k))"
proof -
  have "ik_ok k" "\<not> ik_overrun k" using reach_safe [OF assms] by (simp_all add: ik_safe_def)
  then show ?thesis by (simp add: ik_simps) (simp add: ik_ok_def)
qed

theorem IterKey_well_formed_witness:
  "\<not> ik_overrun (TrimAppend 2 (replicate 50 6) (SetKey [1, 2, 3] False IterKey)) \<and>
   length (GetKey (TrimAppend 2 (replicate 50 6) (SetKey [1, 2, 3] False IterKey))) = 52"
proof -
  let ?k = "SetKey [1, 2, 3] False IterKey"
  have "2 \<le> ik_key_size ?k" by code_simp
  then have "iter_key_reach (TrimAppend 2 (replicate 50 6) ?k)" by (intro iter_key_reach.intros)
  moreover have "ik_key_size (TrimAppend 2 (replicate 50 6) ?k) = 52" by code_simp
  ultimately show ?thesis using IterKey_well_formed by simp
qed

text \<open>
  C36: Delta decoding into an \<open>IterKey\<close> that was reached by its operations. \<open>TrimAppend\<close> keeps the
  first \<open>shared\<close> bytes of the key and replaces everything behind them, whether the key was outside
  or in \<open>buf_\<close>, and whether or not it had to allocate; this is not claimed of a key in the secondary
  buffer, where the code takes the shared bytes from the wrong buffer. With a minimal timestamp of
  at most eight bytes that is inserted in front of the footer, or appended to a user key, the shared
  bytes are counted without the timestamp: if the old key is \<open>st\<close> with the timestamp, wherever it is,
  the new one is the first \<open>shared\<close> bytes of \<open>st\<close> and the given bytes, with the timestamp. No copy
  leaves its buffer.
\<close>

theorem iter_key_delta_decoding:
  assumes "iter_key_reach k" and "ts \<le> 8"
  shows "(shared \<le> ik_key_size k \<longrightarrow> ik_place k \<noteq> In_Secondary \<longrightarrow>
      GetKey (TrimAppend shared s k) = take shared (GetKey k) @ s \<and> \<not> ik_overrun (TrimAppend shared s k)) \<and>
    (GetKey k = pad_min (ik_is_user_key k) ts st \<longrightarrow> shared \<le> length st \<longrightarrow>
      (ik_is_user_key k \<or> kNumInternalBytes \<le> length st \<and> kNumInternalBytes \<le> shared + length s) \<longrightarrow>
      GetKey (TrimAppendWithTimestamp shared s ts k) =
        pad_min (ik_is_user_key k) ts (take shared st @ s) \<and>
      \<not> ik_overrun (TrimAppendWithTimestamp shared s ts k)) \<and>
    ((ik_is_user_key k \<or> kNumInternalBytes \<le> length s) \<longrightarrow>
      GetKey (SetKeyWithPaddedMinTimestamp s ts k) = pad_min (ik_is_user_key k) ts s \<and>
      \<not> ik_overrun (SetKeyWithPaddedMinTimestamp s ts k))"
proof -
  note safe = reach_safe [OF assms(1)]
  then have ok: "ik_ok k" by (simp add: ik_safe_def)
  have ts: "ts \<le> 9" using assms(2) by simp
  show ?thesis
    using TrimAppend_facts(1) [OF ok, of shared s] TrimAppendWithTimestamp_facts [OF ok _ ts, of st shared s]
      SetKeyWithPaddedMinTimestamp_facts [OF ts, of k s] TrimAppend_safe [OF safe] TrimAppendWithTimestamp_safe [OF safe]
      SetKeyWithPaddedMinTimestamp_safe [OF safe]
    unfolding ik_safe_def by blast
qed

theorem iter_key_delta_decoding_witness:
  "GetKey (TrimAppend 2 [5, 6] (SetKey [1, 2, 3] False IterKey)) = [1, 2, 5, 6] \<and>
   GetKey (TrimAppendWithTimestamp 3 [8, 0, 0, 0, 0, 0, 0] 8
     (SetKeyWithPaddedMinTimestamp [1, 2, 3, 4, 5, 6, 7, 8, 9] 8 (SetIsUserKey False IterKey))) =
     [1, 2, 0, 0, 0, 0, 0, 0, 0, 0, 3, 8, 0, 0, 0, 0, 0, 0]"
proof -
  let ?k = "SetKey [1, 2, 3] False IterKey"
    and ?p = "SetKeyWithPaddedMinTimestamp [1, 2, 3, 4, 5, 6, 7, 8, 9] 8 (SetIsUserKey False IterKey)"
  have reach: "iter_key_reach ?k" "iter_key_reach ?p"
    by (intro iter_key_reach.intros; simp add: kNumInternalBytes_def)+
  have "2 \<le> ik_key_size ?k \<and> ik_place ?k \<noteq> In_Secondary \<and> GetKey ?k = [1, 2, 3]" by code_simp
  then have "GetKey (TrimAppend 2 [5, 6] ?k) = [1, 2, 5, 6]"
    using iter_key_delta_decoding [OF reach(1), of 0 2 "[5, 6]"] by simp
  moreover have "\<not> ik_is_user_key ?p \<and> GetKey ?p = pad_min False 8 [1, 2, 3, 4, 5, 6, 7, 8, 9] \<and>
      pad_min False 8 [1, 2, 3, 8, 0, 0, 0, 0, 0, 0] = [1, 2, 0, 0, 0, 0, 0, 0, 0, 0, 3, 8, 0, 0, 0, 0, 0, 0]" by code_simp
  then have "GetKey (TrimAppendWithTimestamp 3 [8, 0, 0, 0, 0, 0, 0] 8 ?p) =
      [1, 2, 0, 0, 0, 0, 0, 0, 0, 0, 3, 8, 0, 0, 0, 0, 0, 0]"
    using iter_key_delta_decoding [OF reach(2), of 8 3 "[8, 0, 0, 0, 0, 0, 0]" "[1, 2, 3, 4, 5, 6, 7, 8, 9]"]
    by (simp add: kNumInternalBytes_def)
  ultimately show ?thesis by simp
qed

end
