(* ===== verification/Block_Iter.thy ===== *)
theory Block_Iter
  imports Block_Builder Iter_Key
begin

text \<open>
  The readers of blocks: \<open>Block\<close>, \<open>BlockIter\<close>, \<open>DataBlockIter\<close> and \<open>MetaBlockIter\<close> of
  \<open>table/block_based/block.cc\<close> and \<open>block.h\<close>, and the lookup half of \<open>data_block_hash_index.cc\<close>.
  Offsets into a block are natural numbers. \<open>current_\<close>, \<open>restarts_\<close> and the restart points are 32-bit
  numbers in the code, and they are here too: they come from \<open>NextEntryOffset\<close>, which is reduced
  modulo \<open>2 ^ 32\<close>, and from 32-bit words. A pointer to a value is its distance from the start of the
  block, which a corrupt length may carry past the end of the block. Per-entry checksums (\<open>protection_bytes_per_key_\<close> is 0) and the read-amplification
  bitmap are left out.
\<close>

unbundle bit_operations_syntax

section \<open>Decoding the head of an entry\<close>

text \<open>
  \<open>p\<close> and \<open>limit\<close> are offsets into the block; the result holds the shared, non-shared and value
  lengths and the offset of the key bytes, and None is the null pointer. The first three bytes are
  read without a test against \<open>limit\<close>.
\<close>

type_synonym decoded_entry = "u32 \<times> u32 \<times> u32 \<times> nat"

definition decode_lengths :: "slice \<Rightarrow> nat \<Rightarrow> nat \<Rightarrow> decoded_entry option" where
  "decode_lengths d p limit =
     (let shared = ucast (d ! p); non_shared = ucast (d ! (p + 1)); value_length = ucast (d ! (p + 2))
      in if shared OR non_shared OR value_length < 128
         then Some (shared, non_shared, value_length, p + 3)
         else case GetVarint32Ptr (take (limit - p) (drop p d)) of
                None \<Rightarrow> None
              | Some (shared, r) \<Rightarrow>
                  (case GetVarint32Ptr r of
                     None \<Rightarrow> None
                   | Some (non_shared, r) \<Rightarrow>
                       (case GetVarint32Ptr r of
                          None \<Rightarrow> None
                        | Some (value_length, r) \<Rightarrow>
                            Some (shared, non_shared, value_length, limit - length r))))"

definition DecodeEntry :: "slice \<Rightarrow> nat \<Rightarrow> nat \<Rightarrow> decoded_entry option" where
  "DecodeEntry d p limit = decode_lengths d p limit"

text \<open>The sum of the two lengths is computed in 32 bits.\<close>

definition CheckAndDecodeEntry :: "slice \<Rightarrow> nat \<Rightarrow> nat \<Rightarrow> decoded_entry option" where
  "CheckAndDecodeEntry d p limit =
     (if limit - p < 3 then None
      else case decode_lengths d p limit of
             None \<Rightarrow> None
           | Some (shared, non_shared, value_length, q) \<Rightarrow>
               if (of_nat (limit - q) :: u32) < non_shared + value_length then None
               else Some (shared, non_shared, value_length, q))"

definition DecodeKey :: "slice \<Rightarrow> nat \<Rightarrow> nat \<Rightarrow> (u32 \<times> u32 \<times> nat) option" where
  "DecodeKey d p limit =
     (case DecodeEntry d p limit of
        None \<Rightarrow> None
      | Some (shared, non_shared, _, q) \<Rightarrow> Some (shared, non_shared, q))"

definition DecodeKeyV4 :: "slice \<Rightarrow> nat \<Rightarrow> nat \<Rightarrow> (u32 \<times> u32 \<times> nat) option" where
  "DecodeKeyV4 d p limit =
     (if limit - p < 3 then None
      else
        let shared = ucast (d ! p); non_shared = ucast (d ! (p + 1))
        in if shared OR non_shared < 128 then Some (shared, non_shared, p + 2)
           else case GetVarint32Ptr (take (limit - p) (drop p d)) of
                  None \<Rightarrow> None
                | Some (shared, r) \<Rightarrow>
                    (case GetVarint32Ptr r of
                       None \<Rightarrow> None
                     | Some (non_shared, r) \<Rightarrow> Some (shared, non_shared, limit - length r)))"

definition DecodeEntryV4 :: "slice \<Rightarrow> nat \<Rightarrow> nat \<Rightarrow> decoded_entry option" where
  "DecodeEntryV4 d p limit =
     (case DecodeKeyV4 d p limit of
        None \<Rightarrow> None
      | Some (shared, non_shared, q) \<Rightarrow> Some (shared, non_shared, 0, q))"

section \<open>The state of an iterator\<close>

text \<open>
  \<open>value_\<close> is its offset in the block and its size. \<open>bi_data\<close> is None before initialisation.
\<close>

record block_iter =
  bi_data :: "slice option"
  bi_num_restarts :: nat
  bi_restart_index :: nat
  bi_restarts :: nat
  bi_current :: nat
  bi_raw_key :: iter_key
  bi_key_buf :: iter_key
  bi_value :: "nat \<times> nat"
  bi_status :: status
  bi_key :: slice
  bi_global_seqno :: u64
  bi_ts_sz :: nat
  bi_pad_min_timestamp :: bool

definition BlockIter :: block_iter where
  "BlockIter =
     \<lparr>bi_data = None, bi_num_restarts = 0, bi_restart_index = 0, bi_restarts = 0, bi_current = 0,
      bi_raw_key = IterKey, bi_key_buf = IterKey, bi_value = (0, 0), bi_status = OK, bi_key = [],
      bi_global_seqno = 0, bi_ts_sz = 0, bi_pad_min_timestamp = False\<rparr>"

abbreviation block_data :: "'a block_iter_scheme \<Rightarrow> slice" where
  "block_data it \<equiv> the (bi_data it)"

definition value_slice :: "'a block_iter_scheme \<Rightarrow> slice" where
  "value_slice it = take (snd (bi_value it)) (drop (fst (bi_value it)) (block_data it))"

definition Block_Valid :: "'a block_iter_scheme \<Rightarrow> bool" where
  "Block_Valid it \<longleftrightarrow> bi_current it < bi_restarts it"

definition Block_Invalidate :: "status \<Rightarrow> 'a block_iter_scheme \<Rightarrow> 'a block_iter_scheme" where
  "Block_Invalidate s it = it\<lparr>bi_data := None, bi_current := bi_restarts it, bi_status := s\<rparr>"

text \<open>\<open>ts_sz\<close> is the timestamp size of the comparator when there is one.\<close>

definition InitializeBase ::
    "nat option \<Rightarrow> slice \<Rightarrow> nat \<Rightarrow> nat \<Rightarrow> u64 \<Rightarrow> bool \<Rightarrow> 'a block_iter_scheme \<Rightarrow> 'a block_iter_scheme" where
  "InitializeBase ts_sz d restarts num_restarts global_seqno persisted it =
     (let ts = (case ts_sz of None \<Rightarrow> bi_ts_sz it | Some n \<Rightarrow> n)
      in it\<lparr>bi_data := Some d, bi_restarts := restarts, bi_num_restarts := num_restarts,
            bi_current := restarts, bi_restart_index := num_restarts,
            bi_global_seqno := global_seqno, bi_ts_sz := ts,
            bi_pad_min_timestamp := (ts > 0 \<and> \<not> persisted)\<rparr>)"

text \<open>
  Clearing \<open>value_\<close> makes it point to an empty string outside of the block, whose distance from the
  block is not known; it is 0 here. It is read by \<open>Next\<close> only, which may not be called in this
  state, since the iterator is not valid; every other operation first sets \<open>value_\<close> or returns.
\<close>

definition CorruptionError :: "'a block_iter_scheme \<Rightarrow> 'a block_iter_scheme" where
  "CorruptionError it =
     it\<lparr>bi_current := bi_restarts it, bi_restart_index := bi_num_restarts it,
        bi_status := Corruption (str ''bad entry in block'') [],
        bi_raw_key := IterKey_Clear (bi_raw_key it), bi_value := (0, 0)\<rparr>"

definition UpdateRawKeyAndMaybePadMinTimestamp ::
    "slice \<Rightarrow> 'a block_iter_scheme \<Rightarrow> 'a block_iter_scheme" where
  "UpdateRawKeyAndMaybePadMinTimestamp key it =
     (if bi_pad_min_timestamp it
      then it\<lparr>bi_raw_key := SetKeyWithPaddedMinTimestamp key (bi_ts_sz it) (bi_raw_key it)\<rparr>
      else it\<lparr>bi_raw_key := SetKey key False (bi_raw_key it)\<rparr>)"

definition UpdateKey :: "'a block_iter_scheme \<Rightarrow> 'a block_iter_scheme" where
  "UpdateKey it =
     (let it = it\<lparr>bi_key_buf := IterKey_Clear (bi_key_buf it)\<rparr> in
      if \<not> Block_Valid it then it
      else if ik_is_user_key (bi_raw_key it) then it\<lparr>bi_key := GetUserKey (bi_raw_key it)\<rparr>
      else if bi_global_seqno it = kDisableGlobalSequenceNumber
      then it\<lparr>bi_key := GetInternalKey (bi_raw_key it)\<rparr>
      else
        let buf = SetInternalKey_parts [] (GetUserKey (bi_raw_key it)) (bi_global_seqno it)
                    (ExtractValueType (GetInternalKey (bi_raw_key it))) None (bi_key_buf it)
        in it\<lparr>bi_key_buf := buf, bi_key := GetInternalKey buf\<rparr>)"

definition CompareCurrentKey ::
    "(slice \<Rightarrow> slice \<Rightarrow> int) \<Rightarrow> slice \<Rightarrow> 'a block_iter_scheme \<Rightarrow> int" where
  "CompareCurrentKey ucmp other it =
     (if ik_is_user_key (bi_raw_key it) then ucmp (GetUserKey (bi_raw_key it)) other
      else if bi_global_seqno it = kDisableGlobalSequenceNumber
      then InternalKeyCompare ucmp (GetInternalKey (bi_raw_key it)) other
      else InternalKeyCompare_global ucmp (GetInternalKey (bi_raw_key it)) (bi_global_seqno it)
             other kDisableGlobalSequenceNumber)"

text \<open>The difference of two pointers, cast to 32 bits.\<close>

definition NextEntryOffset :: "'a block_iter_scheme \<Rightarrow> nat" where
  "NextEntryOffset it = unat (of_nat (fst (bi_value it) + snd (bi_value it)) :: u32)"

definition GetRestartPoint :: "nat \<Rightarrow> 'a block_iter_scheme \<Rightarrow> nat" where
  "GetRestartPoint index it =
     unat (DecodeFixed32 (drop (bi_restarts it + index * 4) (block_data it)))"

definition SeekToRestartPoint :: "nat \<Rightarrow> 'a block_iter_scheme \<Rightarrow> 'a block_iter_scheme" where
  "SeekToRestartPoint index it =
     (let it = it\<lparr>bi_raw_key := IterKey_Clear (bi_raw_key it), bi_restart_index := index\<rparr>
      in it\<lparr>bi_value := (GetRestartPoint index it, 0)\<rparr>)"

section \<open>Parsing the next entry\<close>

function advance_restart_index :: "'a block_iter_scheme \<Rightarrow> 'a block_iter_scheme" where
  "advance_restart_index it =
     (if bi_restart_index it + 1 < bi_num_restarts it \<and>
         GetRestartPoint (bi_restart_index it + 1) it < bi_current it
      then advance_restart_index (it\<lparr>bi_restart_index := bi_restart_index it + 1\<rparr>)
      else it)"
  by pat_completeness auto
termination
  by (relation "measure (\<lambda>it. bi_num_restarts it - bi_restart_index it)") auto

declare advance_restart_index.simps [simp del]

text \<open>The result holds the returned flag, \<open>*is_shared\<close> and the new state.\<close>

definition ParseNextKey ::
    "(slice \<Rightarrow> nat \<Rightarrow> nat \<Rightarrow> decoded_entry option) \<Rightarrow> 'a block_iter_scheme \<Rightarrow>
     bool \<times> bool \<times> 'a block_iter_scheme" where
  "ParseNextKey decode it =
     (let it = it\<lparr>bi_current := NextEntryOffset it\<rparr>;
          p = bi_current it;
          limit = bi_restarts it
      in if p \<ge> limit
         then (False, False, it\<lparr>bi_current := bi_restarts it, bi_restart_index := bi_num_restarts it\<rparr>)
         else case decode (block_data it) p limit of
                None \<Rightarrow> (False, False, CorruptionError it)
              | Some (shared, non_shared, value_length, p) \<Rightarrow>
                  if ik_key_size (bi_raw_key it) < unat shared
                  then (False, False, CorruptionError it)
                  else
                    let delta = take (unat non_shared) (drop p (block_data it));
                        it = (if shared = 0 then UpdateRawKeyAndMaybePadMinTimestamp delta it
                              else if bi_pad_min_timestamp it
                              then it\<lparr>bi_raw_key :=
                                     TrimAppendWithTimestamp (unat shared) delta (bi_ts_sz it)
                                       (bi_raw_key it)\<rparr>
                              else it\<lparr>bi_raw_key := TrimAppend (unat shared) delta (bi_raw_key it)\<rparr>);
                        it = it\<lparr>bi_value := (p + unat non_shared, unat value_length)\<rparr>
                    in (True, shared \<noteq> 0, if shared = 0 then advance_restart_index it else it))"

section \<open>Loops over entries\<close>

text \<open>
  The iterators share these loops and differ in how they parse an entry: \<open>parse\<close> is
  \<open>ParseNextDataKey\<close>, \<open>ParseNextKey<CheckAndDecodeEntry>\<close> or \<open>ParseNextIndexKey\<close>. A loop that does
  not end is None.

  \<open>while (Parse() && cond) {}\<close>:
\<close>

partial_function (option) parse_while ::
    "('s \<Rightarrow> bool \<times> 's) \<Rightarrow> ('s \<Rightarrow> bool) \<Rightarrow> 's \<Rightarrow> 's option" where
  "parse_while parse cond it =
     (case parse it of (success, it) \<Rightarrow>
        if success \<and> cond it then parse_while parse cond it else Some it)"

declare parse_while.simps [code]

text \<open>The loops of \<open>PrevImpl\<close> that look for a restart point before the current entry.\<close>

fun restart_before :: "nat \<Rightarrow> nat \<Rightarrow> 'a block_iter_scheme \<Rightarrow> nat option" where
  "restart_before original index it =
     (if GetRestartPoint index it \<ge> original
      then case index of 0 \<Rightarrow> None | Suc index \<Rightarrow> restart_before original index it
      else Some index)"

declare restart_before.simps [simp del]

definition no_more_entries :: "'a block_iter_scheme \<Rightarrow> 'a block_iter_scheme" where
  "no_more_entries it = it\<lparr>bi_current := bi_restarts it, bi_restart_index := bi_num_restarts it\<rparr>"

definition PrevImpl_uncached ::
    "('a block_iter_scheme \<Rightarrow> bool \<times> 'a block_iter_scheme) \<Rightarrow>
     'a block_iter_scheme \<Rightarrow> 'a block_iter_scheme option" where
  "PrevImpl_uncached parse it =
     (let original = bi_current it in
      case restart_before original (bi_restart_index it) it of
        None \<Rightarrow> Some (no_more_entries it)
      | Some index \<Rightarrow>
          parse_while parse (\<lambda>it. NextEntryOffset it < original) (SeekToRestartPoint index it))"

definition SeekToFirst_parse ::
    "('a block_iter_scheme \<Rightarrow> bool \<times> 'a block_iter_scheme) \<Rightarrow>
     'a block_iter_scheme \<Rightarrow> 'a block_iter_scheme" where
  "SeekToFirst_parse parse it =
     (if bi_data it = None then it else snd (parse (SeekToRestartPoint 0 it)))"

definition SeekToLast_parse ::
    "('a block_iter_scheme \<Rightarrow> bool \<times> 'a block_iter_scheme) \<Rightarrow>
     'a block_iter_scheme \<Rightarrow> 'a block_iter_scheme option" where
  "SeekToLast_parse parse it =
     (if bi_data it = None then Some it
      else parse_while parse (\<lambda>it. NextEntryOffset it < bi_restarts it)
             (SeekToRestartPoint (bi_num_restarts it - 1) it))"

section \<open>Seeking\<close>

text \<open>
  \<open>left\<close> never exceeds \<open>right\<close>, so testing \<open>left < right\<close> is the test \<open>left != right\<close> of the code.
  The first component of the result is None when the code returns false, and otherwise
  \<open>*index\<close> and \<open>*skip_linear_scan\<close>.
\<close>

function BinarySeek_loop ::
    "(slice \<Rightarrow> slice \<Rightarrow> int) \<Rightarrow> (slice \<Rightarrow> nat \<Rightarrow> nat \<Rightarrow> (u32 \<times> u32 \<times> nat) option) \<Rightarrow> slice \<Rightarrow>
     int \<Rightarrow> int \<Rightarrow> bool \<Rightarrow> 'a block_iter_scheme \<Rightarrow> (nat \<times> bool) option \<times> 'a block_iter_scheme" where
  "BinarySeek_loop ucmp decode_key target left right skip it =
     (if left < right then
        let mid = left + (right - left + 1) div 2;
            region_offset = GetRestartPoint (nat mid) it
        in case decode_key (block_data it) region_offset (bi_restarts it) of
             None \<Rightarrow> (None, CorruptionError it)
           | Some (shared, non_shared, q) \<Rightarrow>
               if shared \<noteq> 0 then (None, CorruptionError it)
               else
                 let mid_key = take (unat non_shared) (drop q (block_data it));
                     it = UpdateRawKeyAndMaybePadMinTimestamp mid_key it;
                     cmp = CompareCurrentKey ucmp target it
                 in if cmp < 0 then BinarySeek_loop ucmp decode_key target mid right skip it
                    else if cmp > 0 then BinarySeek_loop ucmp decode_key target left (mid - 1) skip it
                    else BinarySeek_loop ucmp decode_key target mid mid True it
      else if left = -1 then (Some (0, True), it)
      else (Some (nat left, skip), it))"
  by pat_completeness auto
termination
  by (relation "measure (\<lambda>(_, _, _, left, right, _, _). nat (right - left))") auto

declare BinarySeek_loop.simps [simp del]

definition BinarySeek ::
    "(slice \<Rightarrow> slice \<Rightarrow> int) \<Rightarrow> (slice \<Rightarrow> nat \<Rightarrow> nat \<Rightarrow> (u32 \<times> u32 \<times> nat) option) \<Rightarrow> slice \<Rightarrow>
     'a block_iter_scheme \<Rightarrow> (nat \<times> bool) option \<times> 'a block_iter_scheme" where
  "BinarySeek ucmp decode_key target it =
     (if bi_restarts it = 0 then (None, it)
      else BinarySeek_loop ucmp decode_key target (-1) (int (bi_num_restarts it) - 1) False it)"

partial_function (option) linear_scan ::
    "(slice \<Rightarrow> slice \<Rightarrow> int) \<Rightarrow> ('a block_iter_scheme \<Rightarrow> bool \<times> 'a block_iter_scheme) \<Rightarrow> slice \<Rightarrow> nat \<Rightarrow>
     'a block_iter_scheme \<Rightarrow> 'a block_iter_scheme option" where
  "linear_scan ucmp parse target max_offset it =
     (let it = snd (parse it) in
      if \<not> Block_Valid it then Some it
      else if bi_current it = max_offset then Some it
      else if CompareCurrentKey ucmp target it \<ge> 0 then Some it
      else linear_scan ucmp parse target max_offset it)"

declare linear_scan.simps [code]

definition FindKeyAfterBinarySeek ::
    "(slice \<Rightarrow> slice \<Rightarrow> int) \<Rightarrow> ('a block_iter_scheme \<Rightarrow> bool \<times> 'a block_iter_scheme) \<Rightarrow> slice \<Rightarrow> nat \<Rightarrow>
     bool \<Rightarrow> 'a block_iter_scheme \<Rightarrow> 'a block_iter_scheme option" where
  "FindKeyAfterBinarySeek ucmp parse target index skip_linear_scan it =
     (let it = snd (parse (SeekToRestartPoint index it)) in
      if skip_linear_scan then Some it
      else
        let max_offset = (if index + 1 < bi_num_restarts it then GetRestartPoint (index + 1) it
                          else 2 ^ 32 - 1)
        in linear_scan ucmp parse target max_offset it)"

definition Seek_parse ::
    "(slice \<Rightarrow> slice \<Rightarrow> int) \<Rightarrow> (slice \<Rightarrow> nat \<Rightarrow> nat \<Rightarrow> (u32 \<times> u32 \<times> nat) option) \<Rightarrow>
     ('a block_iter_scheme \<Rightarrow> bool \<times> 'a block_iter_scheme) \<Rightarrow> slice \<Rightarrow>
     'a block_iter_scheme \<Rightarrow> 'a block_iter_scheme option" where
  "Seek_parse ucmp decode_key parse target it =
     (if bi_data it = None then Some it
      else case BinarySeek ucmp decode_key target it of
             (None, it) \<Rightarrow> Some it
           | (Some (index, skip_linear_scan), it) \<Rightarrow>
               FindKeyAfterBinarySeek ucmp parse target index skip_linear_scan it)"

partial_function (option) prev_until_le ::
    "(slice \<Rightarrow> slice \<Rightarrow> int) \<Rightarrow> ('a block_iter_scheme \<Rightarrow> 'a block_iter_scheme option) \<Rightarrow> slice \<Rightarrow>
     'a block_iter_scheme \<Rightarrow> 'a block_iter_scheme option" where
  "prev_until_le ucmp prev target it =
     (if Block_Valid it \<and> CompareCurrentKey ucmp target it > 0
      then (case prev it of None \<Rightarrow> None | Some it \<Rightarrow> prev_until_le ucmp prev target it)
      else Some it)"

declare prev_until_le.simps [code]

definition SeekForPrev_parse ::
    "(slice \<Rightarrow> slice \<Rightarrow> int) \<Rightarrow> (slice \<Rightarrow> nat \<Rightarrow> nat \<Rightarrow> (u32 \<times> u32 \<times> nat) option) \<Rightarrow>
     ('a block_iter_scheme \<Rightarrow> bool \<times> 'a block_iter_scheme) \<Rightarrow>
     ('a block_iter_scheme \<Rightarrow> 'a block_iter_scheme option) \<Rightarrow> slice \<Rightarrow>
     'a block_iter_scheme \<Rightarrow> 'a block_iter_scheme option" where
  "SeekForPrev_parse ucmp decode_key parse prev target it =
     (if bi_data it = None then Some it
      else case BinarySeek ucmp decode_key target it of
             (None, it) \<Rightarrow> Some it
           | (Some (index, skip_linear_scan), it) \<Rightarrow>
               (case FindKeyAfterBinarySeek ucmp parse target index skip_linear_scan it of
                  None \<Rightarrow> None
                | Some it \<Rightarrow>
                    if \<not> Block_Valid it
                    then (if ok (bi_status it) then SeekToLast_parse parse it else Some it)
                    else prev_until_le ucmp prev target it))"

section \<open>Meta block iterators\<close>

definition MetaBlockIter :: block_iter where
  "MetaBlockIter = BlockIter\<lparr>bi_raw_key := SetIsUserKey True IterKey\<rparr>"

definition MetaBlockIter_Initialize :: "slice \<Rightarrow> nat \<Rightarrow> nat \<Rightarrow> block_iter \<Rightarrow> block_iter" where
  "MetaBlockIter_Initialize d restarts num_restarts it =
     (let it = InitializeBase (Some 0) d restarts num_restarts kDisableGlobalSequenceNumber True it
      in it\<lparr>bi_raw_key := SetIsUserKey True (bi_raw_key it)\<rparr>)"

definition ParseNextMetaKey :: "'a block_iter_scheme \<Rightarrow> bool \<times> 'a block_iter_scheme" where
  "ParseNextMetaKey it =
     (case ParseNextKey CheckAndDecodeEntry it of (success, _, it) \<Rightarrow> (success, it))"

definition Meta_NextImpl :: "'a block_iter_scheme \<Rightarrow> 'a block_iter_scheme" where
  "Meta_NextImpl it = snd (ParseNextMetaKey it)"

definition Meta_PrevImpl :: "'a block_iter_scheme \<Rightarrow> 'a block_iter_scheme option" where
  "Meta_PrevImpl it = PrevImpl_uncached ParseNextMetaKey it"

definition Meta_SeekToFirstImpl :: "'a block_iter_scheme \<Rightarrow> 'a block_iter_scheme" where
  "Meta_SeekToFirstImpl it = SeekToFirst_parse ParseNextMetaKey it"

definition Meta_SeekToLastImpl :: "'a block_iter_scheme \<Rightarrow> 'a block_iter_scheme option" where
  "Meta_SeekToLastImpl it = SeekToLast_parse ParseNextMetaKey it"

text \<open>Meta blocks are always in bytewise order.\<close>

definition Meta_SeekImpl :: "slice \<Rightarrow> 'a block_iter_scheme \<Rightarrow> 'a block_iter_scheme option" where
  "Meta_SeekImpl target it = Seek_parse compare DecodeKey ParseNextMetaKey target it"

definition Meta_SeekForPrevImpl :: "slice \<Rightarrow> 'a block_iter_scheme \<Rightarrow> 'a block_iter_scheme option" where
  "Meta_SeekForPrevImpl target it =
     SeekForPrev_parse compare DecodeKey ParseNextMetaKey Meta_PrevImpl target it"

section \<open>Data block iterators\<close>

text \<open>
  A cached entry holds a pointer to its key in the block, or the position of a copy of the key
  in \<open>prev_entries_keys_buff_\<close>.
\<close>

record CachedPrevEntry =
  cpe_offset :: nat
  cpe_key_ptr :: "slice option"
  cpe_key_offset :: nat
  cpe_key_size :: nat
  cpe_value :: "nat \<times> nat"

text \<open>The hash index of the block is its number of buckets, or None for a null pointer.\<close>

record data_block_iter = block_iter +
  prev_entries_keys_buff :: slice
  prev_entries :: "CachedPrevEntry list"
  prev_entries_idx :: int
  bi_hash_index :: "u16 option"

definition DataBlockIter :: data_block_iter where
  "DataBlockIter =
     block_iter.extend BlockIter
       \<lparr>prev_entries_keys_buff = [], prev_entries = [], prev_entries_idx = -1,
        bi_hash_index = None\<rparr>"

definition DataBlockIter_Initialize ::
    "nat \<Rightarrow> slice \<Rightarrow> nat \<Rightarrow> nat \<Rightarrow> u64 \<Rightarrow> bool \<Rightarrow> u16 option \<Rightarrow> data_block_iter \<Rightarrow> data_block_iter" where
  "DataBlockIter_Initialize ts_sz d restarts num_restarts global_seqno persisted hash_index it =
     (let it = InitializeBase (Some ts_sz) d restarts num_restarts global_seqno persisted it
      in it\<lparr>bi_raw_key := SetIsUserKey False (bi_raw_key it), bi_hash_index := hash_index\<rparr>)"

definition DataBlockIter_Invalidate :: "status \<Rightarrow> data_block_iter \<Rightarrow> data_block_iter" where
  "DataBlockIter_Invalidate s it =
     (Block_Invalidate s it)\<lparr>prev_entries_keys_buff := [], prev_entries := [], prev_entries_idx := -1\<rparr>"

definition ParseNextDataKey :: "data_block_iter \<Rightarrow> bool \<times> data_block_iter" where
  "ParseNextDataKey it = (case ParseNextKey DecodeEntry it of (success, _, it) \<Rightarrow> (success, it))"

definition Data_NextImpl :: "data_block_iter \<Rightarrow> data_block_iter" where
  "Data_NextImpl it = snd (ParseNextDataKey it)"

definition read_cached_entry :: "data_block_iter \<Rightarrow> data_block_iter" where
  "read_cached_entry it =
     (let idx = prev_entries_idx it - 1;
          e = prev_entries it ! nat idx;
          (key_bytes, raw_key_cached) =
            (case cpe_key_ptr e of
               Some ptr \<Rightarrow> (ptr, False)
             | None \<Rightarrow> (drop (cpe_key_offset e) (prev_entries_keys_buff it), True));
          current_key = take (cpe_key_size e) key_bytes
      in it\<lparr>prev_entries_idx := idx, bi_current := cpe_offset e,
            bi_raw_key := SetKey current_key raw_key_cached (bi_raw_key it),
            bi_value := cpe_value e\<rparr>)"

definition cache_current_entry :: "data_block_iter \<Rightarrow> data_block_iter" where
  "cache_current_entry it =
     (let current_key = GetKey (bi_raw_key it) in
      if IsKeyPinned (bi_raw_key it)
      then it\<lparr>prev_entries := prev_entries it @
                [\<lparr>cpe_offset = bi_current it, cpe_key_ptr = Some (key_ptr (bi_raw_key it)),
                  cpe_key_offset = 0, cpe_key_size = length current_key,
                  cpe_value = bi_value it\<rparr>]\<rparr>
      else it\<lparr>prev_entries_keys_buff := prev_entries_keys_buff it @ current_key,
              prev_entries := prev_entries it @
                [\<lparr>cpe_offset = bi_current it, cpe_key_ptr = None,
                  cpe_key_offset = length (prev_entries_keys_buff it),
                  cpe_key_size = length current_key, cpe_value = bi_value it\<rparr>]\<rparr>)"

partial_function (option) cache_entries_before ::
    "nat \<Rightarrow> data_block_iter \<Rightarrow> data_block_iter option" where
  "cache_entries_before original it =
     (case ParseNextDataKey it of (success, it) \<Rightarrow>
        if \<not> success then Some it
        else
          let it = cache_current_entry it
          in if NextEntryOffset it < original then cache_entries_before original it else Some it)"

declare cache_entries_before.simps [code]

definition Data_PrevImpl :: "data_block_iter \<Rightarrow> data_block_iter option" where
  "Data_PrevImpl it =
     (if prev_entries_idx it > 0 \<and>
         cpe_offset (prev_entries it ! nat (prev_entries_idx it)) = bi_current it
      then Some (read_cached_entry it)
      else
        let it = it\<lparr>prev_entries_idx := -1, prev_entries := [], prev_entries_keys_buff := []\<rparr>;
            original = bi_current it
        in case restart_before original (bi_restart_index it) it of
             None \<Rightarrow> Some (no_more_entries it)
           | Some index \<Rightarrow>
               (case cache_entries_before original (SeekToRestartPoint index it) of
                  None \<Rightarrow> None
                | Some it \<Rightarrow>
                    Some (it\<lparr>prev_entries_idx := int (length (prev_entries it)) - 1\<rparr>)))"

definition Data_SeekToFirstImpl :: "data_block_iter \<Rightarrow> data_block_iter" where
  "Data_SeekToFirstImpl it = SeekToFirst_parse ParseNextDataKey it"

definition Data_SeekToLastImpl :: "data_block_iter \<Rightarrow> data_block_iter option" where
  "Data_SeekToLastImpl it = SeekToLast_parse ParseNextDataKey it"

definition Data_SeekImpl ::
    "(slice \<Rightarrow> slice \<Rightarrow> int) \<Rightarrow> slice \<Rightarrow> data_block_iter \<Rightarrow> data_block_iter option" where
  "Data_SeekImpl ucmp target it = Seek_parse ucmp DecodeKey ParseNextDataKey target it"

definition Data_SeekForPrevImpl ::
    "(slice \<Rightarrow> slice \<Rightarrow> int) \<Rightarrow> slice \<Rightarrow> data_block_iter \<Rightarrow> data_block_iter option" where
  "Data_SeekForPrevImpl ucmp target it =
     SeekForPrev_parse ucmp DecodeKey ParseNextDataKey Data_PrevImpl target it"

section \<open>Point lookups through the hash index\<close>

text \<open>\<open>num_buckets_\<close> and \<open>*map_offset\<close> from the last two bytes before \<open>size\<close>.\<close>

definition DataBlockHashIndex_Initialize :: "slice \<Rightarrow> u16 \<Rightarrow> u16 \<times> u16" where
  "DataBlockHashIndex_Initialize d sz =
     (let num_buckets = DecodeFixed16 (drop (unat sz - 2) d)
      in (num_buckets, sz - 2 - num_buckets))"

definition DataBlockHashIndex_Lookup :: "u16 \<Rightarrow> slice \<Rightarrow> nat \<Rightarrow> slice \<Rightarrow> byte" where
  "DataBlockHashIndex_Lookup num_buckets d map_offset key =
     (let hash_value = GetSliceHash key;
          idx = unat hash_value mod unat num_buckets
      in d ! (map_offset + idx))"

partial_function (option) scan_interval ::
    "(slice \<Rightarrow> slice \<Rightarrow> int) \<Rightarrow> slice \<Rightarrow> nat \<Rightarrow> data_block_iter \<Rightarrow> data_block_iter option" where
  "scan_interval ucmp target limit it =
     (if bi_current it < limit then
        (case ParseNextDataKey it of (success, it) \<Rightarrow>
           if \<not> success \<or> CompareCurrentKey ucmp target it \<ge> 0 then Some it
           else scan_interval ucmp target limit it)
      else Some it)"

declare scan_interval.simps [code]

definition SeekForGetImpl ::
    "(slice \<Rightarrow> slice \<Rightarrow> int) \<Rightarrow> slice \<Rightarrow> data_block_iter \<Rightarrow> (bool \<times> data_block_iter) option" where
  "SeekForGetImpl ucmp target it =
     (let target_user_key = ExtractUserKey target;
          map_offset = bi_restarts it + bi_num_restarts it * 4;
          entry = DataBlockHashIndex_Lookup (the (bi_hash_index it)) (block_data it) map_offset
                    target_user_key
      in if entry = kCollision then
           (case Data_SeekImpl ucmp target it of None \<Rightarrow> None | Some it \<Rightarrow> Some (True, it))
         else
           let entry = (if entry = kNoEntry then of_nat (bi_num_restarts it - 1) else entry);
               restart_index = unat entry;
               it = SeekToRestartPoint restart_index it;
               it = it\<lparr>bi_current := GetRestartPoint restart_index it\<rparr>;
               limit = (if restart_index + 1 < bi_num_restarts it
                        then GetRestartPoint (restart_index + 1) it else bi_restarts it)
           in case scan_interval ucmp target limit it of
                None \<Rightarrow> None
              | Some it \<Rightarrow>
                  if bi_current it = bi_restarts it then Some (True, it)
                  else if ucmp (GetUserKey (bi_raw_key it)) target_user_key \<noteq> 0
                  then Some (False, it)
                  else
                    let t = ExtractValueType (GetInternalKey (bi_raw_key it)) in
                    if t \<noteq> kTypeValue \<and> t \<noteq> kTypeDeletion \<and> t \<noteq> kTypeMerge \<and>
                       t \<noteq> kTypeSingleDeletion \<and> t \<noteq> kTypeBlobIndex \<and>
                       t \<noteq> kTypeWideColumnEntity \<and> t \<noteq> kTypeValuePreferredSeqno
                    then (case Data_SeekImpl ucmp target it of
                            None \<Rightarrow> None | Some it \<Rightarrow> Some (True, it))
                    else Some (True, it))"

definition SeekForGet ::
    "(slice \<Rightarrow> slice \<Rightarrow> int) \<Rightarrow> slice \<Rightarrow> data_block_iter \<Rightarrow> (bool \<times> data_block_iter) option" where
  "SeekForGet ucmp target it =
     (case bi_hash_index it of
        None \<Rightarrow> (case Data_SeekImpl ucmp target it of
                   None \<Rightarrow> None | Some it \<Rightarrow> Some (True, UpdateKey it))
      | Some _ \<Rightarrow> (case SeekForGetImpl ucmp target it of
                     None \<Rightarrow> None | Some (res, it) \<Rightarrow> Some (res, UpdateKey it)))"

section \<open>The public operations\<close>

text \<open>Each calls its implementation and then \<open>UpdateKey\<close>.\<close>

definition Data_Seek ::
    "(slice \<Rightarrow> slice \<Rightarrow> int) \<Rightarrow> slice \<Rightarrow> data_block_iter \<Rightarrow> data_block_iter option" where
  "Data_Seek ucmp target it = map_option UpdateKey (Data_SeekImpl ucmp target it)"

definition Data_SeekForPrev ::
    "(slice \<Rightarrow> slice \<Rightarrow> int) \<Rightarrow> slice \<Rightarrow> data_block_iter \<Rightarrow> data_block_iter option" where
  "Data_SeekForPrev ucmp target it = map_option UpdateKey (Data_SeekForPrevImpl ucmp target it)"

definition Data_SeekToFirst :: "data_block_iter \<Rightarrow> data_block_iter" where
  "Data_SeekToFirst it = UpdateKey (Data_SeekToFirstImpl it)"

definition Data_SeekToLast :: "data_block_iter \<Rightarrow> data_block_iter option" where
  "Data_SeekToLast it = map_option UpdateKey (Data_SeekToLastImpl it)"

definition Data_Next :: "data_block_iter \<Rightarrow> data_block_iter" where
  "Data_Next it = UpdateKey (Data_NextImpl it)"

definition Data_Prev :: "data_block_iter \<Rightarrow> data_block_iter option" where
  "Data_Prev it = map_option UpdateKey (Data_PrevImpl it)"

section \<open>Blocks\<close>

text \<open>
  \<open>size()\<close> is the length of \<open>blk_data\<close>; setting it to 0 marks an error. The restart offset is
  computed in 64 bits and kept in 32.
\<close>

record block =
  blk_data :: slice
  blk_restart_offset :: u32
  blk_num_restarts :: u32
  blk_num_buckets :: u16

definition NumRestarts :: "slice \<Rightarrow> u32" where
  "NumRestarts d =
     (let block_footer = DecodeFixed32 (drop (length d - 4) d) in
      if length d > kMaxBlockSizeSupportedByHashIndex then block_footer
      else snd (UnPackIndexTypeAndNumRestarts block_footer))"

definition IndexType :: "slice \<Rightarrow> DataBlockIndexType" where
  "IndexType d =
     (if length d > kMaxBlockSizeSupportedByHashIndex then kDataBlockBinarySearch
      else fst (UnPackIndexTypeAndNumRestarts (DecodeFixed32 (drop (length d - 4) d))))"

definition Block :: "slice \<Rightarrow> block" where
  "Block d =
     (let b = \<lparr>blk_data = d, blk_restart_offset = 0, blk_num_restarts = 0, blk_num_buckets = 0\<rparr>;
          sz = length d
      in if sz < 4 then b\<lparr>blk_data := []\<rparr>
         else
           let n = NumRestarts d; b = b\<lparr>blk_num_restarts := n\<rparr>
           in case IndexType d of
                kDataBlockBinarySearch \<Rightarrow>
                  (let off = ucast (ucast (of_nat sz :: u32) - ucast (1 + n) * 4 :: u64) :: u32;
                       b = b\<lparr>blk_restart_offset := off\<rparr>
                   in if unat off > sz - 4 then b\<lparr>blk_data := []\<rparr> else b)
              | kDataBlockBinaryAndHash \<Rightarrow>
                  if sz < 4 + 2 then b\<lparr>blk_data := []\<rparr>
                  else
                    let (num_buckets, map_offset) =
                          DataBlockHashIndex_Initialize d (of_nat (sz - 4));
                        off = ucast (ucast map_offset - ucast n * 4 :: u64) :: u32;
                        b = b\<lparr>blk_num_buckets := num_buckets, blk_restart_offset := off\<rparr>
                    in if off > ucast map_offset then b\<lparr>blk_data := []\<rparr> else b)"

definition NewMetaIterator :: "block \<Rightarrow> block_iter" where
  "NewMetaIterator b =
     (if length (blk_data b) < 2 * 4
      then Block_Invalidate (Corruption (str ''bad block contents'') []) MetaBlockIter
      else if blk_num_restarts b = 0 then Block_Invalidate OK MetaBlockIter
      else MetaBlockIter_Initialize (blk_data b) (unat (blk_restart_offset b))
             (unat (blk_num_restarts b)) MetaBlockIter)"

definition NewDataIterator :: "block \<Rightarrow> nat \<Rightarrow> u64 \<Rightarrow> bool \<Rightarrow> data_block_iter \<Rightarrow> data_block_iter" where
  "NewDataIterator b ts_sz global_seqno persisted it =
     (if length (blk_data b) < 2 * 4
      then DataBlockIter_Invalidate (Corruption (str ''bad block contents'') []) it
      else if blk_num_restarts b = 0 then DataBlockIter_Invalidate OK it
      else DataBlockIter_Initialize ts_sz (blk_data b) (unat (blk_restart_offset b))
             (unat (blk_num_restarts b)) global_seqno persisted
             (if blk_num_buckets b \<noteq> 0 then Some (blk_num_buckets b) else None) it)"

end
