(* ===== verification/Blocks.thy ===== *)
theory Blocks
  imports Block_Iter
begin

text \<open>
  Correctness of blocks. A block is described by its entries and the numbers of the entries that
  are restart points; the iterators of \<open>Block_Iter\<close> are shown to visit exactly the described
  entries in both directions and to seek to the right one, and the builder of \<open>Block_Builder\<close> is
  shown to write such a block.
\<close>

unbundle bit_operations_syntax

section \<open>Heads of entries\<close>

record block_entry =
  be_shared :: nat
  be_delta :: slice
  be_val :: slice

definition entry_bytes :: "block_entry \<Rightarrow> slice" where
  "entry_bytes e =
     EncodeVarint32 (of_nat (be_shared e)) @ EncodeVarint32 (of_nat (length (be_delta e))) @
     EncodeVarint32 (of_nat (length (be_val e))) @ be_delta e @ be_val e"

lemma GetVarint32Ptr_small:
  assumes "ucast x < (128 :: u32)"
  shows "GetVarint32Ptr (x # r) = Some (ucast x, r)"
proof -
  have "(ucast x :: u32) AND mask 7 = ucast x"
    using assms by (simp only: mask_eq_iff word_less_def) simp
  then have "\<not> bit (ucast x :: u32) 7" by (metis bit_and_iff bit_mask_iff less_irrefl)
  then have "(ucast x :: u32) AND 128 = 0" by (simp add: and_128_eq_0)
  then show ?thesis by (simp add: GetVarint32Ptr_def)
qed

lemma decode_lengths_slow:
  assumes "p + 3 \<le> limit" and "limit \<le> length d"
  shows "decode_lengths d p limit =
    (case GetVarint32Ptr (take (limit - p) (drop p d)) of
       None \<Rightarrow> None
     | Some (shared, r) \<Rightarrow>
         (case GetVarint32Ptr r of
            None \<Rightarrow> None
          | Some (non_shared, r) \<Rightarrow>
              (case GetVarint32Ptr r of
                 None \<Rightarrow> None
               | Some (value_length, r) \<Rightarrow>
                   Some (shared, non_shared, value_length, limit - length r))))"
proof (cases "(ucast (d ! p) OR ucast (d ! (p + 1)) OR ucast (d ! (p + 2)) :: u32) < 128")
  case True
  have le: "(ucast (d ! i) :: u32) \<le> ucast (d ! p) OR ucast (d ! (p + 1)) OR ucast (d ! (p + 2))"
    if "i = p \<or> i = p + 1 \<or> i = p + 2" for i
    using that by (metis (no_types) le_word_or1 le_word_or2 order_trans)
  have small: "(ucast (d ! i) :: u32) < 128" if "i = p \<or> i = p + 1 \<or> i = p + 2" for i
    using le [OF that] True by (rule le_less_trans)
  have "take (limit - p) (drop p d) =
      d ! p # d ! (p + 1) # d ! (p + 2) # take (limit - (p + 3)) (drop (p + 3) d)"
  proof -
    have "drop p d = d ! p # d ! (p + 1) # d ! (p + 2) # drop (p + 3) d"
      using assms by (simp add: Cons_nth_drop_Suc numeral_3_eq_3)
    moreover have "limit - p = Suc (Suc (Suc (limit - (p + 3))))" using assms by simp
    ultimately show ?thesis by simp
  qed
  then show ?thesis
    using True small assms by (simp add: decode_lengths_def GetVarint32Ptr_small)
next
  case False
  then show ?thesis by (simp add: decode_lengths_def)
qed

lemma length_EncodeVarint32_pos: "0 < length (EncodeVarint32 v)"
  using GetVarint32Ptr_EncodeVarint32 [of v "[]"]
  by (auto simp: GetVarint32Ptr_def GetVarint32PtrFallback_def)

lemma decode_lengths_entry:
  assumes "drop p d = entry_bytes e @ rest" and "p + length (entry_bytes e) \<le> limit"
    and "limit \<le> length d"
  shows "decode_lengths d p limit =
    Some (of_nat (be_shared e), of_nat (length (be_delta e)), of_nat (length (be_val e)),
      p + length (entry_bytes e) - length (be_delta e) - length (be_val e))"
proof -
  have "3 \<le> length (entry_bytes e)"
    using length_EncodeVarint32_pos [of "of_nat (be_shared e)"]
      length_EncodeVarint32_pos [of "of_nat (length (be_delta e))"]
      length_EncodeVarint32_pos [of "of_nat (length (be_val e))"]
    unfolding entry_bytes_def length_append by linarith
  then have slow: "p + 3 \<le> limit" using assms(2) by simp
  have "take (limit - p) (drop p d) = entry_bytes e @ take (limit - p - length (entry_bytes e)) rest"
    using assms by simp
  moreover have "length (take (limit - p - length (entry_bytes e)) rest) =
      limit - p - length (entry_bytes e)"
  proof -
    have "length d - p = length (entry_bytes e) + length rest"
      using assms(1) by (metis length_append length_drop)
    then show ?thesis using assms by simp
  qed
  ultimately show ?thesis
    using assms(2)
    by (simp add: decode_lengths_slow [OF slow assms(3)] entry_bytes_def GetVarint32Ptr_EncodeVarint32)
qed

section \<open>The layout of a block\<close>

text \<open>
  \<open>ly_restarts\<close> are the numbers of the entries at restart points. The other fields are what an
  iterator is initialised with: whether keys are user keys, the timestamp size, whether a
  minimal timestamp is inserted, and the global sequence number. \<open>enc\<close> is the encoding of an
  entry.
\<close>

record block_layout =
  ly_entries :: "block_entry list"
  ly_restarts :: "nat list"
  ly_user :: bool
  ly_ts :: nat
  ly_pad :: bool
  ly_seqno :: u64

abbreviation ly_size :: "block_layout \<Rightarrow> nat" where
  "ly_size L \<equiv> length (ly_entries L)"

definition entry_off :: "(block_entry \<Rightarrow> slice) \<Rightarrow> block_layout \<Rightarrow> nat \<Rightarrow> nat" where
  "entry_off enc L i = length (concat (map enc (take i (ly_entries L))))"

fun stored_key :: "block_entry list \<Rightarrow> nat \<Rightarrow> slice" where
  "stored_key es 0 = be_delta (es ! 0)"
| "stored_key es (Suc i) = take (be_shared (es ! Suc i)) (stored_key es i) @ be_delta (es ! Suc i)"

definition present :: "block_layout \<Rightarrow> slice \<Rightarrow> slice" where
  "present L k = (if ly_pad L then pad_min (ly_user L) (ly_ts L) k else k)"

definition entry_key :: "block_layout \<Rightarrow> nat \<Rightarrow> slice" where
  "entry_key L i = present L (stored_key (ly_entries L) i)"

definition layout_ok :: "(block_entry \<Rightarrow> slice) \<Rightarrow> block_layout \<Rightarrow> bool" where
  "layout_ok enc L \<longleftrightarrow>
     ly_restarts L \<noteq> [] \<and> ly_restarts L ! 0 = 0 \<and> sorted_wrt (<) (ly_restarts L) \<and>
     (\<forall>r\<in>set (ly_restarts L). r < ly_size L \<longrightarrow> be_shared (ly_entries L ! r) = 0) \<and>
     (\<forall>r\<in>set (ly_restarts L). r < max 1 (ly_size L)) \<and>
     (\<forall>i. Suc i < ly_size L \<longrightarrow>
        be_shared (ly_entries L ! Suc i) \<le> length (stored_key (ly_entries L) i)) \<and>
     (\<forall>e\<in>set (ly_entries L). enc e \<noteq> [] \<and> be_shared e < 2 ^ 32 \<and>
        length (be_delta e) + length (be_val e) < 2 ^ 32) \<and>
     entry_off enc L (ly_size L) < 2 ^ 32 - 1 \<and> ly_ts L \<le> 9 \<and>
     (ly_pad L \<longrightarrow> \<not> ly_user L \<longrightarrow>
        (\<forall>i<ly_size L. kNumInternalBytes \<le> length (stored_key (ly_entries L) i)))"

definition restart_array :: "(block_entry \<Rightarrow> slice) \<Rightarrow> block_layout \<Rightarrow> slice" where
  "restart_array enc L =
     concat (map (\<lambda>r. EncodeFixed32 (of_nat (entry_off enc L r))) (ly_restarts L))"

text \<open>An iterator over a block with this layout; its position is not constrained.\<close>

definition in_block :: "(block_entry \<Rightarrow> slice) \<Rightarrow> block_layout \<Rightarrow> 'a block_iter_scheme \<Rightarrow> bool" where
  "in_block enc L it \<longleftrightarrow>
     (\<exists>tl. bi_data it = Some (concat (map enc (ly_entries L)) @ restart_array enc L @ tl)) \<and>
     bi_num_restarts it = length (ly_restarts L) \<and>
     bi_restarts it = entry_off enc L (ly_size L) \<and>
     bi_global_seqno it = ly_seqno L \<and> bi_ts_sz it = ly_ts L \<and>
     bi_pad_min_timestamp it = ly_pad L \<and> ik_is_user_key (bi_raw_key it) = ly_user L \<and>
     (\<not> ly_pad L \<longrightarrow> ik_place (bi_raw_key it) \<noteq> In_Secondary) \<and> ok (bi_status it)"

definition at_entry ::
    "(block_entry \<Rightarrow> slice) \<Rightarrow> block_layout \<Rightarrow> 'a block_iter_scheme \<Rightarrow> nat \<Rightarrow> bool" where
  "at_entry enc L it i \<longleftrightarrow>
     in_block enc L it \<and> i < ly_size L \<and> bi_current it = entry_off enc L i \<and>
     ik_ok (bi_raw_key it) \<and> GetKey (bi_raw_key it) = entry_key L i \<and>
     bi_value it = (entry_off enc L (Suc i) - length (be_val (ly_entries L ! i)),
                    length (be_val (ly_entries L ! i))) \<and>
     value_slice it = be_val (ly_entries L ! i) \<and>
     bi_restart_index it < length (ly_restarts L)"

definition at_end :: "(block_entry \<Rightarrow> slice) \<Rightarrow> block_layout \<Rightarrow> 'a block_iter_scheme \<Rightarrow> bool" where
  "at_end enc L it \<longleftrightarrow> in_block enc L it \<and> bi_current it = bi_restarts it"

text \<open>An iterator whose next parse reads entry \<open>i\<close>, or the end of the block.\<close>

definition before_entry ::
    "(block_entry \<Rightarrow> slice) \<Rightarrow> block_layout \<Rightarrow> 'a block_iter_scheme \<Rightarrow> nat \<Rightarrow> bool" where
  "before_entry enc L it i \<longleftrightarrow>
     in_block enc L it \<and> i \<le> ly_size L \<and> NextEntryOffset it = entry_off enc L i \<and>
     bi_restart_index it < length (ly_restarts L) \<and>
     (i < ly_size L \<longrightarrow> be_shared (ly_entries L ! i) \<noteq> 0 \<longrightarrow>
        0 < i \<and> ik_ok (bi_raw_key it) \<and> GetKey (bi_raw_key it) = entry_key L (i - 1))"

lemma layout_okD:
  assumes "layout_ok enc L"
  shows "ly_restarts L \<noteq> []" "ly_restarts L ! 0 = 0" "sorted_wrt (<) (ly_restarts L)"
    "entry_off enc L (ly_size L) < 2 ^ 32 - 1" "ly_ts L \<le> 9"
  using assms unfolding layout_ok_def by (blast+)

lemma layout_ok_restart:
  assumes "layout_ok enc L" and "j < length (ly_restarts L)"
  shows "ly_restarts L ! j < max 1 (ly_size L)"
    "ly_restarts L ! j < ly_size L \<Longrightarrow> be_shared (ly_entries L ! (ly_restarts L ! j)) = 0"
  using assms(1) nth_mem [OF assms(2)] unfolding layout_ok_def by (blast+)

lemma layout_ok_entry:
  assumes "layout_ok enc L" and "i < ly_size L"
  shows "enc (ly_entries L ! i) \<noteq> []" "be_shared (ly_entries L ! i) < 2 ^ 32"
    "length (be_delta (ly_entries L ! i)) + length (be_val (ly_entries L ! i)) < 2 ^ 32"
  using assms(1) nth_mem [OF assms(2)] unfolding layout_ok_def by (blast+)

lemma layout_ok_shared:
  assumes "layout_ok enc L" and "Suc i < ly_size L"
  shows "be_shared (ly_entries L ! Suc i) \<le> length (stored_key (ly_entries L) i)"
  using assms unfolding layout_ok_def by blast

lemma layout_ok_footer:
  assumes "layout_ok enc L" and "ly_pad L" and "\<not> ly_user L" and "i < ly_size L"
  shows "kNumInternalBytes \<le> length (stored_key (ly_entries L) i)"
  using assms unfolding layout_ok_def by blast

lemma entry_off_Suc:
  "i < ly_size L \<Longrightarrow> entry_off enc L (Suc i) = entry_off enc L i + length (enc (ly_entries L ! i))"
  by (simp add: entry_off_def take_Suc_conv_app_nth)

lemma entry_off_0 [simp]: "entry_off enc L 0 = 0"
  by (simp add: entry_off_def)

lemma entry_off_mono_less:
  assumes "layout_ok enc L" and "i < j" and "j \<le> ly_size L"
  shows "entry_off enc L i < entry_off enc L j"
  using assms(2,3)
proof (induction j)
  case (Suc j)
  have "enc (ly_entries L ! j) \<noteq> []" using layout_ok_entry(1) [OF assms(1)] Suc.prems by simp
  then have "entry_off enc L j < entry_off enc L (Suc j)" using Suc.prems by (simp add: entry_off_Suc)
  with Suc show ?case by (cases "i = j") auto
qed simp

lemma entry_off_less_iff:
  assumes "layout_ok enc L" and "i \<le> ly_size L" and "j \<le> ly_size L"
  shows "entry_off enc L i < entry_off enc L j \<longleftrightarrow> i < j"
  using entry_off_mono_less [OF assms(1), of i j] entry_off_mono_less [OF assms(1), of j i] assms(2,3)
  by (cases i j rule: linorder_cases) auto

lemma entry_off_eq_iff:
  assumes "layout_ok enc L" and "i \<le> ly_size L" and "j \<le> ly_size L"
  shows "entry_off enc L i = entry_off enc L j \<longleftrightarrow> i = j"
  using entry_off_less_iff [OF assms] entry_off_less_iff [OF assms(1,3,2)] by (metis linorder_neqE_nat less_irrefl)

lemma entry_off_bound:
  assumes "layout_ok enc L" and "i \<le> ly_size L"
  shows "entry_off enc L i < 2 ^ 32 - 1"
proof -
  have "entry_off enc L i \<le> entry_off enc L (ly_size L)"
    using entry_off_less_iff [OF assms(1), of "ly_size L" i] assms(2) by simp
  then show ?thesis using layout_okD(4) [OF assms(1)] by linarith
qed

lemma drop_entry_off:
  assumes "i < ly_size L"
  shows "drop (entry_off enc L i) (concat (map enc (ly_entries L))) =
    enc (ly_entries L ! i) @ concat (map enc (drop (Suc i) (ly_entries L)))"
proof -
  have "map enc (ly_entries L) = map enc (take i (ly_entries L)) @ map enc (drop i (ly_entries L))"
    by (metis append_take_drop_id map_append)
  then have "drop (entry_off enc L i) (concat (map enc (ly_entries L))) =
      concat (map enc (drop i (ly_entries L)))" by (simp add: entry_off_def)
  then show ?thesis using assms by (simp flip: Cons_nth_drop_Suc)
qed

lemma drop_block:
  assumes "in_block enc L it" and "i < ly_size L"
  obtains rest where "drop (entry_off enc L i) (block_data it) = enc (ly_entries L ! i) @ rest"
proof -
  obtain tl where tl: "bi_data it = Some (concat (map enc (ly_entries L)) @ restart_array enc L @ tl)"
    using assms(1) by (auto simp: in_block_def)
  have "entry_off enc L i \<le> length (concat (map enc (ly_entries L)))"
  proof -
    have "map enc (ly_entries L) = map enc (take i (ly_entries L)) @ map enc (drop i (ly_entries L))"
      by (metis append_take_drop_id map_append)
    then show ?thesis by (simp add: entry_off_def)
  qed
  then show ?thesis using that drop_entry_off [OF assms(2), of enc] by (simp add: tl)
qed

lemma length_restart_array: "length (restart_array enc L) = 4 * length (ly_restarts L)"
  by (simp add: restart_array_def length_concat comp_def sum_list_triv)

lemma GetRestartPoint_entry:
  assumes "layout_ok enc L" and "in_block enc L it" and "j < length (ly_restarts L)"
  shows "GetRestartPoint j it = entry_off enc L (ly_restarts L ! j)"
proof -
  obtain tl where tl: "bi_data it = Some (concat (map enc (ly_entries L)) @ restart_array enc L @ tl)"
    and restarts: "bi_restarts it = length (concat (map enc (ly_entries L)))"
    using assms(2) by (auto simp: in_block_def entry_off_def)
  let ?f = "\<lambda>r. EncodeFixed32 (of_nat (entry_off enc L r))"
  have "map ?f (ly_restarts L) =
      map ?f (take j (ly_restarts L)) @ ?f (ly_restarts L ! j) # map ?f (drop (Suc j) (ly_restarts L))"
    using arg_cong [OF id_take_nth_drop [OF assms(3)], of "map ?f"] by (simp only: map_append list.map)
  moreover have "length (concat (map ?f (take j (ly_restarts L)))) = j * 4"
    using assms(3) by (simp add: length_concat comp_def sum_list_triv min_def)
  ultimately have "drop (j * 4) (restart_array enc L) =
      ?f (ly_restarts L ! j) @ concat (map ?f (drop (Suc j) (ly_restarts L)))"
    by (simp add: restart_array_def)
  then have "drop (bi_restarts it + j * 4) (block_data it) =
      ?f (ly_restarts L ! j) @ concat (map ?f (drop (Suc j) (ly_restarts L))) @ tl"
    using assms(3) by (simp add: tl restarts length_restart_array)
  moreover have "ly_restarts L ! j \<le> ly_size L"
    using layout_ok_restart(1) [OF assms(1,3)] by (simp add: max_def split: if_splits)
  ultimately show ?thesis
    using entry_off_bound [OF assms(1), of "ly_restarts L ! j"]
    by (simp add: GetRestartPoint_def DecodeFixed32_EncodeFixed32 unat_of_nat)
qed

section \<open>Parsing one entry\<close>

lemma advance_restart_index_cases:
  "\<exists>k. advance_restart_index it = it\<lparr>bi_restart_index := k\<rparr> \<and>
     (bi_restart_index it < bi_num_restarts it \<longrightarrow> k < bi_num_restarts it)"
proof (induction it rule: advance_restart_index.induct)
  case (1 it)
  show ?case
  proof (cases "bi_restart_index it + 1 < bi_num_restarts it \<and>
      GetRestartPoint (bi_restart_index it + 1) it < bi_current it")
    case True
    with 1 obtain k where "advance_restart_index (it\<lparr>bi_restart_index := bi_restart_index it + 1\<rparr>) =
        it\<lparr>bi_restart_index := k\<rparr>" "k < bi_num_restarts it"
      by auto
    moreover have "advance_restart_index it =
        advance_restart_index (it\<lparr>bi_restart_index := bi_restart_index it + 1\<rparr>)"
      using True by (subst advance_restart_index.simps) (simp only: if_True simp_thms)
    ultimately show ?thesis by auto
  next
    case False
    then show ?thesis
      by (subst advance_restart_index.simps) (auto intro!: exI [of _ "bi_restart_index it"])
  qed
qed

text \<open>A decoder of entries, as \<open>ParseNextKey\<close> uses it.\<close>

locale entry_decoder =
  fixes enc :: "block_entry \<Rightarrow> slice"
    and decode :: "slice \<Rightarrow> nat \<Rightarrow> nat \<Rightarrow> decoded_entry option"
  assumes decode_entry:
    "\<lbrakk>drop p d = enc e @ rest; p + length (enc e) \<le> limit; limit \<le> length d; limit < 2 ^ 32;
      length (be_delta e) + length (be_val e) < 2 ^ 32\<rbrakk> \<Longrightarrow>
     decode d p limit = Some (of_nat (be_shared e), of_nat (length (be_delta e)),
       of_nat (length (be_val e)),
       p + length (enc e) - length (be_delta e) - length (be_val e))"
    and enc_tail: "\<exists>hd. enc e = hd @ be_delta e @ be_val e"
begin

lemma drop_entry:
  assumes "in_block enc L it" and "i < ly_size L"
  defines "e \<equiv> ly_entries L ! i"
  defines "q \<equiv> entry_off enc L i + length (enc e) - length (be_delta e) - length (be_val e)"
  shows "take (length (be_delta e)) (drop q (block_data it)) = be_delta e"
    and "take (length (be_val e)) (drop (q + length (be_delta e)) (block_data it)) = be_val e"
    and "q + length (be_delta e) = entry_off enc L (Suc i) - length (be_val e)"
    and "entry_off enc L (Suc i) - length (be_val e) + length (be_val e) = entry_off enc L (Suc i)"
proof -
  obtain rest where rest: "drop (entry_off enc L i) (block_data it) = enc e @ rest"
    using drop_block [OF assms(1,2)] unfolding e_def .
  obtain hd where hd: "enc e = hd @ be_delta e @ be_val e" using enc_tail by blast
  have q: "q = entry_off enc L i + length hd" unfolding q_def by (simp add: hd)
  have "drop q (block_data it) = drop (length hd) (drop (entry_off enc L i) (block_data it))"
    by (simp add: q add.commute)
  then have dq: "drop q (block_data it) = be_delta e @ be_val e @ rest" by (simp add: rest hd)
  then show "take (length (be_delta e)) (drop q (block_data it)) = be_delta e" by simp
  have "drop (q + length (be_delta e)) (block_data it) =
      drop (length (be_delta e)) (drop q (block_data it))" by (simp add: add.commute)
  then show "take (length (be_val e)) (drop (q + length (be_delta e)) (block_data it)) = be_val e"
    by (simp add: dq)
  show "q + length (be_delta e) = entry_off enc L (Suc i) - length (be_val e)"
    "entry_off enc L (Suc i) - length (be_val e) + length (be_val e) = entry_off enc L (Suc i)"
    using assms(2) by (simp_all add: q entry_off_Suc hd flip: e_def)
qed

lemma decode_at:
  assumes "layout_ok enc L" and "in_block enc L it" and "i < ly_size L"
  defines "e \<equiv> ly_entries L ! i"
  shows "decode (block_data it) (entry_off enc L i) (bi_restarts it) =
    Some (of_nat (be_shared e), of_nat (length (be_delta e)), of_nat (length (be_val e)),
      entry_off enc L i + length (enc e) - length (be_delta e) - length (be_val e))"
proof -
  obtain rest where rest: "drop (entry_off enc L i) (block_data it) = enc e @ rest"
    using drop_block [OF assms(2,3)] unfolding e_def .
  show ?thesis
  proof (rule decode_entry [OF rest])
    have "entry_off enc L (Suc i) \<le> entry_off enc L (ly_size L)"
      using entry_off_less_iff [OF assms(1), of "ly_size L" "Suc i"] assms(3) by simp
    then show "entry_off enc L i + length (enc e) \<le> bi_restarts it"
      using assms(2,3) by (simp add: in_block_def entry_off_Suc e_def)
    show "bi_restarts it \<le> length (block_data it)"
      using assms(2) by (auto simp: in_block_def entry_off_def)
    show "bi_restarts it < 2 ^ 32"
      using entry_off_bound [OF assms(1), of "ly_size L"] assms(2) by (simp add: in_block_def)
    show "length (be_delta e) + length (be_val e) < 2 ^ 32"
      using layout_ok_entry(3) [OF assms(1,3)] by (simp add: e_def)
  qed
qed

text \<open>The key of the next entry is the shared prefix of the current one and the stored rest.\<close>

lemma ParseNextKey_raw_key:
  assumes L: "layout_ok enc L" and b: "before_entry enc L it i" and i: "i < ly_size L"
  defines "e \<equiv> ly_entries L ! i"
  defines "k \<equiv> (if be_shared e = 0 then
      (if ly_pad L then SetKeyWithPaddedMinTimestamp (be_delta e) (ly_ts L) (bi_raw_key it)
       else SetKey (be_delta e) False (bi_raw_key it))
    else if ly_pad L
    then TrimAppendWithTimestamp (be_shared e) (be_delta e) (ly_ts L) (bi_raw_key it)
    else TrimAppend (be_shared e) (be_delta e) (bi_raw_key it))"
  shows "be_shared e \<le> ik_key_size (bi_raw_key it) \<and> ik_ok k \<and> GetKey k = entry_key L i \<and>
    ik_is_user_key k = ly_user L \<and> (\<not> ly_pad L \<longrightarrow> ik_place k \<noteq> In_Secondary)"
proof -
  have in_b: "ik_is_user_key (bi_raw_key it) = ly_user L" "ly_ts L \<le> 9"
    "\<not> ly_pad L \<longrightarrow> ik_place (bi_raw_key it) \<noteq> In_Secondary"
    using b layout_okD(5) [OF L] by (simp_all add: before_entry_def in_block_def)
  have footer: "kNumInternalBytes \<le> length (stored_key (ly_entries L) j)"
    if "ly_pad L" "\<not> ly_user L" "j < ly_size L" for j
    by (rule layout_ok_footer [OF L that])
  show ?thesis
  proof (cases "be_shared e = 0")
    case True
    then have key: "stored_key (ly_entries L) i = be_delta e" by (cases i) (simp_all add: e_def)
    show ?thesis
      using True in_b footer [of i] i SetKey_facts [of "be_delta e" False "bi_raw_key it"]
        SetKeyWithPaddedMinTimestamp_facts [of "ly_ts L" "bi_raw_key it" "be_delta e"]
      by (simp add: k_def entry_key_def present_def key)
  next
    case False
    with b i have pos: "0 < i" and raw: "ik_ok (bi_raw_key it)"
      "GetKey (bi_raw_key it) = entry_key L (i - 1)"
      by (auto simp: before_entry_def e_def)
    obtain j where j: "i = Suc j" using pos by (cases i) auto
    let ?st = "stored_key (ly_entries L) j"
    have key: "stored_key (ly_entries L) i = take (be_shared e) ?st @ be_delta e"
      by (simp add: j e_def)
    have sh: "be_shared e \<le> length ?st" using layout_ok_shared [OF L] i by (simp add: j e_def)
    have size: "ik_key_size (bi_raw_key it) = length ?st + (if ly_pad L then ly_ts L else 0)"
      using length_GetKey [OF raw(1)] raw(2)
      by (auto simp: entry_key_def present_def length_pad_min j)
    show ?thesis
    proof (cases "ly_pad L")
      case True
      have len: "kNumInternalBytes \<le> be_shared e + length (be_delta e)" if "\<not> ly_user L"
        using footer [OF True that i] sh by (simp add: key)
      have "GetKey (bi_raw_key it) = pad_min (ik_is_user_key (bi_raw_key it)) (ly_ts L) ?st"
        using raw True in_b by (simp add: entry_key_def present_def j)
      from TrimAppendWithTimestamp_facts [OF raw(1) this in_b(2) sh, of "be_delta e"]
      have "GetKey k = pad_min (ly_user L) (ly_ts L) (take (be_shared e) ?st @ be_delta e) \<and>
          ik_ok k \<and> ik_is_user_key k = ly_user L"
        using len footer [OF True, of j] in_b(1) i True False by (simp add: k_def j)
      then show ?thesis using True sh size by (simp add: entry_key_def present_def key)
    next
      case no_pad: False
      from TrimAppend_facts [OF raw(1), of "be_shared e" "be_delta e"] no_pad False in_b sh size
      show ?thesis using raw(2) by (simp add: k_def entry_key_def present_def key) (simp add: j)
    qed
  qed
qed

lemma ParseNextKey_entry:
  assumes L: "layout_ok enc L" and b: "before_entry enc L it i" and i: "i < ly_size L"
  shows "\<exists>sh it'. ParseNextKey decode it = (True, sh, it') \<and> at_entry enc L it' i \<and>
    block_iter.more it' = block_iter.more it"
proof -
  define e where "e = ly_entries L ! i"
  define q where "q = entry_off enc L i + length (enc e) - length (be_delta e) - length (be_val e)"
  have in_b: "in_block enc L it" and next_off: "NextEntryOffset it = entry_off enc L i"
    and ri: "bi_restart_index it < bi_num_restarts it"
    using b by (auto simp: before_entry_def in_block_def)
  have e: "be_shared e < 2 ^ 32" "length (be_delta e) < 2 ^ 32" "length (be_val e) < 2 ^ 32"
    using layout_ok_entry [OF L i] by (simp_all add: e_def)
  have u: "unat (of_nat (be_shared e) :: u32) = be_shared e"
    "unat (of_nat (length (be_delta e)) :: u32) = length (be_delta e)"
    "unat (of_nat (length (be_val e)) :: u32) = length (be_val e)"
    using e by (simp_all add: unat_of_nat)
  have u0: "of_nat (be_shared e) = (0 :: u32) \<longleftrightarrow> be_shared e = 0" using u(1) by auto
  note dec = decode_at [OF L in_b i, folded e_def, folded q_def]
  note d = drop_entry [OF in_b i, folded e_def, folded q_def]
  have lt: "entry_off enc L i < bi_restarts it"
    using entry_off_less_iff [OF L, of i "ly_size L"] i in_b by (simp add: in_block_def)
  define k where "k = (if be_shared e = 0 then
      (if ly_pad L then SetKeyWithPaddedMinTimestamp (be_delta e) (ly_ts L) (bi_raw_key it)
       else SetKey (be_delta e) False (bi_raw_key it))
    else if ly_pad L
    then TrimAppendWithTimestamp (be_shared e) (be_delta e) (ly_ts L) (bi_raw_key it)
    else TrimAppend (be_shared e) (be_delta e) (bi_raw_key it))"
  note key = ParseNextKey_raw_key [OF L b i, folded e_def, folded k_def]
  define it1 where "it1 = it\<lparr>bi_current := entry_off enc L i, bi_raw_key := k,
    bi_value := (q + length (be_delta e), length (be_val e))\<rparr>"
  have pad: "bi_pad_min_timestamp it = ly_pad L" "bi_ts_sz it = ly_ts L"
    using in_b by (simp_all add: in_block_def)
  have parse: "ParseNextKey decode it =
      (True, be_shared e \<noteq> 0, if be_shared e = 0 then advance_restart_index it1 else it1)"
    using conjunct1 [OF key] lt
    by (cases "be_shared e = 0"; cases "ly_pad L")
      (simp_all add: ParseNextKey_def Let_def next_off dec u u0 d(1) pad it1_def k_def
        UpdateRawKeyAndMaybePadMinTimestamp_def)
  have at: "at_entry enc L (it1\<lparr>bi_restart_index := r\<rparr>) i" if "r < bi_num_restarts it" for r
    using in_b key that i d
    by (simp add: at_entry_def in_block_def it1_def value_slice_def flip: e_def)
  obtain r where r: "advance_restart_index it1 = it1\<lparr>bi_restart_index := r\<rparr>" "r < bi_num_restarts it"
    using advance_restart_index_cases [of it1] ri by (auto simp: it1_def)
  have same: "it1\<lparr>bi_restart_index := bi_restart_index it\<rparr> = it1" by (simp add: it1_def)
  have "at_entry enc L it1 i" using at [OF ri] unfolding same .
  moreover have "at_entry enc L (advance_restart_index it1) i" unfolding r(1) by (rule at [OF r(2)])
  moreover have "block_iter.more it1 = block_iter.more it"
    "block_iter.more (advance_restart_index it1) = block_iter.more it"
    unfolding r(1) by (simp_all add: it1_def)
  ultimately show ?thesis unfolding parse by (cases "be_shared e = 0") auto
qed

end

lemma ParseNextKey_end:
  assumes "before_entry enc L it (ly_size L)"
  shows "\<exists>it'. ParseNextKey decode it = (False, False, it') \<and> at_end enc L it' \<and>
    block_iter.more it' = block_iter.more it"
  using assms by (simp add: before_entry_def ParseNextKey_def Let_def in_block_def at_end_def)

lemma NextEntryOffset_mod: "NextEntryOffset it = (fst (bi_value it) + snd (bi_value it)) mod 2 ^ 32"
  by (simp only: NextEntryOffset_def unat_of_nat) simp

lemma at_entry_before:
  assumes "layout_ok enc L" and "at_entry enc L it i"
    and "length (be_val (ly_entries L ! i)) \<le> length (enc (ly_entries L ! i))"
  shows "before_entry enc L it (Suc i)"
proof -
  have "entry_off enc L (Suc i) < 2 ^ 32" if "i < ly_size L"
    using entry_off_bound [OF assms(1), of "Suc i"] that by simp
  then show ?thesis using assms by (auto simp: before_entry_def at_entry_def NextEntryOffset_mod entry_off_Suc)
qed

lemma at_entry_Valid:
  assumes "layout_ok enc L" and "at_entry enc L it i"
  shows "Block_Valid it"
  using assms entry_off_less_iff [OF assms(1), of i "ly_size L"]
  by (simp add: Block_Valid_def at_entry_def in_block_def)

lemma at_end_not_Valid: "at_end enc L it \<Longrightarrow> \<not> Block_Valid it"
  by (simp add: Block_Valid_def at_end_def)

lemma SeekToRestartPoint_before:
  assumes "layout_ok enc L" and "in_block enc L it" and "j < length (ly_restarts L)"
  shows "before_entry enc L (SeekToRestartPoint j it) (ly_restarts L ! j)"
proof -
  let ?it = "it\<lparr>bi_raw_key := IterKey_Clear (bi_raw_key it), bi_restart_index := j\<rparr>"
  have in_b: "in_block enc L ?it" using assms(2) by (simp add: in_block_def ik_simps)
  have le: "ly_restarts L ! j \<le> ly_size L"
    using layout_ok_restart(1) [OF assms(1,3)] by (simp add: max_def split: if_splits)
  moreover have "entry_off enc L (ly_restarts L ! j) mod 2 ^ 32 = entry_off enc L (ly_restarts L ! j)"
    using entry_off_bound [OF assms(1) le] by simp
  moreover have "be_shared (ly_entries L ! (ly_restarts L ! j)) = 0" if "ly_restarts L ! j < ly_size L"
    by (rule layout_ok_restart(2) [OF assms(1,3) that])
  ultimately show ?thesis
    using in_b assms(3) GetRestartPoint_entry [OF assms(1) in_b assms(3)]
    by (simp add: SeekToRestartPoint_def before_entry_def NextEntryOffset_mod in_block_def)
qed

lemma SeekToRestartPoint_more [simp]:
  "block_iter.more (SeekToRestartPoint j it) = block_iter.more it"
  by (simp add: SeekToRestartPoint_def Let_def)

lemma length_entry_bytes: "length (be_delta e) + length (be_val e) \<le> length (entry_bytes e)"
  by (simp add: entry_bytes_def)

interpretation plain_entries: entry_decoder entry_bytes DecodeEntry
proof
  fix p d e rest limit
  assume "drop p d = entry_bytes e @ rest" "p + length (entry_bytes e) \<le> limit" "limit \<le> length d"
  then show "DecodeEntry d p limit = Some (of_nat (be_shared e), of_nat (length (be_delta e)),
      of_nat (length (be_val e)),
      p + length (entry_bytes e) - length (be_delta e) - length (be_val e))"
    using decode_lengths_entry by (simp add: DecodeEntry_def)
next
  fix e show "\<exists>hd. entry_bytes e = hd @ be_delta e @ be_val e"
    by (intro exI [of _ "EncodeVarint32 (of_nat (be_shared e)) @
      EncodeVarint32 (of_nat (length (be_delta e))) @ EncodeVarint32 (of_nat (length (be_val e)))"])
      (simp add: entry_bytes_def)
qed

interpretation checked_entries: entry_decoder entry_bytes CheckAndDecodeEntry
proof
  fix p d e rest and limit :: nat
  assume *: "drop p d = entry_bytes e @ rest" "p + length (entry_bytes e) \<le> limit"
    "limit \<le> length d" "limit < 2 ^ 32" "length (be_delta e) + length (be_val e) < 2 ^ 32"
  have "3 \<le> length (entry_bytes e)"
    using length_EncodeVarint32_pos [of "of_nat (be_shared e)"]
      length_EncodeVarint32_pos [of "of_nat (length (be_delta e))"]
      length_EncodeVarint32_pos [of "of_nat (length (be_val e))"]
    unfolding entry_bytes_def length_append by linarith
  moreover
  let ?q = "p + length (entry_bytes e) - length (be_delta e) - length (be_val e)"
  have "\<not> (of_nat (limit - ?q) :: u32) < of_nat (length (be_delta e)) + of_nat (length (be_val e))"
  proof -
    have le: "length (be_delta e) + length (be_val e) \<le> limit - ?q"
      using * length_entry_bytes [of e] by linarith
    have "unat (of_nat (length (be_delta e) + length (be_val e)) :: u32) =
        length (be_delta e) + length (be_val e)"
      using *(5) by (simp add: unat_of_nat del: of_nat_add)
    moreover have "unat (of_nat (limit - ?q) :: u32) = limit - ?q"
      using *(4) by (simp add: unat_of_nat)
    ultimately show ?thesis using le by (simp add: word_less_nat_alt)
  qed
  ultimately show "CheckAndDecodeEntry d p limit = Some (of_nat (be_shared e),
      of_nat (length (be_delta e)), of_nat (length (be_val e)), ?q)"
    using * decode_lengths_entry [OF *(1-3)] by (simp add: CheckAndDecodeEntry_def)
qed (rule plain_entries.enc_tail)

section \<open>Iterators over any kind of entry\<close>

text \<open>The comparison of the current key with a target depends on the key and the layout only.\<close>

definition key_cmp :: "(slice \<Rightarrow> slice \<Rightarrow> int) \<Rightarrow> block_layout \<Rightarrow> slice \<Rightarrow> slice \<Rightarrow> int" where
  "key_cmp ucmp L target k =
     (if ly_user L then ucmp k target
      else if ly_seqno L = kDisableGlobalSequenceNumber then InternalKeyCompare ucmp k target
      else InternalKeyCompare_global ucmp k (ly_seqno L) target kDisableGlobalSequenceNumber)"

text \<open>
  The keys of a block are strictly increasing, as far as one target can tell: after a key that is
  not less than the target there are only greater ones.
\<close>

definition ordered_for :: "(slice \<Rightarrow> slice \<Rightarrow> int) \<Rightarrow> block_layout \<Rightarrow> slice \<Rightarrow> bool" where
  "ordered_for ucmp L target \<longleftrightarrow>
     (\<forall>i j. i < j \<longrightarrow> j < ly_size L \<longrightarrow> key_cmp ucmp L target (entry_key L i) \<ge> 0 \<longrightarrow>
        key_cmp ucmp L target (entry_key L j) > 0)"

definition first_at_least :: "(slice \<Rightarrow> slice \<Rightarrow> int) \<Rightarrow> block_layout \<Rightarrow> slice \<Rightarrow> nat \<Rightarrow> bool" where
  "first_at_least ucmp L target k \<longleftrightarrow>
     k \<le> ly_size L \<and> (\<forall>j<k. key_cmp ucmp L target (entry_key L j) < 0) \<and>
     (k < ly_size L \<longrightarrow> key_cmp ucmp L target (entry_key L k) \<ge> 0)"

lemma CompareCurrentKey_eq:
  assumes "in_block enc L it" and "ik_ok (bi_raw_key it)"
  shows "CompareCurrentKey ucmp target it = key_cmp ucmp L target (GetKey (bi_raw_key it))"
  using assms by (simp add: CompareCurrentKey_def key_cmp_def in_block_def ik_simps)

lemma restart_before_spec:
  assumes "layout_ok enc L" and "in_block enc L it" and "i \<le> ly_size L"
    and "r < length (ly_restarts L)"
  shows "(i = 0 \<longrightarrow> restart_before (entry_off enc L i) r it = None) \<and>
    (i > 0 \<longrightarrow> (\<exists>j. restart_before (entry_off enc L i) r it = Some j \<and>
       j < length (ly_restarts L) \<and> ly_restarts L ! j < i))"
  using assms(4)
proof (induction r)
  case (Suc r)
  then show ?case
    using GetRestartPoint_entry [OF assms(1,2), of "Suc r"] layout_ok_restart(1) [OF assms(1), of "Suc r"]
      entry_off_less_iff [OF assms(1), of "ly_restarts L ! Suc r" i] assms(3)
    by (subst (1 2) restart_before.simps) (auto simp: max_def split: if_splits)
next
  case 0
  then show ?case
    using GetRestartPoint_entry [OF assms(1,2), of 0] layout_okD(2) [OF assms(1)]
      entry_off_less_iff [OF assms(1), of 0 i] assms(3)
    by (subst (1 2) restart_before.simps) auto
qed

lemma UpdateRawKey_restart:
  assumes L: "layout_ok enc L" and in_b: "in_block enc L it" and i: "i < ly_size L"
    and sh: "be_shared (ly_entries L ! i) = 0"
  defines "it' \<equiv> UpdateRawKeyAndMaybePadMinTimestamp (be_delta (ly_entries L ! i)) it"
  shows "in_block enc L it' \<and> CompareCurrentKey ucmp target it' = key_cmp ucmp L target (entry_key L i) \<and>
    block_iter.more it' = block_iter.more it"
proof -
  let ?d = "be_delta (ly_entries L ! i)"
  have key: "stored_key (ly_entries L) i = ?d" using sh by (cases i) simp_all
  have user: "ik_is_user_key (bi_raw_key it) = ly_user L" using in_b by (simp add: in_block_def)
  have "in_block enc L it' \<and> ik_ok (bi_raw_key it') \<and> GetKey (bi_raw_key it') = entry_key L i"
  proof (cases "ly_pad L")
    case True
    have "kNumInternalBytes \<le> length ?d" if "\<not> ly_user L"
      using layout_ok_footer [OF L True that i] by (simp add: key)
    then show ?thesis
      using SetKeyWithPaddedMinTimestamp_facts [OF layout_okD(5) [OF L], of "bi_raw_key it" ?d] in_b user True
      by (simp add: it'_def UpdateRawKeyAndMaybePadMinTimestamp_def in_block_def entry_key_def
          present_def key)
  next
    case False
    then show ?thesis
      using SetKey_facts [of ?d False "bi_raw_key it"] in_b user
      by (simp add: it'_def UpdateRawKeyAndMaybePadMinTimestamp_def in_block_def entry_key_def
          present_def key)
  qed
  then show ?thesis
    by (simp add: CompareCurrentKey_eq [of enc L])
      (simp add: it'_def UpdateRawKeyAndMaybePadMinTimestamp_def)
qed

text \<open>Positions of an iterator: an entry, or the end of the block.\<close>

definition posn ::
    "(block_entry \<Rightarrow> slice) \<Rightarrow> (block_layout \<Rightarrow> 'a \<Rightarrow> bool) \<Rightarrow> block_layout \<Rightarrow>
     'a block_iter_scheme \<Rightarrow> nat \<Rightarrow> bool" where
  "posn enc extra L it i \<longleftrightarrow>
     extra L (block_iter.more it) \<and>
     (if i < ly_size L then at_entry enc L it i else i = ly_size L \<and> at_end enc L it)"

text \<open>
  What an iterator promises of its parser: it moves from entry to entry and keeps whatever
  \<open>extra\<close> the iterator maintains in its own fields, and the keys at restart points can be decoded
  without the keys in front of them.
\<close>

locale block_parser =
  fixes enc :: "block_entry \<Rightarrow> slice"
    and parse :: "'a block_iter_scheme \<Rightarrow> bool \<times> 'a block_iter_scheme"
    and decode_key :: "slice \<Rightarrow> nat \<Rightarrow> nat \<Rightarrow> (u32 \<times> u32 \<times> nat) option"
    and extra :: "block_layout \<Rightarrow> 'a \<Rightarrow> bool"
  assumes parse_entry:
    "\<lbrakk>layout_ok enc L; before_entry enc L it i; i < ly_size L; extra L (block_iter.more it)\<rbrakk> \<Longrightarrow>
     \<exists>it'. parse it = (True, it') \<and> at_entry enc L it' i \<and> extra L (block_iter.more it')"
    and parse_end:
    "\<lbrakk>layout_ok enc L; before_entry enc L it (ly_size L); extra L (block_iter.more it)\<rbrakk> \<Longrightarrow>
     \<exists>it'. parse it = (False, it') \<and> at_end enc L it' \<and> extra L (block_iter.more it')"
    and decode_restart:
    "\<lbrakk>layout_ok enc L; in_block enc L it; i < ly_size L; be_shared (ly_entries L ! i) = 0\<rbrakk> \<Longrightarrow>
     \<exists>q. decode_key (block_data (it :: 'a block_iter_scheme)) (entry_off enc L i) (bi_restarts it) =
          Some (0, of_nat (length (be_delta (ly_entries L ! i))), q) \<and>
        take (length (be_delta (ly_entries L ! i))) (drop q (block_data it)) = be_delta (ly_entries L ! i)"
    and enc_val: "length (be_val e) \<le> length (enc e)"
begin

lemma parse_before:
  assumes "layout_ok enc L" and "before_entry enc L it i" and "extra L (block_iter.more it)"
  shows "\<exists>it'. parse it = (i < ly_size L, it') \<and> posn enc extra L it' i"
proof (cases "i < ly_size L")
  case True
  then show ?thesis using parse_entry [OF assms(1,2)] assms(3) by (auto simp: posn_def)
next
  case False
  moreover have "i \<le> ly_size L" using assms(2) by (simp add: before_entry_def)
  ultimately show ?thesis using parse_end [OF assms(1)] assms(2,3) by (auto simp: posn_def)
qed

lemma posn_before:
  assumes "layout_ok enc L" and "posn enc extra L it i" and "i < ly_size L"
  shows "before_entry enc L it (Suc i)" "extra L (block_iter.more it)"
  using assms at_entry_before [OF assms(1) _ enc_val] by (auto simp: posn_def)

lemma parse_posn:
  assumes "layout_ok enc L" and "posn enc extra L it i" and "i < ly_size L"
  shows "\<exists>it'. parse it = (Suc i < ly_size L, it') \<and> posn enc extra L it' (Suc i)"
  using parse_before [OF assms(1) posn_before(1) [OF assms] posn_before(2) [OF assms]] .

lemma posn_NextEntryOffset:
  assumes "layout_ok enc L" and "posn enc extra L it i" and "i < ly_size L"
  shows "NextEntryOffset it = entry_off enc L (Suc i)"
  using posn_before(1) [OF assms] by (simp add: before_entry_def)

lemma posn_in_block: "posn enc extra L it i \<Longrightarrow> in_block enc L it"
  by (auto simp: posn_def at_entry_def at_end_def split: if_splits)

lemma posn_Valid:
  assumes "layout_ok enc L" and "posn enc extra L it i"
  shows "Block_Valid it \<longleftrightarrow> i < ly_size L"
  using assms at_entry_Valid [of enc L it i] at_end_not_Valid [of enc L it]
  by (auto simp: posn_def split: if_splits)

lemma posn_cmp:
  assumes "posn enc extra L it i" and "i < ly_size L"
  shows "CompareCurrentKey ucmp target it = key_cmp ucmp L target (entry_key L i)"
  using assms CompareCurrentKey_eq [of enc L it ucmp target] by (simp add: posn_def at_entry_def)

lemma restart_posn:
  assumes "layout_ok enc L" and "in_block enc L it" and "extra L (block_iter.more it)"
    and "j < length (ly_restarts L)"
  shows "\<exists>it'. parse (SeekToRestartPoint j it) = (ly_restarts L ! j < ly_size L, it') \<and>
    posn enc extra L it' (ly_restarts L ! j)"
  using parse_before [OF assms(1) SeekToRestartPoint_before [OF assms(1,2,4)]] assms(3) by simp

text \<open>The loop that stops behind a given entry.\<close>

lemma parse_while_posn:
  assumes L: "layout_ok enc L" and "before_entry enc L it i" and "extra L (block_iter.more it)"
    and "i \<le> k" and k: "k < ly_size L"
    and cond: "\<And>it' j. posn enc extra L it' j \<Longrightarrow> j < ly_size L \<Longrightarrow> cond it' \<longleftrightarrow> j < k"
  shows "\<exists>it'. parse_while parse cond it = Some it' \<and> posn enc extra L it' k"
  using assms(2-4)
proof (induction "k - i" arbitrary: it i)
  case 0
  then have i: "i = k" by simp
  obtain it' where "parse it = (True, it')" "posn enc extra L it' k"
    using parse_before [OF L 0(2,3)] k i by auto
  then show ?case using cond [of it' k] k by (subst parse_while.simps) simp
next
  case (Suc d)
  then have i: "i < k" by simp
  obtain it' where it': "parse it = (True, it')" "posn enc extra L it' i"
    using parse_before [OF L Suc.prems(1,2)] k i by auto
  have il: "i < ly_size L" using i k by simp
  have "parse_while parse cond it = parse_while parse cond it'"
    using it' cond [OF it'(2) il] i by (subst parse_while.simps) simp
  moreover have "d = k - Suc i" using Suc.hyps(2) by simp
  ultimately show ?case
    using Suc.hyps(1) [OF _ posn_before [OF L it'(2) il]] i by simp
qed

lemma SeekToFirst_posn:
  assumes "layout_ok enc L" and "in_block enc L it" and "extra L (block_iter.more it)"
  shows "posn enc extra L (SeekToFirst_parse parse it) 0"
proof -
  have "0 < length (ly_restarts L)" "ly_restarts L ! 0 = 0" using layout_okD [OF assms(1)] by auto
  moreover have "bi_data it \<noteq> None" using assms(2) by (auto simp: in_block_def)
  ultimately show ?thesis
    using restart_posn [OF assms, of 0] by (auto simp: SeekToFirst_parse_def)
qed

lemma SeekToLast_posn:
  assumes L: "layout_ok enc L" and b: "in_block enc L it" and x: "extra L (block_iter.more it)"
  shows "\<exists>it'. SeekToLast_parse parse it = Some it' \<and> posn enc extra L it' (ly_size L - 1)"
proof -
  let ?j = "length (ly_restarts L) - 1"
  have j: "?j < length (ly_restarts L)" using layout_okD(1) [OF L] by (cases "ly_restarts L") auto
  have eq: "SeekToLast_parse parse it =
      parse_while parse (\<lambda>it. NextEntryOffset it < bi_restarts it) (SeekToRestartPoint ?j it)"
    using b by (auto simp: SeekToLast_parse_def in_block_def)
  note before = SeekToRestartPoint_before [OF L b j]
  have x': "extra L (block_iter.more (SeekToRestartPoint ?j it))" using x by simp
  have r: "ly_restarts L ! ?j < max 1 (ly_size L)" by (rule layout_ok_restart(1) [OF L j])
  show ?thesis
  proof (cases "ly_size L = 0")
    case True
    with r have "ly_restarts L ! ?j = 0" by simp
    with parse_before [OF L before x'] True obtain it'
      where "parse (SeekToRestartPoint ?j it) = (False, it')" "posn enc extra L it' 0" by auto
    with True show ?thesis unfolding eq by (subst parse_while.simps) simp
  next
    case False
    have "NextEntryOffset it' < bi_restarts it' \<longleftrightarrow> i < ly_size L - 1"
      if "posn enc extra L it' i" "i < ly_size L" for it' i
    proof -
      have "bi_restarts it' = entry_off enc L (ly_size L)"
        using posn_in_block [OF that(1)] by (simp add: in_block_def)
      then show ?thesis
        using posn_NextEntryOffset [OF L that] entry_off_less_iff [OF L, of "Suc i" "ly_size L"] that
        by auto
    qed
    then show ?thesis
      unfolding eq using r False by (intro parse_while_posn [OF L before x']) auto
  qed
qed

lemma no_more_entries_posn:
  assumes "in_block enc L it" and "extra L (block_iter.more it)"
  shows "posn enc extra L (no_more_entries it) (ly_size L)"
  using assms by (simp add: posn_def at_end_def no_more_entries_def in_block_def)

lemma PrevImpl_uncached_posn:
  assumes L: "layout_ok enc L" and p: "posn enc extra L it i" and i: "i < ly_size L"
  shows "\<exists>it'. PrevImpl_uncached parse it = Some it' \<and>
    posn enc extra L it' (if i = 0 then ly_size L else i - 1)"
proof -
  have b: "in_block enc L it" and x: "extra L (block_iter.more it)"
    and cur: "bi_current it = entry_off enc L i"
    and r: "bi_restart_index it < length (ly_restarts L)"
    using p i by (simp_all add: posn_def at_entry_def)
  note spec = restart_before_spec [OF L b less_imp_le [OF i] r]
  show ?thesis
  proof (cases "i = 0")
    case True
    then show ?thesis
      using spec no_more_entries_posn [OF b x] by (simp add: PrevImpl_uncached_def cur)
  next
    case False
    then obtain j where j: "restart_before (entry_off enc L i) (bi_restart_index it) it = Some j"
      "j < length (ly_restarts L)" "ly_restarts L ! j < i"
      using spec by auto
    have "\<exists>it'. parse_while parse (\<lambda>it. NextEntryOffset it < entry_off enc L i)
        (SeekToRestartPoint j it) = Some it' \<and> posn enc extra L it' (i - 1)"
    proof (rule parse_while_posn [OF L SeekToRestartPoint_before [OF L b j(2)]])
      show "NextEntryOffset it' < entry_off enc L i \<longleftrightarrow> k < i - 1"
        if "posn enc extra L it' k" "k < ly_size L" for it' k
        using posn_NextEntryOffset [OF L that] entry_off_less_iff [OF L, of "Suc k" i] that i by auto
    qed (use x i j(3) in auto)
    with False j(1) show ?thesis by (simp add: PrevImpl_uncached_def cur)
  qed
qed

text \<open>
  One round of the binary search compares the key of the restart point in the middle; \<open>c j\<close> is the
  comparison of the key at restart point \<open>j\<close> with the target.
\<close>

lemma BinarySeek_loop_step:
  fixes ucmp :: "slice \<Rightarrow> slice \<Rightarrow> int" and target :: slice
    and it :: "'a block_iter_scheme"
  assumes L: "layout_ok enc L" and n: "0 < ly_size L" and b: "in_block enc L it"
    and less: "left < right" and right: "right < int (length (ly_restarts L))" and left: "-1 \<le> left"
  defines "c \<equiv> \<lambda>j. key_cmp ucmp L target (entry_key L (ly_restarts L ! j))"
  defines "mid \<equiv> left + (right - left + 1) div 2"
  shows "\<exists>it1. in_block enc L it1 \<and> block_iter.more it1 = block_iter.more it \<and>
    BinarySeek_loop ucmp decode_key target left right skip it =
      (if c (nat mid) < 0 then BinarySeek_loop ucmp decode_key target mid right skip it1
       else if c (nat mid) > 0 then BinarySeek_loop ucmp decode_key target left (mid - 1) skip it1
       else BinarySeek_loop ucmp decode_key target mid mid True it1)"
proof -
  let ?j = "nat mid"
  have j: "?j < length (ly_restarts L)" using less left right by (auto simp: mid_def)
  let ?i = "ly_restarts L ! ?j"
  have i: "?i < ly_size L" using layout_ok_restart(1) [OF L j] n by simp
  have sh: "be_shared (ly_entries L ! ?i) = 0" by (rule layout_ok_restart(2) [OF L j i])
  obtain q where q: "decode_key (block_data it) (entry_off enc L ?i) (bi_restarts it) =
      Some (0, of_nat (length (be_delta (ly_entries L ! ?i))), q)"
    "take (length (be_delta (ly_entries L ! ?i))) (drop q (block_data it)) = be_delta (ly_entries L ! ?i)"
    using decode_restart [OF L b i sh] by auto
  have len: "unat (of_nat (length (be_delta (ly_entries L ! ?i))) :: u32) =
      length (be_delta (ly_entries L ! ?i))"
    using layout_ok_entry(3) [OF L i] by (simp add: unat_of_nat)
  define it1 where "it1 = UpdateRawKeyAndMaybePadMinTimestamp (be_delta (ly_entries L ! ?i)) it"
  note up = UpdateRawKey_restart [OF L b i sh, folded it1_def, of ucmp target]
  have "BinarySeek_loop ucmp decode_key target left right skip it =
      (if c ?j < 0 then BinarySeek_loop ucmp decode_key target mid right skip it1
       else if c ?j > 0 then BinarySeek_loop ucmp decode_key target left (mid - 1) skip it1
       else BinarySeek_loop ucmp decode_key target mid mid True it1)"
    using less up GetRestartPoint_entry [OF L b j]
    by (subst BinarySeek_loop.simps) (simp add: Let_def q len c_def flip: mid_def it1_def)
  with up show ?thesis by auto
qed

lemma restart_greater_after:
  assumes "layout_ok enc L" and "0 < ly_size L" and "ordered_for ucmp L target"
    and "key_cmp ucmp L target (entry_key L (ly_restarts L ! j)) \<ge> 0"
    and "j < k" and "k < length (ly_restarts L)"
  shows "key_cmp ucmp L target (entry_key L (ly_restarts L ! k)) > 0"
proof -
  have "ly_restarts L ! j < ly_restarts L ! k"
    using sorted_wrt_nth_less [OF layout_okD(3) [OF assms(1)] assms(5,6)] .
  then show ?thesis
    using assms(2-4) layout_ok_restart(1) [OF assms(1,6)] by (simp add: ordered_for_def)
qed

text \<open>
  The binary search over the restart points ends at the last one whose key is not greater than
  the target, or at the first one when all are greater.
\<close>

lemma BinarySeek_loop_spec:
  fixes ucmp :: "slice \<Rightarrow> slice \<Rightarrow> int" and target :: slice
    and it :: "'a block_iter_scheme"
  assumes L: "layout_ok enc L" and n: "0 < ly_size L" and ord: "ordered_for ucmp L target"
  defines "c \<equiv> \<lambda>j. key_cmp ucmp L target (entry_key L (ly_restarts L ! j))"
  assumes "in_block enc L it" and "-1 \<le> left" and "left \<le> right" and "right < int (length (ly_restarts L))"
    and "\<And>j. right < int j \<Longrightarrow> j < length (ly_restarts L) \<Longrightarrow> c j > 0"
    and "0 \<le> left \<Longrightarrow> (if skip then c (nat left) = 0 else c (nat left) < 0)"
    and "skip \<Longrightarrow> 0 \<le> left \<and> left = right"
  shows "\<exists>index sk it'. BinarySeek_loop ucmp decode_key target left right skip it = (Some (index, sk), it') \<and>
    in_block enc L it' \<and> block_iter.more it' = block_iter.more it \<and> index < length (ly_restarts L) \<and>
    (\<forall>j. index < j \<longrightarrow> j < length (ly_restarts L) \<longrightarrow> c j > 0) \<and>
    (if sk then c index = 0 \<or> index = 0 \<and> c 0 > 0 else c index < 0)"
  using assms(5-)
proof (induction "nat (right - left)" arbitrary: left right skip it rule: less_induct)
  case less
  show ?case
  proof (cases "left < right")
    case False
    then have eq: "right = left" using less.prems by simp
    have pos: "0 < length (ly_restarts L)" using layout_okD(1) [OF L] by simp
    show ?thesis
    proof (cases "left = -1")
      case True
      then show ?thesis
        using False less.prems(1,5) pos eq by (subst BinarySeek_loop.simps) auto
    next
      case F: False
      then have "0 \<le> left" using less.prems by simp
      then show ?thesis
        using False F less.prems eq by (subst BinarySeek_loop.simps) (auto simp: nat_less_iff)
    qed
  next
    case True
    define mid where "mid = left + (right - left + 1) div 2"
    have mid: "left < mid" "mid \<le> right" "0 \<le> mid"
      using True less.prems by (auto simp: mid_def)
    have skip: "\<not> skip" using less.prems(7) True by auto
    obtain it1 where b1: "in_block enc L it1" and m1: "block_iter.more it1 = block_iter.more it"
      and step: "BinarySeek_loop ucmp decode_key target left right skip it =
        (if c (nat mid) < 0 then BinarySeek_loop ucmp decode_key target mid right skip it1
         else if c (nat mid) > 0 then BinarySeek_loop ucmp decode_key target left (mid - 1) skip it1
         else BinarySeek_loop ucmp decode_key target mid mid True it1)"
      using BinarySeek_loop_step [OF L n less.prems(1) True less.prems(4,2), of ucmp target skip]
      by (auto simp: c_def mid_def)
    note IH = less.hyps [OF _ b1, unfolded m1]
    have above: "c k > 0" if "c (nat mid) \<ge> 0" "mid < int k" "k < length (ly_restarts L)" for k
      using restart_greater_after [OF L n ord, of "nat mid" k] that mid by (simp add: c_def)
    consider "c (nat mid) < 0" | "c (nat mid) > 0" | "c (nat mid) = 0" by linarith
    then show ?thesis
    proof cases
      case 1
      show ?thesis
        unfolding step if_P [OF 1] by (rule IH) (use 1 mid less.prems skip in auto)
    next
      case 2
      have "c k > 0" if "mid - 1 < int k" "k < length (ly_restarts L)" for k
        using above [of k] 2 that mid by (cases "k = nat mid") auto
      moreover have eq: "BinarySeek_loop ucmp decode_key target left right skip it =
          BinarySeek_loop ucmp decode_key target left (mid - 1) skip it1" using step 2 by simp
      ultimately show ?thesis
        unfolding eq by (intro IH) (use mid less.prems skip in auto)
    next
      case 3
      then have eq: "BinarySeek_loop ucmp decode_key target left right skip it =
          BinarySeek_loop ucmp decode_key target mid mid True it1" using step by simp
      show ?thesis
        unfolding eq by (intro IH) (use 3 above mid less.prems in auto)
    qed
  qed
qed

lemma BinarySeek_spec:
  fixes it :: "'a block_iter_scheme"
  assumes L: "layout_ok enc L" and n: "0 < ly_size L" and ord: "ordered_for ucmp L target"
    and b: "in_block enc L it"
  defines "c \<equiv> \<lambda>j. key_cmp ucmp L target (entry_key L (ly_restarts L ! j))"
  shows "\<exists>index sk it'. BinarySeek ucmp decode_key target it = (Some (index, sk), it') \<and>
    in_block enc L it' \<and> block_iter.more it' = block_iter.more it \<and> index < length (ly_restarts L) \<and>
    (\<forall>j. index < j \<longrightarrow> j < length (ly_restarts L) \<longrightarrow> c j > 0) \<and>
    (if sk then c index = 0 \<or> index = 0 \<and> c 0 > 0 else c index < 0)"
proof -
  have nr: "bi_num_restarts it = length (ly_restarts L)" "0 < length (ly_restarts L)"
    using b layout_okD(1) [OF L] by (auto simp: in_block_def)
  have "bi_restarts it \<noteq> 0"
    using b entry_off_mono_less [OF L n order_refl] by (simp add: in_block_def)
  then have eq: "BinarySeek ucmp decode_key target it =
      BinarySeek_loop ucmp decode_key target (-1) (int (length (ly_restarts L)) - 1) False it"
    by (simp add: BinarySeek_def nr)
  show ?thesis
    unfolding eq c_def by (rule BinarySeek_loop_spec [OF L n ord b]) (use nr in auto)
qed

text \<open>
  The linear scan from entry \<open>i\<close> stops at the first entry that is not less than the target, and
  at the latest at entry \<open>m\<close>, whose key is known not to be less.
\<close>

lemma linear_scan_spec:
  assumes L: "layout_ok enc L" and p: "posn enc extra L it i" and "i < m" and m: "m \<le> ly_size L"
    and max: "max_offset = (if m < ly_size L then entry_off enc L m else 2 ^ 32 - 1)"
    and ge: "m < ly_size L \<Longrightarrow> key_cmp ucmp L target (entry_key L m) \<ge> 0"
    and less: "\<And>j. j \<le> i \<Longrightarrow> key_cmp ucmp L target (entry_key L j) < 0"
  shows "\<exists>it' k. linear_scan ucmp parse target max_offset it = Some it' \<and>
    posn enc extra L it' k \<and> first_at_least ucmp L target k"
  using p \<open>i < m\<close> less
proof (induction "m - i" arbitrary: it i)
  case (Suc d)
  then have i: "i < ly_size L" using m by simp
  obtain it1 where it1: "snd (parse it) = it1" "posn enc extra L it1 (Suc i)"
    using parse_posn [OF L Suc.prems(1) i] by auto
  have below: "\<And>j. j < Suc i \<Longrightarrow> key_cmp ucmp L target (entry_key L j) < 0"
    using Suc.prems(3) by auto
  consider "Suc i = ly_size L" | "Suc i < ly_size L" "key_cmp ucmp L target (entry_key L (Suc i)) \<ge> 0"
    | "Suc i < ly_size L" "key_cmp ucmp L target (entry_key L (Suc i)) < 0"
    using i by linarith
  then show ?case
  proof cases
    case 1
    then have "linear_scan ucmp parse target max_offset it = Some it1"
      using it1 posn_Valid [OF L it1(2)] by (subst linear_scan.simps) simp
    with 1 it1 below show ?thesis by (auto simp: first_at_least_def)
  next
    case 2
    then have "linear_scan ucmp parse target max_offset it = Some it1"
      using it1 posn_Valid [OF L it1(2)] posn_cmp [OF it1(2), of ucmp target]
      by (subst linear_scan.simps) simp
    with 2 it1 below show ?thesis by (auto simp: first_at_least_def)
  next
    case 3
    have lt: "Suc i < m" using 3 ge Suc.prems(2) m by (cases "Suc i = m") auto
    have cur: "bi_current it1 = entry_off enc L (Suc i)"
      using it1(2) 3(1) by (simp add: posn_def at_entry_def)
    have "bi_current it1 \<noteq> max_offset"
      using max lt m 3(1) entry_off_eq_iff [OF L, of "Suc i" m] entry_off_bound [OF L, of "Suc i"]
      unfolding cur by (auto split: if_splits)
    then have "linear_scan ucmp parse target max_offset it = linear_scan ucmp parse target max_offset it1"
      using it1 posn_Valid [OF L it1(2)] posn_cmp [OF it1(2), of ucmp target] 3
      by (subst linear_scan.simps) simp
    moreover have "d = m - Suc i" using Suc.hyps(2) by simp
    moreover have "\<And>j. j \<le> Suc i \<Longrightarrow> key_cmp ucmp L target (entry_key L j) < 0"
      using below 3(2) by (auto simp: le_Suc_eq less_Suc_eq_le)
    ultimately show ?thesis using Suc.hyps(1) [OF _ it1(2) lt] by simp
  qed
qed simp

lemma ordered_forD:
  "\<lbrakk>ordered_for ucmp L target; i < j; j < ly_size L; key_cmp ucmp L target (entry_key L i) \<ge> 0\<rbrakk> \<Longrightarrow>
   key_cmp ucmp L target (entry_key L j) > 0"
  unfolding ordered_for_def by blast

lemma not_less_after:
  assumes "ordered_for ucmp L target" and "i \<le> j" and "j < ly_size L"
    and "key_cmp ucmp L target (entry_key L j) < 0"
  shows "key_cmp ucmp L target (entry_key L i) < 0"
proof (rule ccontr)
  assume "\<not> ?thesis"
  then show False using assms ordered_forD [OF assms(1), of i j] by (cases "i = j") auto
qed

lemma first_at_least_exact:
  assumes "ordered_for ucmp L target" and "i < ly_size L"
    and "key_cmp ucmp L target (entry_key L i) = 0 \<or> i = 0 \<and> key_cmp ucmp L target (entry_key L i) > 0"
  shows "first_at_least ucmp L target i"
proof -
  have "key_cmp ucmp L target (entry_key L j) < 0" if "j < i" for j
  proof (rule ccontr)
    assume "\<not> ?thesis"
    then show False using ordered_forD [OF assms(1) that assms(2)] assms(3) that by auto
  qed
  then show ?thesis using assms by (auto simp: first_at_least_def)
qed

lemma FindKeyAfterBinarySeek_spec:
  assumes L: "layout_ok enc L" and n: "0 < ly_size L" and ord: "ordered_for ucmp L target"
    and b: "in_block enc L it" and x: "extra L (block_iter.more it)"
    and index: "index < length (ly_restarts L)"
  defines "c \<equiv> \<lambda>j. key_cmp ucmp L target (entry_key L (ly_restarts L ! j))"
  assumes after: "\<forall>j. index < j \<longrightarrow> j < length (ly_restarts L) \<longrightarrow> c j > 0"
    and here: "if sk then c index = 0 \<or> index = 0 \<and> c 0 > 0 else c index < 0"
  shows "\<exists>it' k. FindKeyAfterBinarySeek ucmp parse target index sk it = Some it' \<and>
    posn enc extra L it' k \<and> first_at_least ucmp L target k"
proof -
  let ?i = "ly_restarts L ! index"
  have i: "?i < ly_size L" using layout_ok_restart(1) [OF L index] n by simp
  obtain it1 where it1: "snd (parse (SeekToRestartPoint index it)) = it1" "posn enc extra L it1 ?i"
    using restart_posn [OF L b x index] by auto
  show ?thesis
  proof (cases sk)
    case True
    have "first_at_least ucmp L target ?i"
      using here True layout_okD(2) [OF L] by (intro first_at_least_exact [OF ord i]) (auto simp: c_def)
    with True it1 show ?thesis by (auto simp: FindKeyAfterBinarySeek_def)
  next
    case False
    define m where "m = (if index + 1 < length (ly_restarts L) then ly_restarts L ! (index + 1) else ly_size L)"
    have b1: "in_block enc L it1" by (rule posn_in_block [OF it1(2)])
    have nr: "bi_num_restarts it1 = length (ly_restarts L)" using b1 by (simp add: in_block_def)
    have m: "?i < m" "m \<le> ly_size L" "m < ly_size L \<longleftrightarrow> index + 1 < length (ly_restarts L)"
      using i sorted_wrt_nth_less [OF layout_okD(3) [OF L], of index "index + 1"]
        layout_ok_restart(1) [OF L, of "index + 1"] n by (auto simp: m_def)
    have "\<exists>it' k. linear_scan ucmp parse target
        (if m < ly_size L then entry_off enc L m else 2 ^ 32 - 1) it1 = Some it' \<and>
        posn enc extra L it' k \<and> first_at_least ucmp L target k"
    proof (rule linear_scan_spec [OF L it1(2) m(1,2) refl])
      show "key_cmp ucmp L target (entry_key L m) \<ge> 0" if "m < ly_size L"
      proof -
        have "index + 1 < length (ly_restarts L)" using that m(3) by simp
        then show ?thesis using after [rule_format, of "index + 1"] by (simp add: m_def c_def)
      qed
      show "j \<le> ?i \<Longrightarrow> key_cmp ucmp L target (entry_key L j) < 0" for j
        by (rule not_less_after [OF ord _ i]) (use here False in \<open>simp_all add: c_def\<close>)
    qed
    moreover have "(if m < ly_size L then entry_off enc L m else 2 ^ 32 - 1) =
        (if index + 1 < bi_num_restarts it1 then GetRestartPoint (index + 1) it1 else 2 ^ 32 - 1)"
      using m(3) GetRestartPoint_entry [OF L b1, of "index + 1"]
      by (cases "index + 1 < length (ly_restarts L)") (simp_all add: nr m_def)
    ultimately show ?thesis
      unfolding FindKeyAfterBinarySeek_def Let_def it1(1) if_not_P [OF False] by simp
  qed
qed

lemma Seek_posn:
  assumes L: "layout_ok enc L" and ord: "ordered_for ucmp L target"
    and p: "posn enc extra L it i"
  shows "\<exists>it' k. Seek_parse ucmp decode_key parse target it = Some it' \<and>
    posn enc extra L it' k \<and> first_at_least ucmp L target k"
proof -
  have b: "in_block enc L it" and x: "extra L (block_iter.more it)" and d: "bi_data it \<noteq> None"
    using posn_in_block [OF p] p by (auto simp: posn_def in_block_def)
  show ?thesis
  proof (cases "ly_size L = 0")
    case True
    then have "bi_restarts it = 0" using b by (simp add: in_block_def entry_off_def)
    then have "Seek_parse ucmp decode_key parse target it = Some it"
      using d by (simp add: Seek_parse_def BinarySeek_def)
    moreover have "posn enc extra L it 0" using p True by (simp add: posn_def)
    ultimately show ?thesis using True by (auto simp: first_at_least_def)
  next
    case False
    then obtain index sk it1 where s: "BinarySeek ucmp decode_key target it = (Some (index, sk), it1)"
      and b1: "in_block enc L it1" and m1: "block_iter.more it1 = block_iter.more it"
      and spec: "index < length (ly_restarts L)"
      "\<forall>j. index < j \<longrightarrow> j < length (ly_restarts L) \<longrightarrow>
         key_cmp ucmp L target (entry_key L (ly_restarts L ! j)) > 0"
      "if sk then key_cmp ucmp L target (entry_key L (ly_restarts L ! index)) = 0 \<or>
         index = 0 \<and> key_cmp ucmp L target (entry_key L (ly_restarts L ! 0)) > 0
       else key_cmp ucmp L target (entry_key L (ly_restarts L ! index)) < 0"
      using BinarySeek_spec [OF L _ ord b] by auto
    show ?thesis
      using FindKeyAfterBinarySeek_spec [OF L _ ord b1 _ spec] x False d
      by (auto simp: Seek_parse_def s m1)
  qed
qed

end

text \<open>An iterator that also moves backwards; \<open>last_at_most\<close> is where \<open>SeekForPrev\<close> ends.\<close>

definition last_at_most :: "(slice \<Rightarrow> slice \<Rightarrow> int) \<Rightarrow> block_layout \<Rightarrow> slice \<Rightarrow> nat \<Rightarrow> bool" where
  "last_at_most ucmp L target k \<longleftrightarrow>
     (\<forall>j. (k < ly_size L \<longrightarrow> k < j) \<longrightarrow> j < ly_size L \<longrightarrow> key_cmp ucmp L target (entry_key L j) > 0) \<and>
     k \<le> ly_size L \<and> (k < ly_size L \<longrightarrow> key_cmp ucmp L target (entry_key L k) \<le> 0)"

locale block_cursor = block_parser enc parse decode_key extra
  for enc :: "block_entry \<Rightarrow> slice"
    and parse :: "'a block_iter_scheme \<Rightarrow> bool \<times> 'a block_iter_scheme"
    and decode_key :: "slice \<Rightarrow> nat \<Rightarrow> nat \<Rightarrow> (u32 \<times> u32 \<times> nat) option"
    and extra :: "block_layout \<Rightarrow> 'a \<Rightarrow> bool" +
  fixes prev :: "'a block_iter_scheme \<Rightarrow> 'a block_iter_scheme option"
  assumes prev_posn:
    "\<lbrakk>layout_ok enc L; posn enc extra L it i; i < ly_size L\<rbrakk> \<Longrightarrow>
     \<exists>it'. prev it = Some it' \<and> posn enc extra L it' (if i = 0 then ly_size L else i - 1)"
begin

lemma prev_until_le_spec:
  assumes L: "layout_ok enc L" and ord: "ordered_for ucmp L target"
    and p: "posn enc extra L it k" and k: "k < ly_size L" and f: "first_at_least ucmp L target k"
  shows "\<exists>it' j. prev_until_le ucmp prev target it = Some it' \<and>
    posn enc extra L it' j \<and> last_at_most ucmp L target j"
proof -
  let ?c = "\<lambda>i. key_cmp ucmp L target (entry_key L i)"
  have ge: "?c k \<ge> 0" and below: "\<And>j. j < k \<Longrightarrow> ?c j < 0"
    using f k by (auto simp: first_at_least_def)
  have above: "?c j > 0" if "k < j" "j < ly_size L" for j by (rule ordered_forD [OF ord that ge])
  have valid: "Block_Valid it" "CompareCurrentKey ucmp target it = ?c k"
    using posn_Valid [OF L p] posn_cmp [OF p k] k by auto
  show ?thesis
  proof (cases "?c k = 0")
    case True
    then have "prev_until_le ucmp prev target it = Some it"
      using valid by (subst prev_until_le.simps) simp
    then show ?thesis using p k above True by (intro exI [of _ it] exI [of _ k]) (auto simp: last_at_most_def)
  next
    case False
    then have pos: "?c k > 0" using ge by simp
    obtain it1 where it1: "prev it = Some it1"
      "posn enc extra L it1 (if k = 0 then ly_size L else k - 1)"
      using prev_posn [OF L p k] by auto
    have stop: "prev_until_le ucmp prev target it1 = Some it1"
    proof (cases "k = 0")
      case True
      then show ?thesis using posn_Valid [OF L it1(2)] by (subst prev_until_le.simps) simp
    next
      case F: False
      then have "CompareCurrentKey ucmp target it1 = ?c (k - 1)"
        using it1(2) k by (intro posn_cmp) auto
      then show ?thesis using below [of "k - 1"] F by (subst prev_until_le.simps) simp
    qed
    have le: "k \<le> j \<Longrightarrow> j < ly_size L \<Longrightarrow> ?c j > 0" for j
      using above [of j] pos by (cases "k = j") auto
    have "last_at_most ucmp L target (if k = 0 then ly_size L else k - 1)"
      using le below [of "k - 1"] k by (cases "k = 0") (auto simp: last_at_most_def)
    moreover have "prev_until_le ucmp prev target it = Some it1"
      using valid pos it1(1) stop by (subst prev_until_le.simps) simp
    ultimately show ?thesis using it1(2) by blast
  qed
qed

lemma SeekForPrev_posn:
  assumes L: "layout_ok enc L" and ord: "ordered_for ucmp L target" and p: "posn enc extra L it i"
  shows "\<exists>it' k. SeekForPrev_parse ucmp decode_key parse prev target it = Some it' \<and>
    posn enc extra L it' k \<and> last_at_most ucmp L target k"
proof -
  have b: "in_block enc L it" and d: "bi_data it \<noteq> None"
    using posn_in_block [OF p] by (auto simp: in_block_def)
  show ?thesis
  proof (cases "ly_size L = 0")
    case True
    then have "bi_restarts it = 0" using b by (simp add: in_block_def entry_off_def)
    then have "SeekForPrev_parse ucmp decode_key parse prev target it = Some it"
      using d by (simp add: SeekForPrev_parse_def BinarySeek_def)
    moreover have "posn enc extra L it 0" using p True by (simp add: posn_def)
    ultimately show ?thesis using True by (auto simp: last_at_most_def)
  next
    case False
    obtain it1 k where s: "Seek_parse ucmp decode_key parse target it = Some it1"
      and p1: "posn enc extra L it1 k" and f: "first_at_least ucmp L target k"
      using Seek_posn [OF L ord p] by auto
    obtain index sk it2 where bs: "BinarySeek ucmp decode_key target it = (Some (index, sk), it2)"
      using BinarySeek_spec [OF L _ ord b] False by auto
    have eq: "SeekForPrev_parse ucmp decode_key parse prev target it =
        (if \<not> Block_Valid it1
         then (if ok (bi_status it1) then SeekToLast_parse parse it1 else Some it1)
         else prev_until_le ucmp prev target it1)"
      using s bs d by (auto simp: SeekForPrev_parse_def Seek_parse_def)
    show ?thesis
    proof (cases "k < ly_size L")
      case True
      then show ?thesis
        unfolding eq using posn_Valid [OF L p1] prev_until_le_spec [OF L ord p1 True f] by simp
    next
      case F: False
      then have k: "k = ly_size L" using f by (simp add: first_at_least_def)
      have "ok (bi_status it1)" using posn_in_block [OF p1] by (simp add: in_block_def)
      moreover have "last_at_most ucmp L target (ly_size L - 1)"
        using f False k by (auto simp: last_at_most_def first_at_least_def intro: less_imp_le)
      moreover have "extra L (block_iter.more it1)" using p1 by (simp add: posn_def)
      ultimately show ?thesis
        unfolding eq using SeekToLast_posn [OF L posn_in_block [OF p1]] posn_Valid [OF L p1] F by auto
    qed
  qed
qed

end

section \<open>Meta block and data block iterators\<close>

lemma entry_bytes_nonempty: "entry_bytes e \<noteq> []"
  using length_EncodeVarint32_pos [of "of_nat (be_shared e)"] by (auto simp: entry_bytes_def)

lemma DecodeKey_restart:
  assumes L: "layout_ok entry_bytes L" and b: "in_block entry_bytes L it" and i: "i < ly_size L"
    and sh: "be_shared (ly_entries L ! i) = 0"
  shows "\<exists>q. DecodeKey (block_data it) (entry_off entry_bytes L i) (bi_restarts it) =
      Some (0, of_nat (length (be_delta (ly_entries L ! i))), q) \<and>
    take (length (be_delta (ly_entries L ! i))) (drop q (block_data it)) = be_delta (ly_entries L ! i)"
  using plain_entries.decode_at [OF L b i] plain_entries.drop_entry(1) [OF b i] sh
  by (simp add: DecodeKey_def)

lemma length_be_val: "length (be_val e) \<le> length (entry_bytes e)"
  using length_entry_bytes [of e] by simp

interpretation meta_parser: block_parser entry_bytes ParseNextMetaKey DecodeKey "\<lambda>_ _. True"
proof
  fix L i and it :: "'a block_iter_scheme"
  assume "layout_ok entry_bytes L" "before_entry entry_bytes L it i" "i < ly_size L"
  then show "\<exists>it'. ParseNextMetaKey it = (True, it') \<and> at_entry entry_bytes L it' i \<and> True"
    using checked_entries.ParseNextKey_entry [of L it i] by (auto simp: ParseNextMetaKey_def)
next
  fix L and it :: "'a block_iter_scheme"
  assume "before_entry entry_bytes L it (ly_size L)"
  then show "\<exists>it'. ParseNextMetaKey it = (False, it') \<and> at_end entry_bytes L it' \<and> True"
    using ParseNextKey_end [of entry_bytes L it CheckAndDecodeEntry] by (auto simp: ParseNextMetaKey_def)
qed (use DecodeKey_restart length_be_val in blast)+

interpretation meta_cursor:
  block_cursor entry_bytes ParseNextMetaKey DecodeKey "\<lambda>_ _. True" Meta_PrevImpl
  by unfold_locales (simp add: Meta_PrevImpl_def meta_parser.PrevImpl_uncached_posn)

text \<open>
  The cache of a data block iterator holds consecutive entries, each with its key either in the
  block or in the buffer of the cache.
\<close>

definition cached_key :: "slice \<Rightarrow> CachedPrevEntry \<Rightarrow> slice" where
  "cached_key buff e =
     take (cpe_key_size e)
       (case cpe_key_ptr e of Some ptr \<Rightarrow> ptr | None \<Rightarrow> drop (cpe_key_offset e) buff)"

definition cached_ok :: "block_layout \<Rightarrow> slice \<Rightarrow> CachedPrevEntry \<Rightarrow> nat \<Rightarrow> bool" where
  "cached_ok L buff e i \<longleftrightarrow>
     i < ly_size L \<and> cpe_offset e = entry_off entry_bytes L i \<and> cached_key buff e = entry_key L i \<and>
     cpe_value e = (entry_off entry_bytes L (Suc i) - length (be_val (ly_entries L ! i)),
                    length (be_val (ly_entries L ! i))) \<and>
     (cpe_key_ptr e = None \<longrightarrow> cpe_key_offset e + cpe_key_size e \<le> length buff)"

definition cache_from :: "block_layout \<Rightarrow> nat \<Rightarrow> data_block_iter \<Rightarrow> bool" where
  "cache_from L s it \<longleftrightarrow>
     (\<forall>t<length (prev_entries it). cached_ok L (prev_entries_keys_buff it) (prev_entries it ! t) (s + t))"

definition cache_ok :: "block_layout \<Rightarrow> data_block_iter \<Rightarrow> bool" where
  "cache_ok L it \<longleftrightarrow>
     (\<exists>s. cache_from L s it) \<and> prev_entries_idx it < int (length (prev_entries it))"

definition data_extra :: "block_layout \<Rightarrow> unit data_block_iter_ext \<Rightarrow> bool" where
  "data_extra L m \<longleftrightarrow> cache_ok L (block_iter.extend BlockIter m)"

lemma cache_fields_more:
  assumes "block_iter.more it' = block_iter.more it"
  shows "prev_entries it' = prev_entries it" "prev_entries_idx it' = prev_entries_idx it"
    "prev_entries_keys_buff it' = prev_entries_keys_buff it" "bi_hash_index it' = bi_hash_index it"
  using assms by (cases it; cases it'; simp)+

lemma data_extra_more: "data_extra L (block_iter.more it) \<longleftrightarrow> cache_ok L it"
proof -
  have "block_iter.more (block_iter.extend BlockIter (block_iter.more it)) = block_iter.more it"
    by (simp add: block_iter.extend_def)
  from cache_fields_more [OF this] show ?thesis
    by (simp add: data_extra_def cache_ok_def cache_from_def)
qed

interpretation data_parser: block_parser entry_bytes ParseNextDataKey DecodeKey data_extra
proof
  fix L i and it :: data_block_iter
  assume "layout_ok entry_bytes L" "before_entry entry_bytes L it i" "i < ly_size L"
    "data_extra L (block_iter.more it)"
  then show "\<exists>it'. ParseNextDataKey it = (True, it') \<and> at_entry entry_bytes L it' i \<and>
      data_extra L (block_iter.more it')"
    using plain_entries.ParseNextKey_entry [of L it i] by (auto simp: ParseNextDataKey_def)
next
  fix L and it :: data_block_iter
  assume "before_entry entry_bytes L it (ly_size L)" "data_extra L (block_iter.more it)"
  then show "\<exists>it'. ParseNextDataKey it = (False, it') \<and> at_end entry_bytes L it' \<and>
      data_extra L (block_iter.more it')"
    using ParseNextKey_end [of entry_bytes L it DecodeEntry] by (auto simp: ParseNextDataKey_def)
qed (use DecodeKey_restart length_be_val in blast)+

end
