(* ===== verification/Data_Blocks.thy ===== *)
theory Data_Blocks
  imports Blocks
begin

text \<open>
  Data blocks end to end: the cached backward iteration of \<open>DataBlockIter\<close>, the block a
  \<open>BlockBuilder\<close> writes and what its iterators return, and point lookups through the hash index.
\<close>

unbundle bit_operations_syntax

section \<open>Backward iteration through the cache\<close>

abbreviation data_posn :: "block_layout \<Rightarrow> data_block_iter \<Rightarrow> nat \<Rightarrow> bool" where
  "data_posn \<equiv> posn entry_bytes data_extra"

lemma data_posn_iff:
  "data_posn L it i \<longleftrightarrow>
     cache_ok L it \<and>
     (if i < ly_size L then at_entry entry_bytes L it i
      else i = ly_size L \<and> at_end entry_bytes L it)"
  by (simp add: posn_def data_extra_more)

lemma at_entry_base:
  assumes "at_entry enc L it i"
    and "bi_data it' = bi_data it" "bi_num_restarts it' = bi_num_restarts it"
    "bi_restarts it' = bi_restarts it" "bi_global_seqno it' = bi_global_seqno it"
    "bi_ts_sz it' = bi_ts_sz it" "bi_pad_min_timestamp it' = bi_pad_min_timestamp it"
    "bi_raw_key it' = bi_raw_key it" "bi_status it' = bi_status it"
    "bi_current it' = bi_current it" "bi_value it' = bi_value it"
    "bi_restart_index it' = bi_restart_index it"
  shows "at_entry enc L it' i"
  using assms(1) unfolding at_entry_def in_block_def value_slice_def assms(2-) .

lemma cached_ok_mono: "cached_ok L buff e i \<Longrightarrow> cached_ok L (buff @ more_buff) e i"
  by (auto simp: cached_ok_def cached_key_def split: option.splits)

lemma cache_current_entry_facts:
  assumes "at_entry entry_bytes L it k" and "cache_from L s it" and "length (prev_entries it) = k - s"
    and "s \<le> k"
  shows "at_entry entry_bytes L (cache_current_entry it) k"
    and "cache_from L s (cache_current_entry it)"
    and "length (prev_entries (cache_current_entry it)) = Suc k - s"
proof -
  have raw: "length (GetKey (bi_raw_key it)) = ik_key_size (bi_raw_key it)"
    using assms(1) by (intro length_GetKey) (simp add: at_entry_def)
  have key: "take (ik_key_size (bi_raw_key it)) (key_ptr (bi_raw_key it)) = entry_key L k"
    "GetKey (bi_raw_key it) = entry_key L k"
    using assms(1) by (simp_all add: at_entry_def GetKey_def)
  have at: "k < ly_size L" "bi_current it = entry_off entry_bytes L k"
    "bi_value it = (entry_off entry_bytes L (Suc k) - length (be_val (ly_entries L ! k)),
                    length (be_val (ly_entries L ! k)))"
    using assms(1) by (simp_all add: at_entry_def)
  show "at_entry entry_bytes L (cache_current_entry it) k"
    by (rule at_entry_base [OF assms(1)]) (simp_all add: cache_current_entry_def Let_def)
  show "length (prev_entries (cache_current_entry it)) = Suc k - s"
    using assms(3,4) by (simp add: cache_current_entry_def Let_def)
  show "cache_from L s (cache_current_entry it)"
    using assms(2-4) at raw key
    by (auto simp: cache_from_def cache_current_entry_def Let_def nth_append less_Suc_eq cached_ok_mono)
      (auto simp: cached_ok_def cached_key_def)
qed

lemma cache_entries_before_spec:
  assumes L: "layout_ok entry_bytes L" and i: "i \<le> ly_size L"
    and "before_entry entry_bytes L it k" and "s \<le> k" and "k < i"
    and "cache_from L s it" and "length (prev_entries it) = k - s"
  shows "\<exists>it'. cache_entries_before (entry_off entry_bytes L i) it = Some it' \<and>
    at_entry entry_bytes L it' (i - 1) \<and> cache_from L s it' \<and> length (prev_entries it') = i - s"
  using assms(3-)
proof (induction "i - k" arbitrary: it k)
  case (Suc d)
  have k: "k < ly_size L" using Suc.prems(3) i by simp
  obtain sh it1 where parse: "ParseNextKey DecodeEntry it = (True, sh, it1)"
    and at: "at_entry entry_bytes L it1 k" and more: "block_iter.more it1 = block_iter.more it"
    using plain_entries.ParseNextKey_entry [OF L Suc.prems(1) k] by auto
  have c1: "cache_from L s it1" "length (prev_entries it1) = k - s"
    using Suc.prems(4,5) cache_fields_more [OF more] by (simp_all add: cache_from_def)
  let ?it2 = "cache_current_entry it1"
  note c2 = cache_current_entry_facts [OF at c1 Suc.prems(2)]
  have before: "before_entry entry_bytes L ?it2 (Suc k)"
    by (rule at_entry_before [OF L c2(1) length_be_val])
  then have "NextEntryOffset ?it2 = entry_off entry_bytes L (Suc k)" by (simp add: before_entry_def)
  then have eq: "cache_entries_before (entry_off entry_bytes L i) it =
      (if Suc k < i then cache_entries_before (entry_off entry_bytes L i) ?it2 else Some ?it2)"
    using entry_off_less_iff [OF L, of "Suc k" i] k i parse
    by (subst cache_entries_before.simps) (simp add: ParseNextDataKey_def Let_def)
  show ?case
  proof (cases "Suc k < i")
    case True
    then show ?thesis
      using Suc.hyps(1) [OF _ before _ True c2(2,3)] Suc.hyps(2) Suc.prems(2) by (simp add: eq)
  next
    case False
    then have "i = Suc k" using Suc.prems(3) by simp
    then show ?thesis using eq c2 by simp
  qed
qed simp

lemma read_cached_entry_posn:
  assumes L: "layout_ok entry_bytes L" and p: "data_posn L it i" and i: "i < ly_size L"
    and idx: "prev_entries_idx it > 0"
    and off: "cpe_offset (prev_entries it ! nat (prev_entries_idx it)) = bi_current it"
  shows "0 < i \<and> data_posn L (read_cached_entry it) (i - 1)"
proof -
  let ?n = "nat (prev_entries_idx it)"
  obtain s where c: "cache_from L s it" and n: "?n < length (prev_entries it)"
    using p idx by (auto simp: data_posn_iff cache_ok_def)
  have at: "at_entry entry_bytes L it i" using p i by (simp add: data_posn_iff)
  have "cached_ok L (prev_entries_keys_buff it) (prev_entries it ! ?n) (s + ?n)"
    using c n by (simp add: cache_from_def)
  then have "entry_off entry_bytes L (s + ?n) = entry_off entry_bytes L i" "s + ?n < ly_size L"
    using off at by (simp_all add: cached_ok_def at_entry_def)
  then have si: "s + ?n = i" using entry_off_eq_iff [OF L, of "s + ?n" i] i by simp
  define e where "e = prev_entries it ! nat (prev_entries_idx it - 1)"
  obtain m where m: "?n = Suc m" "nat (prev_entries_idx it - 1) = m" using idx by (cases ?n) auto
  define j where "j = s + m"
  have ij: "i = Suc j" using si m by (simp add: j_def)
  have e: "cached_ok L (prev_entries_keys_buff it) e j"
    using c n unfolding e_def m(2) cache_from_def j_def by (simp add: m(1))
  define k where "k = SetKey (entry_key L j) (cpe_key_ptr e = None) (bi_raw_key it)"
  note kf = SetKey_facts [of "entry_key L j" "cpe_key_ptr e = None" "bi_raw_key it", folded k_def]
  have eq: "read_cached_entry it = it\<lparr>prev_entries_idx := prev_entries_idx it - 1,
      bi_current := cpe_offset e, bi_raw_key := k, bi_value := cpe_value e\<rparr>"
    using e by (cases "cpe_key_ptr e")
      (simp_all add: read_cached_entry_def Let_def k_def cached_ok_def cached_key_def flip: e_def)
  have b: "in_block entry_bytes L it" and jn: "j < ly_size L" using at i ij by (simp_all add: at_entry_def)
  have val: "take (length (be_val (ly_entries L ! j)))
      (drop (entry_off entry_bytes L (Suc j) - length (be_val (ly_entries L ! j))) (block_data it)) =
      be_val (ly_entries L ! j)"
    using plain_entries.drop_entry(2,3) [OF b jn] by simp
  have "in_block entry_bytes L (read_cached_entry it)" using b kf by (simp add: eq in_block_def)
  then have "at_entry entry_bytes L (read_cached_entry it) j"
    using at e val kf jn by (simp add: eq at_entry_def cached_ok_def value_slice_def)
  moreover have "cache_ok L (read_cached_entry it)"
    unfolding cache_ok_def eq using c n idx by (auto simp: cache_from_def)
  ultimately show ?thesis using jn by (simp add: data_posn_iff ij)
qed

lemma Data_PrevImpl_posn:
  assumes L: "layout_ok entry_bytes L" and p: "data_posn L it i" and i: "i < ly_size L"
  shows "\<exists>it'. Data_PrevImpl it = Some it' \<and> data_posn L it' (if i = 0 then ly_size L else i - 1)"
proof (cases "prev_entries_idx it > 0 \<and>
    cpe_offset (prev_entries it ! nat (prev_entries_idx it)) = bi_current it")
  case True
  then show ?thesis using read_cached_entry_posn [OF L p i] by (auto simp: Data_PrevImpl_def)
next
  case no_cache: False
  define it0 where "it0 = it\<lparr>prev_entries_idx := -1, prev_entries := [], prev_entries_keys_buff := []\<rparr>"
  have at: "at_entry entry_bytes L it0 i"
    by (rule at_entry_base [of entry_bytes L it]) (use p i in \<open>simp_all add: data_posn_iff it0_def\<close>)
  then have b: "in_block entry_bytes L it0" and cur: "bi_current it0 = entry_off entry_bytes L i"
    and r: "bi_restart_index it0 < length (ly_restarts L)" by (simp_all add: at_entry_def)
  note spec = restart_before_spec [OF L b less_imp_le [OF i] r]
  have eq: "Data_PrevImpl it =
      (case restart_before (entry_off entry_bytes L i) (bi_restart_index it0) it0 of
         None \<Rightarrow> Some (no_more_entries it0)
       | Some index \<Rightarrow>
           map_option (\<lambda>it. it\<lparr>prev_entries_idx := int (length (prev_entries it)) - 1\<rparr>)
             (cache_entries_before (entry_off entry_bytes L i) (SeekToRestartPoint index it0)))"
    using no_cache cur
    by (auto simp: Data_PrevImpl_def Let_def simp flip: it0_def split: option.splits)
  show ?thesis
  proof (cases "i = 0")
    case True
    have "cache_ok L (no_more_entries it0)"
      by (simp add: cache_ok_def cache_from_def no_more_entries_def it0_def)
    then show ?thesis
      using True spec b by (simp add: eq data_posn_iff at_end_def no_more_entries_def in_block_def)
  next
    case False
    then obtain j where j: "restart_before (entry_off entry_bytes L i) (bi_restart_index it0) it0 = Some j"
      "j < length (ly_restarts L)" "ly_restarts L ! j < i"
      using spec by auto
    have empty: "prev_entries (SeekToRestartPoint j it0) = []"
      using cache_fields_more(1) [OF SeekToRestartPoint_more [of j it0]] by (simp add: it0_def)
    then have "cache_from L (ly_restarts L ! j) (SeekToRestartPoint j it0)"
      "length (prev_entries (SeekToRestartPoint j it0)) = ly_restarts L ! j - ly_restarts L ! j"
      by (simp_all add: cache_from_def)
    from cache_entries_before_spec [OF L less_imp_le [OF i] SeekToRestartPoint_before [OF L b j(2)]
        order_refl j(3) this]
    obtain it1 where it1: "cache_entries_before (entry_off entry_bytes L i) (SeekToRestartPoint j it0) = Some it1"
      "at_entry entry_bytes L it1 (i - 1)" "cache_from L (ly_restarts L ! j) it1"
      by auto
    let ?it2 = "it1\<lparr>prev_entries_idx := int (length (prev_entries it1)) - 1\<rparr>"
    have "at_entry entry_bytes L ?it2 (i - 1)" by (rule at_entry_base [OF it1(2)]) simp_all
    moreover have "cache_ok L ?it2" using it1(3) by (auto simp: cache_ok_def cache_from_def)
    moreover have "i - 1 < ly_size L" using i by simp
    ultimately show ?thesis using False j(1) it1(1) by (simp add: eq data_posn_iff)
  qed
qed

interpretation data_cursor:
  block_cursor entry_bytes ParseNextDataKey DecodeKey data_extra Data_PrevImpl
  by unfold_locales (rule Data_PrevImpl_posn)

end
