(* ===== verification/Block_Build.thy ===== *)
theory Block_Build
  imports Blocks
begin

text \<open>
  The block that a \<open>BlockBuilder\<close> writes: its bytes follow the layout of \<open>Blocks\<close>, its size is the
  estimate the builder keeps, and \<open>Block\<close> finds the restart array again.
\<close>

unbundle bit_operations_syntax

section \<open>Adding entries\<close>

text \<open>One call of \<open>Add\<close> per triple of a key, a value and \<open>skip_delta_encoding\<close>.\<close>

definition add_all :: "(slice \<times> slice \<times> bool) list \<Rightarrow> block_builder \<Rightarrow> block_builder" where
  "add_all kvs b = fold (\<lambda>(k, v, skip) b. bb_Add k v None skip b) kvs b"

lemma stored_key_append:
  "i < length es \<Longrightarrow> stored_key (es @ es') i = stored_key es i"
  by (induction i) (simp_all add: nth_append)

text \<open>The entries and restart points behind a builder that was given the keys and values \<open>kvs\<close>.\<close>

definition builds ::
    "block_builder \<Rightarrow> block_entry list \<Rightarrow> nat list \<Rightarrow> (slice \<times> slice \<times> bool) list \<Rightarrow> bool" where
  "builds b es rs kvs \<longleftrightarrow>
     length es = length kvs \<and>
     (\<forall>i<length es. stored_key es i = MaybeStripTimestampFromKey b (fst (kvs ! i)) \<and>
        be_val (es ! i) = fst (snd (kvs ! i)) \<and>
        be_shared (es ! i) \<le> length (MaybeStripTimestampFromKey b (fst (kvs ! i)))) \<and>
     (\<forall>i. Suc i < length es \<longrightarrow> be_shared (es ! Suc i) \<le> length (stored_key es i)) \<and>
     bb_buffer b = concat (map entry_bytes es) \<and>
     bb_restarts b = map (\<lambda>r. of_nat (length (concat (map entry_bytes (take r es))))) rs \<and>
     rs \<noteq> [] \<and> rs ! 0 = 0 \<and> sorted_wrt (<) rs \<and>
     (\<forall>r\<in>set rs. r < max 1 (length es) \<and> (r < length es \<longrightarrow> be_shared (es ! r) = 0)) \<and>
     last rs + bb_counter b = length es \<and>
     bb_last_key b = (if kvs = [] \<or> \<not> use_delta_encoding b then [] else fst (last kvs)) \<and>
     bb_estimate b = length (bb_buffer b) + 4 * length rs + 4"

lemma builds_new:
  "builds (BlockBuilder interval delta False index_type buckets ts_sz persist user) [] [0] []"
  by (simp add: builds_def BlockBuilder_def)

definition new_entry :: "block_builder \<Rightarrow> slice \<Rightarrow> slice \<Rightarrow> bool \<Rightarrow> block_entry" where
  "new_entry b k v skip =
     (let key = MaybeStripTimestampFromKey b k;
          prev = (if length (bb_last_key b) = 0 then bb_last_key b
                  else MaybeStripTimestampFromKey b (bb_last_key b));
          shared = (if bb_counter b < block_restart_interval b \<and> use_delta_encoding b \<and> \<not> skip
                    then difference_offset key prev else 0)
      in \<lparr>be_shared = shared, be_delta = drop shared key, be_val = v\<rparr>)"

lemma bb_Add_eq:
  assumes "\<not> use_value_delta_encoding b"
  shows "bb_Add k v None skip b =
    (let restart = bb_counter b \<ge> block_restart_interval b;
         e = new_entry b k v skip;
         rs = (if restart then bb_restarts b @ [of_nat (length (bb_buffer b))] else bb_restarts b)
     in b\<lparr>bb_buffer := bb_buffer b @ entry_bytes e, bb_restarts := rs,
          bb_counter := (if restart then 1 else bb_counter b + 1),
          bb_estimate := bb_estimate b + (if restart then 4 else 0) + length (entry_bytes e),
          bb_last_key := (if use_delta_encoding b then k else bb_last_key b),
          bb_hash := (if hb_Valid (bb_hash b)
            then hb_Add (ExtractUserKey k) (length rs - 1) (bb_hash b) else bb_hash b)\<rparr>)"
proof (cases "bb_counter b \<ge> block_restart_interval b")
  case True
  then show ?thesis
    using assms by (cases "hb_Valid (bb_hash b)"; cases "use_delta_encoding b")
      (simp_all add: bb_Add_def AddWithLastKeyImpl_def new_entry_def entry_bytes_def
        PutVarint32Varint32Varint32_def Let_def)
next
  case False
  then show ?thesis
    using assms by (cases "hb_Valid (bb_hash b)"; cases "use_delta_encoding b"; cases skip)
      (simp_all add: bb_Add_def AddWithLastKeyImpl_def new_entry_def entry_bytes_def
        PutVarint32Varint32Varint32_def Let_def)
qed

lemma bb_Add_fields:
  fixes k v :: slice and skip :: bool
  assumes "\<not> use_value_delta_encoding b"
  defines "b' \<equiv> bb_Add k v None skip b" and "e \<equiv> new_entry b k v skip"
  defines "restart \<equiv> bb_counter b \<ge> block_restart_interval b"
  shows "bb_buffer b' = bb_buffer b @ entry_bytes e"
    "bb_restarts b' = (if restart then bb_restarts b @ [of_nat (length (bb_buffer b))] else bb_restarts b)"
    "bb_counter b' = (if restart then 1 else bb_counter b + 1)"
    "bb_estimate b' = bb_estimate b + (if restart then 4 else 0) + length (entry_bytes e)"
    "bb_last_key b' = (if use_delta_encoding b then k else bb_last_key b)"
    "use_value_delta_encoding b' = use_value_delta_encoding b"
    "use_delta_encoding b' = use_delta_encoding b"
    "block_restart_interval b' = block_restart_interval b"
    "strip_ts_sz b' = strip_ts_sz b" "bb_is_user_key b' = bb_is_user_key b"
    "bb_hash b' = (if hb_Valid (bb_hash b)
       then hb_Add (ExtractUserKey k) (length (bb_restarts b') - 1) (bb_hash b) else bb_hash b)"
  by (simp_all add: b'_def e_def restart_def bb_Add_eq [OF assms(1)] Let_def)

lemma MaybeStrip_cong:
  "strip_ts_sz b' = strip_ts_sz b \<Longrightarrow> bb_is_user_key b' = bb_is_user_key b \<Longrightarrow>
   MaybeStripTimestampFromKey b' = MaybeStripTimestampFromKey b"
  by (simp add: fun_eq_iff MaybeStripTimestampFromKey_def)

lemma MaybeStrip_Nil [simp]: "MaybeStripTimestampFromKey b [] = []"
  by (simp add: MaybeStripTimestampFromKey_def remove_suffix_def StripTimestampFromInternalKey_def)

lemma new_entry_key:
  fixes k v :: slice and skip :: bool
  assumes b: "builds b es rs kvs"
  defines "e \<equiv> new_entry b k v skip" and "n \<equiv> length es"
  shows "stored_key (es @ [e]) n = MaybeStripTimestampFromKey b k"
    and "be_shared e \<le> length (MaybeStripTimestampFromKey b k)"
    and "0 < n \<Longrightarrow> be_shared e \<le> length (stored_key es (n - 1))"
    and "n = 0 \<Longrightarrow> be_shared e = 0"
proof -
  let ?key = "MaybeStripTimestampFromKey b k"
  let ?prev = "MaybeStripTimestampFromKey b (bb_last_key b)"
  have sh: "be_shared e \<noteq> 0 \<Longrightarrow> use_delta_encoding b \<and> be_shared e = difference_offset ?key ?prev"
    by (auto simp: e_def new_entry_def Let_def split: if_splits)
  have delta: "be_delta e = drop (be_shared e) ?key" by (simp add: e_def new_entry_def Let_def)
  have len: "length kvs = n" using b by (simp add: builds_def n_def)
  have last: "0 < n \<Longrightarrow> use_delta_encoding b \<Longrightarrow> ?prev = stored_key es (n - 1)"
    using b len by (auto simp: builds_def n_def last_conv_nth)
  have empty: "n = 0 \<Longrightarrow> bb_last_key b = []" using b len by (auto simp: builds_def)
  show zero: "n = 0 \<Longrightarrow> be_shared e = 0" using sh empty by (cases "be_shared e = 0") auto
  show "be_shared e \<le> length ?key"
    using sh difference_offset_common [of ?key ?prev] by (cases "be_shared e = 0") auto
  show le: "0 < n \<Longrightarrow> be_shared e \<le> length (stored_key es (n - 1))"
    using sh last difference_offset_common [of ?key ?prev] by (cases "be_shared e = 0") auto
  show "stored_key (es @ [e]) n = ?key"
  proof (cases n)
    case 0
    then show ?thesis using zero delta by (simp add: n_def)
  next
    case (Suc m)
    then have "stored_key (es @ [e]) n = take (be_shared e) (stored_key es m) @ be_delta e"
      using stored_key_append [of m es "[e]"] by (simp add: n_def nth_append)
    also have "take (be_shared e) (stored_key es m) = take (be_shared e) ?key"
      using sh last difference_offset_common [of ?key ?prev] Suc by (cases "be_shared e = 0") auto
    finally show ?thesis by (simp add: delta)
  qed
qed

lemma builds_Add_entries:
  fixes k v :: slice and skip :: bool
  assumes b: "builds b es rs kvs"
  defines "e \<equiv> new_entry b k v skip"
  shows "i < length (es @ [e]) \<Longrightarrow>
      stored_key (es @ [e]) i = MaybeStripTimestampFromKey b (fst ((kvs @ [(k, v, skip)]) ! i)) \<and>
      be_val ((es @ [e]) ! i) = fst (snd ((kvs @ [(k, v, skip)]) ! i)) \<and>
      be_shared ((es @ [e]) ! i) \<le> length (MaybeStripTimestampFromKey b (fst ((kvs @ [(k, v, skip)]) ! i)))"
    and "Suc i < length (es @ [e]) \<Longrightarrow> be_shared ((es @ [e]) ! Suc i) \<le> length (stored_key (es @ [e]) i)"
proof -
  note key = new_entry_key [OF b, of k v skip, folded e_def]
  have len: "length kvs = length es" using b by (simp add: builds_def)
  have val: "be_val e = v" by (simp add: e_def new_entry_def Let_def)
  show "stored_key (es @ [e]) i = MaybeStripTimestampFromKey b (fst ((kvs @ [(k, v, skip)]) ! i)) \<and>
      be_val ((es @ [e]) ! i) = fst (snd ((kvs @ [(k, v, skip)]) ! i)) \<and>
      be_shared ((es @ [e]) ! i) \<le> length (MaybeStripTimestampFromKey b (fst ((kvs @ [(k, v, skip)]) ! i)))"
    if "i < length (es @ [e])"
  proof (cases "i = length es")
    case True
    then show ?thesis using key(1,2) val len by (simp add: nth_append)
  next
    case False
    then have "i < length es" using that by simp
    then show ?thesis using b len by (simp add: builds_def nth_append stored_key_append)
  qed
  show "be_shared ((es @ [e]) ! Suc i) \<le> length (stored_key (es @ [e]) i)"
    if "Suc i < length (es @ [e])"
  proof (cases "Suc i = length es")
    case True
    then have "i = length es - 1" "0 < length es" "i < length es" by auto
    then show ?thesis using key(3) True by (simp add: nth_append stored_key_append)
  next
    case False
    then have i: "Suc i < length es" using that by simp
    have "be_shared (es ! Suc i) \<le> length (stored_key es i)" using b i unfolding builds_def by blast
    then show ?thesis using i by (simp add: nth_append stored_key_append)
  qed
qed

lemma builds_Add_restarts:
  fixes k v :: slice and skip :: bool
  assumes b: "builds b es rs kvs" and pos: "0 < block_restart_interval b"
  defines "e \<equiv> new_entry b k v skip"
  defines "rs' \<equiv> (if bb_counter b \<ge> block_restart_interval b then rs @ [length es] else rs)"
  shows "sorted_wrt (<) rs'"
    and "r \<in> set rs' \<Longrightarrow> r < max 1 (length (es @ [e])) \<and>
      (r < length (es @ [e]) \<longrightarrow> be_shared ((es @ [e]) ! r) = 0)"
proof -
  have counter: "last rs + bb_counter b = length es" using b by (simp add: builds_def)
  have old: "r < max 1 (length es) \<and> (r < length es \<longrightarrow> be_shared (es ! r) = 0)" if "r \<in> set rs" for r
    using b that unfolding builds_def by blast
  have "r < length es" if "bb_counter b \<ge> block_restart_interval b" "r \<in> set rs" for r
    using old [OF that(2)] counter that(1) pos by (auto simp: max_def split: if_splits)
  then show "sorted_wrt (<) rs'" using b by (auto simp: builds_def rs'_def sorted_wrt_append)
  have new: "bb_counter b \<ge> block_restart_interval b \<Longrightarrow> be_shared e = 0"
    by (simp add: e_def new_entry_def Let_def)
  show "r < max 1 (length (es @ [e])) \<and> (r < length (es @ [e]) \<longrightarrow> be_shared ((es @ [e]) ! r) = 0)"
    if "r \<in> set rs'"
  proof (cases "r \<in> set rs")
    case True
    then show ?thesis
      using old [OF True] new_entry_key(4) [OF b, of k v skip, folded e_def]
      by (auto simp: nth_append max_def split: if_splits)
  next
    case False
    then show ?thesis using that new by (auto simp: rs'_def split: if_splits)
  qed
qed

lemma builds_Add:
  fixes k v :: slice and skip :: bool
  assumes b: "builds b es rs kvs" and "\<not> use_value_delta_encoding b" and "0 < block_restart_interval b"
  defines "e \<equiv> new_entry b k v skip"
  shows "builds (bb_Add k v None skip b) (es @ [e])
    (if bb_counter b \<ge> block_restart_interval b then rs @ [length es] else rs) (kvs @ [(k, v, skip)])"
proof -
  note f = bb_Add_fields [OF assms(2), of k v skip, folded e_def]
  note entries = builds_Add_entries [OF b, where k = k and v = v and skip = skip, folded e_def]
  note restarts = builds_Add_restarts(1) [OF b assms(3)]
    builds_Add_restarts(2) [OF b assms(3), where k = k and v = v and skip = skip, folded e_def]
  have strip: "MaybeStripTimestampFromKey (bb_Add k v None skip b) = MaybeStripTimestampFromKey b"
    by (rule MaybeStrip_cong) (simp_all add: f)
  have old: "length es = length kvs" "bb_buffer b = concat (map entry_bytes es)"
    "bb_restarts b = map (\<lambda>r. of_nat (length (concat (map entry_bytes (take r es))))) rs"
    "rs \<noteq> []" "rs ! 0 = 0" "last rs + bb_counter b = length es"
    "bb_last_key b = (if kvs = [] \<or> \<not> use_delta_encoding b then [] else fst (last kvs))"
    "bb_estimate b = length (bb_buffer b) + 4 * length rs + 4"
    using b unfolding builds_def by blast+
  have "\<forall>r\<in>set rs. r < max 1 (length es)" using b unfolding builds_def by blast
  then have le: "\<forall>r\<in>set rs. r \<le> length es" by (auto simp: max_def split: if_splits)
  have rs: "map (\<lambda>r. of_nat (length (concat (map entry_bytes (take r (es @ [e])))))) rs = bb_restarts b"
    using old(3) le by simp
  let ?r = "bb_counter b \<ge> block_restart_interval b"
  have "bb_restarts (bb_Add k v None skip b) =
      map (\<lambda>r. of_nat (length (concat (map entry_bytes (take r (es @ [e]))))))
        (if ?r then rs @ [length es] else rs)"
    by (cases ?r) (simp_all add: f old(2) flip: rs)
  moreover have "(if ?r then rs @ [length es] else rs) ! 0 = 0"
    using old(4,5) by (simp add: nth_append)
  moreover have "last (if ?r then rs @ [length es] else rs) + bb_counter (bb_Add k v None skip b) =
      length (es @ [e])"
    using old(6) by (simp add: f)
  moreover have "bb_last_key (bb_Add k v None skip b) =
      (if kvs @ [(k, v, skip)] = [] \<or> \<not> use_delta_encoding (bb_Add k v None skip b) then []
       else fst (last (kvs @ [(k, v, skip)])))"
    using old(7) by (simp add: f)
  moreover have "bb_estimate (bb_Add k v None skip b) = length (bb_buffer (bb_Add k v None skip b)) +
      4 * length (if ?r then rs @ [length es] else rs) + 4"
    using old(8) by (simp add: f)
  moreover have "\<forall>i<length (es @ [e]).
      stored_key (es @ [e]) i = MaybeStripTimestampFromKey b (fst ((kvs @ [(k, v, skip)]) ! i)) \<and>
      be_val ((es @ [e]) ! i) = fst (snd ((kvs @ [(k, v, skip)]) ! i)) \<and>
      be_shared ((es @ [e]) ! i) \<le> length (MaybeStripTimestampFromKey b (fst ((kvs @ [(k, v, skip)]) ! i)))"
    by (intro allI impI, rule entries(1))
  moreover have "\<forall>i. Suc i < length (es @ [e]) \<longrightarrow>
      be_shared ((es @ [e]) ! Suc i) \<le> length (stored_key (es @ [e]) i)"
    by (intro allI impI, rule entries(2))
  moreover have "\<forall>r\<in>set (if ?r then rs @ [length es] else rs). r < max 1 (length (es @ [e])) \<and>
      (r < length (es @ [e]) \<longrightarrow> be_shared ((es @ [e]) ! r) = 0)"
    by (intro ballI, rule restarts(2))
  moreover have "bb_buffer (bb_Add k v None skip b) = concat (map entry_bytes (es @ [e]))"
    "length (es @ [e]) = length (kvs @ [(k, v, skip)])" "(if ?r then rs @ [length es] else rs) \<noteq> []"
    using old(1,2,4) by (simp_all add: f)
  ultimately show ?thesis
    unfolding builds_def strip using restarts(1) by (intro conjI)
qed

lemma add_all_append: "add_all (kvs @ [(k, v, skip)]) b = bb_Add k v None skip (add_all kvs b)"
  by (simp add: add_all_def)

lemma add_all_config:
  assumes "\<not> use_value_delta_encoding b"
  shows "\<not> use_value_delta_encoding (add_all kvs b)"
    "block_restart_interval (add_all kvs b) = block_restart_interval b"
    "strip_ts_sz (add_all kvs b) = strip_ts_sz b"
    "bb_is_user_key (add_all kvs b) = bb_is_user_key b"
  using assms
  by (induction kvs rule: rev_induct) (auto simp: add_all_def bb_Add_fields split: prod.splits)

lemma builds_add_all:
  assumes "builds b es rs []" and "\<not> use_value_delta_encoding b" and "0 < block_restart_interval b"
  shows "\<exists>es rs. builds (add_all kvs b) es rs kvs"
proof (induction kvs rule: rev_induct)
  case Nil
  then show ?case using assms(1) by (auto simp: add_all_def)
next
  case (snoc x kvs)
  obtain k v skip where x: "x = (k, v, skip)" by (cases x)
  obtain es rs where "builds (add_all kvs b) es rs kvs" using snoc.IH by auto
  then show ?case
    using builds_Add add_all_config [OF assms(2)] assms(3) unfolding x add_all_append by fastforce
qed

section \<open>The finished block\<close>

definition hash_footer :: "block_builder \<Rightarrow> slice" where
  "hash_footer b =
     (if hb_Valid (bb_hash b) \<and> CurrentSizeEstimate b \<le> kMaxBlockSizeSupportedByHashIndex
      then hb_Finish [] (bb_hash b) else [])"

definition finished_type :: "block_builder \<Rightarrow> DataBlockIndexType" where
  "finished_type b =
     (if hb_Valid (bb_hash b) \<and> CurrentSizeEstimate b \<le> kMaxBlockSizeSupportedByHashIndex
      then kDataBlockBinaryAndHash else kDataBlockBinarySearch)"

lemma hb_Finish_append: "hb_Finish buffer h = buffer @ hb_Finish [] h"
  by (simp add: hb_Finish_def Let_def PutFixed16_def)

lemma fold_PutFixed32:
  "fold (\<lambda>r buffer. PutFixed32 buffer r) rs buffer = buffer @ concat (map EncodeFixed32 rs)"
  by (induction rs arbitrary: buffer) (simp_all add: PutFixed32_def)

lemma bb_Finish_bytes:
  "fst (bb_Finish b) =
     bb_buffer b @ concat (map EncodeFixed32 (bb_restarts b)) @ hash_footer b @
     EncodeFixed32 (PackIndexTypeAndNumRestarts (finished_type b) (of_nat (length (bb_restarts b))))"
  unfolding bb_Finish_def Let_def fold_PutFixed32
  by (simp add: hash_footer_def finished_type_def PutFixed32_def
      hb_Finish_append [of "bb_buffer b @ concat (map EncodeFixed32 (bb_restarts b))"])

lemma hb_num_buckets_eq: "hb_num_buckets h = hb_buckets h (hb_added h) OR 1"
  by (simp add: hb_num_buckets_def Let_def)

lemma length_add_to_bucket [simp]: "length (add_to_bucket n entry buckets) = length buckets"
  by (simp add: add_to_bucket_def Let_def split: prod.splits)

lemma length_fold_add_to_bucket [simp]:
  "length (fold (add_to_bucket n) ps buckets) = length buckets"
  by (induction ps arbitrary: buckets) simp_all

lemma length_hb_Finish: "length (hb_Finish [] h) = hb_EstimateSize h"
  by (simp add: hb_Finish_def Let_def PutFixed16_def hb_EstimateSize_def hb_num_buckets_eq)

text \<open>The size estimate of the builder is the size of the finished block.\<close>

lemma finished_size:
  assumes "builds b es rs kvs"
    and "CurrentSizeEstimate b \<le> kMaxBlockSizeSupportedByHashIndex \<or> \<not> hb_Valid (bb_hash b)"
  shows "length (fst (bb_Finish b)) = CurrentSizeEstimate b"
proof -
  have "bb_estimate b = length (bb_buffer b) + 4 * length (bb_restarts b) + 4"
    using assms(1) by (simp add: builds_def)
  then show ?thesis
    using assms(2)
    by (auto simp: bb_Finish_bytes hash_footer_def CurrentSizeEstimate_def length_hb_Finish length_concat
        comp_def sum_list_triv)
qed

lemma UnPack_Pack:
  assumes "n < push_bit 31 1"
  shows "UnPackIndexTypeAndNumRestarts (PackIndexTypeAndNumRestarts t n) = (t, n)"
proof -
  have mask: "kNumRestartsMask = mask 31" by (simp add: kNumRestartsMask_def kDataBlockIndexTypeBitShift_def mask_eq_decr_exp)
  have n: "n AND mask 31 = n" using assms by (simp add: mask_eq_iff word_less_def)
  then have low: "i < 31" if "bit n i" for i using that by (metis bit_and_iff bit_mask_iff)
  define c where "c = (push_bit 31 1 :: u32)"
  have c: "bit c i \<longleftrightarrow> i = 31" for i
    unfolding c_def by (simp only: bit_push_bit_iff bit_1_iff) auto
  have or: "(n OR c) AND mask 31 = n" and flag: "n AND c = 0"
    by (rule bit_word_eqI; auto simp: bit_and_iff bit_or_iff bit_mask_iff c dest: low)+
  have "bit ((n OR c) AND c) 31" by (simp add: bit_and_iff bit_or_iff c)
  then have flag': "(n OR c) AND c \<noteq> 0" by auto
  show ?thesis
    using n or flag flag'
    by (cases t) (simp_all add: UnPackIndexTypeAndNumRestarts_def PackIndexTypeAndNumRestarts_def
        kDataBlockIndexTypeBitShift_def mask flip: c_def del: push_bit_of_1)
qed

end
