(* ===== verification/Block_Round_Trip.thy ===== *)
theory Block_Round_Trip
  imports Data_Blocks Block_Build
begin

text \<open>
  Builder and iterators together: opening the bytes of a finished block yields an iterator over
  exactly the entries that were added, in both directions and under every kind of seek.
\<close>

unbundle bit_operations_syntax

section \<open>Opening a finished block\<close>

lemma restart_offset_bytes:
  assumes "sz = m + 4 * (1 + n)" and "sz < 2 ^ 32"
  shows "(ucast (ucast (of_nat sz :: u32) - ucast (1 + of_nat n :: u32) * 4 :: u64) :: u32) = of_nat m"
proof -
  have "ucast (1 + of_nat n :: u32) = (of_nat (1 + n) :: u64)"
    using assms ucast_of_nat_up [of "1 + n", where 'a = 32 and 'b = 64] by simp
  moreover have "ucast (of_nat sz :: u32) = (of_nat sz :: u64)"
    using assms by (intro ucast_of_nat_up) auto
  moreover have "(of_nat sz :: u64) - of_nat (1 + n) * 4 = of_nat m" by (simp add: assms(1))
  ultimately show ?thesis
    using ucast_of_nat_down [of m, where 'a = 64 and 'b = 32] by simp
qed

lemma bucket_offset_bytes:
  assumes "sz = m + 4 * n + unat nb + 2" and "sz < 2 ^ 16"
  shows "(of_nat sz :: u16) - 2 - nb = of_nat (m + 4 * n)"
    and "(ucast (ucast (of_nat (m + 4 * n) :: u16) - ucast (of_nat n :: u32) * 4 :: u64) :: u32) = of_nat m"
proof -
  have "of_nat (unat nb) = nb" by simp
  then show "(of_nat sz :: u16) - 2 - nb = of_nat (m + 4 * n)" by (simp add: assms(1))
  have "ucast (of_nat n :: u32) = (of_nat n :: u64)"
    "ucast (of_nat (m + 4 * n) :: u16) = (of_nat (m + 4 * n) :: u64)"
    using assms by (intro ucast_of_nat_up; simp)+
  then show "(ucast (ucast (of_nat (m + 4 * n) :: u16) - ucast (of_nat n :: u32) * 4 :: u64) :: u32) =
      of_nat m"
    using ucast_of_nat_down [of m, where 'a = 64 and 'b = 32] by simp
qed

lemma hb_num_buckets_pos: "hb_num_buckets h \<noteq> 0"
proof -
  have "bit (hb_num_buckets h) 0" by (simp add: hb_num_buckets_eq bit_or_iff)
  then show ?thesis by auto
qed

definition finished_buckets :: "block_builder \<Rightarrow> u16" where
  "finished_buckets b =
     (if finished_type b = kDataBlockBinaryAndHash then hb_num_buckets (bb_hash b) else 0)"

lemma drop_footer: "drop (length (xs @ EncodeFixed32 w) - 4) (xs @ EncodeFixed32 w) = EncodeFixed32 w"
  by simp

lemma finished_facts:
  assumes b: "builds b es rs kvs" and size: "length (fst (bb_Finish b)) < 2 ^ 32"
  defines "d \<equiv> fst (bb_Finish b)" and "n \<equiv> length rs" and "m \<equiv> length (bb_buffer b)"
  shows "length d = m + 4 * (1 + n) + length (hash_footer b)"
    and "DecodeFixed32 (drop (length d - 4) d) =
      PackIndexTypeAndNumRestarts (finished_type b) (of_nat n)"
    and "UnPackIndexTypeAndNumRestarts (PackIndexTypeAndNumRestarts t (of_nat n)) = (t, of_nat n)"
proof -
  have nr: "length (bb_restarts b) = n" using b by (simp add: builds_def n_def)
  show len: "length d = m + 4 * (1 + n) + length (hash_footer b)"
    by (simp add: d_def bb_Finish_bytes nr m_def length_concat comp_def sum_list_triv)
  show "DecodeFixed32 (drop (length d - 4) d) =
      PackIndexTypeAndNumRestarts (finished_type b) (of_nat n)"
    unfolding d_def bb_Finish_bytes nr append.assoc [symmetric] drop_footer by simp
  have "unat (of_nat n :: u32) = n" using size len by (intro unat_of_nat_small) (simp add: d_def)
  then have "(of_nat n :: u32) < push_bit 31 1"
    using size len by (simp add: word_less_nat_alt d_def)
  then show "UnPackIndexTypeAndNumRestarts (PackIndexTypeAndNumRestarts t (of_nat n)) = (t, of_nat n)"
    by (rule UnPack_Pack)
qed

lemma finished_bucket_count:
  assumes "finished_type b = kDataBlockBinaryAndHash"
  defines "d \<equiv> fst (bb_Finish b)"
  shows "DecodeFixed16 (drop (length d - 6) d) = hb_num_buckets (bb_hash b)"
    and "length (hash_footer b) = unat (hb_num_buckets (bb_hash b)) + 2"
proof -
  have hf: "hash_footer b = hb_Finish [] (bb_hash b)"
    using assms(1) by (auto simp: finished_type_def hash_footer_def split: if_splits)
  then show "length (hash_footer b) = unat (hb_num_buckets (bb_hash b)) + 2"
    by (simp add: length_hb_Finish hb_EstimateSize_def hb_num_buckets_eq)
  obtain x w where d: "d = x @ EncodeFixed16 (hb_num_buckets (bb_hash b)) @ EncodeFixed32 w"
  proof -
    obtain y where "hash_footer b = y @ EncodeFixed16 (hb_num_buckets (bb_hash b))"
      using hf by (simp add: hb_Finish_def Let_def PutFixed16_def)
    then show ?thesis
      by (intro that [of "bb_buffer b @ concat (map EncodeFixed32 (bb_restarts b)) @ y"])
        (simp add: d_def bb_Finish_bytes)
  qed
  then have "drop (length d - 6) d = EncodeFixed16 (hb_num_buckets (bb_hash b)) @ EncodeFixed32 w"
    by (simp del: append_assoc)
  then show "DecodeFixed16 (drop (length d - 6) d) = hb_num_buckets (bb_hash b)" by simp
qed

text \<open>\<open>Block\<close> recovers the position of the restart array and of the hash buckets.\<close>

lemma Block_finished:
  assumes b: "builds b es rs kvs" and size: "length (fst (bb_Finish b)) < 2 ^ 32"
  shows "Block (fst (bb_Finish b)) =
    \<lparr>blk_data = fst (bb_Finish b), blk_restart_offset = of_nat (length (bb_buffer b)),
     blk_num_restarts = of_nat (length rs), blk_num_buckets = finished_buckets b\<rparr>"
proof -
  define n m d where "n = length rs" and "m = length (bb_buffer b)" and "d = fst (bb_Finish b)"
  note facts = finished_facts [OF b size, folded n_def m_def d_def]
  show ?thesis
  proof (cases "finished_type b")
    case kDataBlockBinarySearch
    then have hf: "hash_footer b = []"
      by (auto simp: finished_type_def hash_footer_def split: if_splits)
    have "NumRestarts d = of_nat n" "IndexType d = kDataBlockBinarySearch"
      using facts(2) facts(3) [of kDataBlockBinarySearch] kDataBlockBinarySearch
      by (simp_all add: NumRestarts_def IndexType_def Let_def PackIndexTypeAndNumRestarts_def)
    moreover have "(ucast (ucast (of_nat (length d) :: u32) - ucast (1 + of_nat n :: u32) * 4 :: u64) :: u32) =
        of_nat m"
      using facts(1) size hf by (intro restart_offset_bytes) (simp_all add: d_def)
    moreover have "unat (of_nat m :: u32) = m"
      using size facts(1) by (intro unat_of_nat_small) (simp add: d_def)
    ultimately show ?thesis
      using facts(1) hf kDataBlockBinarySearch
      by (simp add: Block_def Let_def finished_buckets_def flip: d_def n_def m_def)
  next
    case kDataBlockBinaryAndHash
    define nb where "nb = hb_num_buckets (bb_hash b)"
    note count = finished_bucket_count [OF kDataBlockBinaryAndHash, folded nb_def d_def]
    have hash: "CurrentSizeEstimate b \<le> kMaxBlockSizeSupportedByHashIndex"
      using kDataBlockBinaryAndHash by (auto simp: finished_type_def split: if_splits)
    then have le: "length d \<le> 65536"
      using finished_size [OF b disjI1] by (simp add: d_def kMaxBlockSizeSupportedByHashIndex_def)
    have nums: "NumRestarts d = of_nat n" "IndexType d = kDataBlockBinaryAndHash"
      using facts(2) facts(3) [of kDataBlockBinaryAndHash] kDataBlockBinaryAndHash le
      by (simp_all add: NumRestarts_def IndexType_def Let_def kMaxBlockSizeSupportedByHashIndex_def)
    have sz: "length d - 4 = m + 4 * n + unat nb + 2" "length d - 4 < 2 ^ 16"
      using facts(1) count(2) le by simp_all
    have init: "DataBlockHashIndex_Initialize d (of_nat (length d - 4)) = (nb, of_nat (m + 4 * n))"
      using count(1) bucket_offset_bytes(1) [OF sz] sz(2)
      by (simp add: DataBlockHashIndex_Initialize_def Let_def unat_of_nat)
    have "unat (of_nat m :: u32) \<le> unat (ucast (of_nat (m + 4 * n) :: u16) :: u32)"
    proof -
      have "ucast (of_nat (m + 4 * n) :: u16) = (of_nat (m + 4 * n) :: u32)"
        using sz by (intro ucast_of_nat_up) simp_all
      then show ?thesis
        using sz unat_of_nat_small [of m, where 'a = 32] unat_of_nat_small [of "m + 4 * n", where 'a = 32]
        by simp
    qed
    then show ?thesis
      using facts(1) count(2) kDataBlockBinaryAndHash nums init bucket_offset_bytes(2) [OF sz]
      by (simp add: Block_def Let_def finished_buckets_def word_less_nat_alt flip: d_def n_def m_def nb_def)
  qed
qed

section \<open>An iterator on a finished block\<close>

definition built_layout :: "block_entry list \<Rightarrow> nat list \<Rightarrow> nat \<Rightarrow> bool \<Rightarrow> u64 \<Rightarrow> block_layout" where
  "built_layout es rs ts persisted seqno =
     \<lparr>ly_entries = es, ly_restarts = rs, ly_user = False, ly_ts = ts,
      ly_pad = (ts > 0 \<and> \<not> persisted), ly_seqno = seqno\<rparr>"

lemma length_entry_le:
  assumes "e \<in> set es"
  shows "length (be_delta e) + length (be_val e) \<le> length (concat (map entry_bytes es))"
proof -
  have "length (entry_bytes e) \<le> sum_list (map (length \<circ> entry_bytes) es)"
    using assms by (intro member_le_sum_list) auto
  then show ?thesis using length_entry_bytes [of e] by (simp add: length_concat)
qed

lemma built_layout_ok:
  assumes b: "builds b es rs kvs" and size: "length (fst (bb_Finish b)) < 2 ^ 32"
    and keys: "\<And>k v s. (k, v, s) \<in> set kvs \<Longrightarrow>
      length (MaybeStripTimestampFromKey b k) < 2 ^ 32 \<and>
      kNumInternalBytes \<le> length (MaybeStripTimestampFromKey b k)"
    and ts: "ts \<le> 9"
  shows "layout_ok entry_bytes (built_layout es rs ts persisted seqno)"
proof -
  let ?L = "built_layout es rs ts persisted seqno"
  have buf: "bb_buffer b = concat (map entry_bytes es)" and len: "length es = length kvs"
    and rs: "rs \<noteq> []" "rs ! 0 = 0" "sorted_wrt (<) rs"
    and entries: "\<forall>i<length es. stored_key es i = MaybeStripTimestampFromKey b (fst (kvs ! i)) \<and>
        be_val (es ! i) = fst (snd (kvs ! i)) \<and>
        be_shared (es ! i) \<le> length (MaybeStripTimestampFromKey b (fst (kvs ! i)))"
    and restarts: "\<forall>r\<in>set rs. r < max 1 (length es) \<and> (r < length es \<longrightarrow> be_shared (es ! r) = 0)"
    and shared: "\<forall>i. Suc i < length es \<longrightarrow> be_shared (es ! Suc i) \<le> length (stored_key es i)"
    using b unfolding builds_def by blast+
  have "length (bb_buffer b) + 8 \<le> length (fst (bb_Finish b))"
    using finished_facts(1) [OF b size] rs(1) by (cases rs) simp_all
  then have bound: "length (concat (map entry_bytes es)) < 2 ^ 32 - 1" using size by (simp add: buf)
  have key: "length (MaybeStripTimestampFromKey b (fst (kvs ! i))) < 2 ^ 32 \<and>
      kNumInternalBytes \<le> length (MaybeStripTimestampFromKey b (fst (kvs ! i)))" if "i < length es" for i
    using keys [of "fst (kvs ! i)" "fst (snd (kvs ! i))" "snd (snd (kvs ! i))"] that len by simp
  have e: "entry_bytes e \<noteq> [] \<and> be_shared e < 2 ^ 32 \<and> length (be_delta e) + length (be_val e) < 2 ^ 32"
    if e_in: "e \<in> set es" for e
  proof -
    obtain i where i: "i < length es" "e = es ! i" using e_in by (auto simp: in_set_conv_nth)
    show ?thesis
      using entries [rule_format, OF i(1)] key [OF i(1)] length_entry_le [OF e_in] bound
        entry_bytes_nonempty [of e] i(2) by auto
  qed
  have foot: "\<forall>i<length es. kNumInternalBytes \<le> length (stored_key es i)" using entries key by auto
  have off: "entry_off entry_bytes ?L (ly_size ?L) < 2 ^ 32 - 1"
    using bound by (simp add: entry_off_def built_layout_def)
  show ?thesis
    using rs restarts shared e foot off ts unfolding layout_ok_def built_layout_def block_layout.simps
    by blast
qed

lemma NewDataIterator_posn:
  fixes ts :: nat and persisted :: bool and seqno :: u64
  assumes b: "builds b es rs kvs" and size: "length (fst (bb_Finish b)) < 2 ^ 32"
  defines "L \<equiv> built_layout es rs ts persisted seqno"
  defines "it \<equiv> NewDataIterator (Block (fst (bb_Finish b))) ts seqno persisted DataBlockIter"
  shows "data_posn L it (ly_size L)"
    and "bi_hash_index it = (if finished_buckets b \<noteq> 0 then Some (finished_buckets b) else None)"
    and "bi_data it = Some (fst (bb_Finish b))"
proof -
  have buf: "bb_buffer b = concat (map entry_bytes es)" and rs: "rs \<noteq> []"
    and restarts: "bb_restarts b = map (\<lambda>r. of_nat (length (concat (map entry_bytes (take r es))))) rs"
    using b unfolding builds_def by blast+
  note len = finished_facts(1) [OF b size]
  have arr: "restart_array entry_bytes L = concat (map EncodeFixed32 (bb_restarts b))"
    by (simp add: restart_array_def entry_off_def restarts comp_def L_def built_layout_def)
  have n: "unat (of_nat (length rs) :: u32) = length rs"
    and m: "unat (of_nat (length (bb_buffer b)) :: u32) = length (bb_buffer b)"
    using len size by (intro unat_of_nat_small; simp)+
  have pos: "0 < length rs" using rs by simp
  then have "of_nat (length rs) \<noteq> (0 :: u32)" using n by (metis unat_0 less_irrefl)
  moreover have "\<not> length (fst (bb_Finish b)) < 8" using len rs by (cases rs) simp_all
  ultimately have it: "it = DataBlockIter_Initialize ts (fst (bb_Finish b)) (length (bb_buffer b))
      (length rs) seqno persisted
      (if finished_buckets b \<noteq> 0 then Some (finished_buckets b) else None) DataBlockIter"
    by (simp add: it_def NewDataIterator_def Block_finished [OF b size] n m)
  show "bi_hash_index it = (if finished_buckets b \<noteq> 0 then Some (finished_buckets b) else None)"
    by (simp add: it DataBlockIter_Initialize_def Let_def)
  show "bi_data it = Some (fst (bb_Finish b))"
    by (simp add: it DataBlockIter_Initialize_def InitializeBase_def Let_def)
  have "in_block entry_bytes L it \<and> bi_current it = bi_restarts it"
    by (simp add: in_block_def it DataBlockIter_Initialize_def InitializeBase_def Let_def DataBlockIter_def
        block_iter.extend_def BlockIter_def SetIsUserKey_def IterKey_def L_def built_layout_def
        entry_off_def buf arr [unfolded L_def built_layout_def] bb_Finish_bytes ok_def OK_def)
  moreover have "cache_ok L it"
    by (simp add: cache_ok_def cache_from_def it DataBlockIter_Initialize_def InitializeBase_def Let_def
        DataBlockIter_def block_iter.extend_def)
  ultimately show "data_posn L it (ly_size L)" by (simp add: data_posn_iff at_end_def)
qed

section \<open>The keys an iterator shows\<close>

definition exposed_key :: "u64 \<Rightarrow> slice \<Rightarrow> slice" where
  "exposed_key seqno k =
     (if seqno = kDisableGlobalSequenceNumber then k
      else AppendInternalKeyFooter (ExtractUserKey k) seqno (ExtractValueType k))"

lemma SetInternalKey_parts_GetKey:
  "GetKey (SetInternalKey_parts [] u s t None k) = u @ EncodeFixed64 (PackSequenceAndType s t)"
proof -
  let ?k = "EnlargeBufferIfNeeded (length u + 8) k" and ?f = "EncodeFixed64 (PackSequenceAndType s t)"
  have room: "length u + 8 \<le> length (ik_buf ?k)" by simp
  have "take (length u) (copy_to (ik_buf ?k) 0 u) = u"
    using take_copy_to [of 0 u "ik_buf ?k"] room by (simp del: EnlargeBufferIfNeeded_facts)
  moreover have "take (length u + length ?f) (copy_to (copy_to (ik_buf ?k) 0 u) (length u) ?f) =
      take (length u) (copy_to (ik_buf ?k) 0 u) @ ?f"
    by (intro take_copy_to) simp
  ultimately show ?thesis by (simp add: SetInternalKey_parts_def Let_def GetKey_def key_ptr_def)
qed

lemma ExtractUserKey_footer: "ExtractUserKey (u @ EncodeFixed64 w) = u"
  by (simp add: ExtractUserKey_def kNumInternalBytes_def)

lemma key_cmp_exposed:
  assumes "\<not> ly_user L"
  shows "key_cmp ucmp L target k = InternalKeyCompare ucmp (exposed_key (ly_seqno L) k) target"
  using assms
  by (simp add: key_cmp_def exposed_key_def InternalKeyCompare_global_def InternalKeyCompare_def Let_def
      AppendInternalKeyFooter_def PutFixed64_def ExtractUserKey_footer ExtractInternalKeyFooter_def
      kNumInternalBytes_def)

lemma UpdateKey_posn:
  assumes "layout_ok entry_bytes L" and "data_posn L it i" and "\<not> ly_user L"
  shows "data_posn L (UpdateKey it) i"
    and "i < ly_size L \<Longrightarrow> bi_key (UpdateKey it) = exposed_key (ly_seqno L) (entry_key L i) \<and>
      value_slice (UpdateKey it) = be_val (ly_entries L ! i)"
    and "Block_Valid (UpdateKey it) \<longleftrightarrow> i < ly_size L"
proof -
  have "UpdateKey it = it\<lparr>bi_key_buf := bi_key_buf (UpdateKey it), bi_key := bi_key (UpdateKey it)\<rparr>"
    by (simp add: UpdateKey_def Let_def)
  then obtain kb k where up: "UpdateKey it = it\<lparr>bi_key_buf := kb, bi_key := k\<rparr>" by blast
  have more: "cache_ok L (UpdateKey it) \<longleftrightarrow> cache_ok L it"
    by (simp add: up cache_ok_def cache_from_def)
  show posn: "data_posn L (UpdateKey it) i"
    using assms(2) more
    by (auto simp: data_posn_iff up at_entry_def at_end_def in_block_def value_slice_def split: if_splits)
  then show valid: "Block_Valid (UpdateKey it) \<longleftrightarrow> i < ly_size L"
    by (rule data_parser.posn_Valid [OF assms(1)])
  show "bi_key (UpdateKey it) = exposed_key (ly_seqno L) (entry_key L i) \<and>
      value_slice (UpdateKey it) = be_val (ly_entries L ! i)" if "i < ly_size L"
  proof
    have at: "at_entry entry_bytes L it i" using assms(2) that by (simp add: data_posn_iff)
    have v: "Block_Valid (it\<lparr>bi_key_buf := x\<rparr>)" for x
      using valid that by (simp add: up Block_Valid_def)
    show "value_slice (UpdateKey it) = be_val (ly_entries L ! i)"
      using posn that by (simp add: data_posn_iff at_entry_def)
    show "bi_key (UpdateKey it) = exposed_key (ly_seqno L) (entry_key L i)"
      using at assms(3) v
      by (simp add: UpdateKey_def Let_def at_entry_def in_block_def exposed_key_def GetInternalKey_eq
          GetUserKey_eq SetInternalKey_parts_GetKey AppendInternalKeyFooter_def PutFixed64_def)
  qed
qed

section \<open>Refinement of a cursor over the entries\<close>

text \<open>
  The specification of a block iterator: a cursor into the list of entries, where the length of
  the list is the position behind the last entry.
\<close>

datatype block_op =
  SeekToFirst_op | SeekToLast_op | Next_op | Prev_op | Seek_op slice | SeekForPrev_op slice

fun cursor_step ::
    "(slice \<Rightarrow> slice \<Rightarrow> int) \<Rightarrow> (slice \<times> slice) list \<Rightarrow> block_op \<Rightarrow> nat \<Rightarrow> nat" where
  "cursor_step cmp xs SeekToFirst_op i = 0"
| "cursor_step cmp xs SeekToLast_op i = length xs - 1"
| "cursor_step cmp xs Next_op i = (if i < length xs then i + 1 else i)"
| "cursor_step cmp xs Prev_op i =
     (if i < length xs then (if i = 0 then length xs else i - 1) else i)"
| "cursor_step cmp xs (Seek_op t) i = length (takeWhile (\<lambda>x. cmp (fst x) t < 0) xs)"
| "cursor_step cmp xs (SeekForPrev_op t) i =
     (let m = length (takeWhile (\<lambda>x. cmp (fst x) t \<le> 0) xs) in if m = 0 then length xs else m - 1)"

definition cursor_view :: "(slice \<times> slice) list \<Rightarrow> nat \<Rightarrow> (slice \<times> slice) option" where
  "cursor_view xs i = (if i < length xs then Some (xs ! i) else None)"

text \<open>\<open>Next\<close> and \<open>Prev\<close> may only be called on a valid iterator; otherwise nothing is called.\<close>

fun data_step ::
    "(slice \<Rightarrow> slice \<Rightarrow> int) \<Rightarrow> block_op \<Rightarrow> data_block_iter \<Rightarrow> data_block_iter option" where
  "data_step ucmp SeekToFirst_op it = Some (Data_SeekToFirst it)"
| "data_step ucmp SeekToLast_op it = Data_SeekToLast it"
| "data_step ucmp Next_op it = Some (if Block_Valid it then Data_Next it else it)"
| "data_step ucmp Prev_op it = (if Block_Valid it then Data_Prev it else Some it)"
| "data_step ucmp (Seek_op t) it = Data_Seek ucmp t it"
| "data_step ucmp (SeekForPrev_op t) it = Data_SeekForPrev ucmp t it"

fun data_run ::
    "(slice \<Rightarrow> slice \<Rightarrow> int) \<Rightarrow> block_op list \<Rightarrow> data_block_iter \<Rightarrow> data_block_iter option" where
  "data_run ucmp [] it = Some it"
| "data_run ucmp (op # ops) it =
     (case data_step ucmp op it of None \<Rightarrow> None | Some it \<Rightarrow> data_run ucmp ops it)"

definition data_view :: "data_block_iter \<Rightarrow> (slice \<times> slice) option" where
  "data_view it = (if Block_Valid it then Some (bi_key it, value_slice it) else None)"

definition layout_entries :: "block_layout \<Rightarrow> (slice \<times> slice) list" where
  "layout_entries L =
     map (\<lambda>i. (exposed_key (ly_seqno L) (entry_key L i), be_val (ly_entries L ! i))) [0..<ly_size L]"

definition shows_entry :: "block_layout \<Rightarrow> data_block_iter \<Rightarrow> nat \<Rightarrow> bool" where
  "shows_entry L it i \<longleftrightarrow> data_posn L it i \<and> data_view it = cursor_view (layout_entries L) i"

lemma length_layout_entries [simp]: "length (layout_entries L) = ly_size L"
  by (simp add: layout_entries_def)

lemma UpdateKey_shows:
  assumes "layout_ok entry_bytes L" and "\<not> ly_user L" and "data_posn L it i"
  shows "shows_entry L (UpdateKey it) i"
  using UpdateKey_posn [OF assms(1,3,2)]
  by (auto simp: shows_entry_def data_view_def cursor_view_def layout_entries_def)

lemma seek_position:
  assumes "first_at_least ucmp L t k" and "\<not> ly_user L"
  shows "length (takeWhile (\<lambda>x. InternalKeyCompare ucmp (fst x) t < 0) (layout_entries L)) = k"
proof -
  have "takeWhile (\<lambda>x. InternalKeyCompare ucmp (fst x) t < 0) (layout_entries L) = take k (layout_entries L)"
    using assms by (intro takeWhile_eq_take_P_nth)
      (auto simp: first_at_least_def layout_entries_def key_cmp_exposed not_less)
  then show ?thesis using assms(1) by (simp add: first_at_least_def)
qed

lemma seek_for_prev_position:
  assumes k: "last_at_most ucmp L t k" and user: "\<not> ly_user L" and ord: "ordered_for ucmp L t"
  defines "m \<equiv> length (takeWhile (\<lambda>x. InternalKeyCompare ucmp (fst x) t \<le> 0) (layout_entries L))"
  shows "(if m = 0 then ly_size L else m - 1) = k"
proof -
  let ?c = "\<lambda>i. key_cmp ucmp L t (entry_key L i)"
  let ?m = "if k < ly_size L then Suc k else 0"
  have below: "?c j \<le> 0" if "j < k" "k < ly_size L" for j
    using data_parser.ordered_forD [OF ord that] k that by (fastforce simp: last_at_most_def)
  have above: "?c j > 0" if "k < ly_size L \<longrightarrow> k < j" "j < ly_size L" for j
    using k that by (auto simp: last_at_most_def)
  have "takeWhile (\<lambda>x. InternalKeyCompare ucmp (fst x) t \<le> 0) (layout_entries L) = take ?m (layout_entries L)"
  proof (intro takeWhile_eq_take_P_nth)
    fix i assume "i < ?m" "i < length (layout_entries L)"
    then have "?c i \<le> 0" using below [of i] k by (cases "i = k") (auto simp: last_at_most_def split: if_splits)
    then show "InternalKeyCompare ucmp (fst (layout_entries L ! i)) t \<le> 0"
      using user \<open>i < length (layout_entries L)\<close> by (simp add: layout_entries_def key_cmp_exposed)
  next
    assume "?m < length (layout_entries L)"
    then show "\<not> InternalKeyCompare ucmp (fst (layout_entries L ! ?m)) t \<le> 0"
      using above [of ?m] user by (simp add: layout_entries_def key_cmp_exposed split: if_splits)
  qed
  then have "m = ?m" using k by (simp add: m_def last_at_most_def)
  then show ?thesis using k by (simp add: last_at_most_def)
qed

lemma data_step_shows:
  assumes L: "layout_ok entry_bytes L" and user: "\<not> ly_user L" and s: "shows_entry L it i"
    and ord: "\<And>t. op = Seek_op t \<or> op = SeekForPrev_op t \<Longrightarrow> ordered_for ucmp L t"
  shows "\<exists>it'. data_step ucmp op it = Some it' \<and>
    shows_entry L it' (cursor_step (InternalKeyCompare ucmp) (layout_entries L) op i)"
proof -
  note up = UpdateKey_shows [OF L user]
  have p: "data_posn L it i" using s by (simp add: shows_entry_def)
  have b: "in_block entry_bytes L it" by (rule data_parser.posn_in_block [OF p])
  have x: "data_extra L (block_iter.more it)" using p by (simp add: posn_def)
  have valid: "Block_Valid it \<longleftrightarrow> i < ly_size L" by (rule data_parser.posn_Valid [OF L p])
  show ?thesis
  proof (cases op)
    case SeekToFirst_op
    then show ?thesis
      using up [OF data_parser.SeekToFirst_posn [OF L b x]]
      by (simp add: Data_SeekToFirst_def Data_SeekToFirstImpl_def)
  next
    case SeekToLast_op
    obtain it' where "SeekToLast_parse ParseNextDataKey it = Some it'" "data_posn L it' (ly_size L - 1)"
      using data_parser.SeekToLast_posn [OF L b x] by auto
    then show ?thesis
      using SeekToLast_op up by (simp add: Data_SeekToLast_def Data_SeekToLastImpl_def)
  next
    case Next_op
    show ?thesis
    proof (cases "i < ly_size L")
      case True
      obtain it' where "ParseNextDataKey it = (Suc i < ly_size L, it')" "data_posn L it' (Suc i)"
        using data_parser.parse_posn [OF L p True] by auto
      then show ?thesis
        using Next_op True valid up by (simp add: Data_Next_def Data_NextImpl_def)
    qed (use Next_op valid s in simp)
  next
    case Prev_op
    show ?thesis
    proof (cases "i < ly_size L")
      case True
      obtain it' where it': "Data_PrevImpl it = Some it'"
        "data_posn L it' (if i = 0 then ly_size L else i - 1)"
        using Data_PrevImpl_posn [OF L p True] by auto
      then show ?thesis using Prev_op True valid up [OF it'(2)]
        by (cases "i = 0") (simp_all add: Data_Prev_def)
    qed (use Prev_op valid s in simp)
  next
    case (Seek_op t)
    obtain it' k where "Seek_parse ucmp DecodeKey ParseNextDataKey t it = Some it'" "data_posn L it' k"
      "first_at_least ucmp L t k"
      using data_parser.Seek_posn [OF L ord p] Seek_op by blast
    then show ?thesis
      using Seek_op up seek_position [OF _ user] by (simp add: Data_Seek_def Data_SeekImpl_def)
  next
    case (SeekForPrev_op t)
    have o: "ordered_for ucmp L t" using ord SeekForPrev_op by blast
    obtain it' k where k: "SeekForPrev_parse ucmp DecodeKey ParseNextDataKey Data_PrevImpl t it = Some it'"
      "data_posn L it' k" "last_at_most ucmp L t k"
      using data_cursor.SeekForPrev_posn [OF L o p] by blast
    have "cursor_step (InternalKeyCompare ucmp) (layout_entries L) op i = k"
      using seek_for_prev_position [OF k(3) user o]
      by (simp only: SeekForPrev_op cursor_step.simps Let_def length_layout_entries)
    then show ?thesis
      using SeekForPrev_op up [OF k(2)] k(1) by (simp add: Data_SeekForPrev_def Data_SeekForPrevImpl_def)
  qed
qed

lemma data_run_shows:
  assumes L: "layout_ok entry_bytes L" and user: "\<not> ly_user L" and s: "shows_entry L it i"
    and ord: "\<And>t. Seek_op t \<in> set ops \<or> SeekForPrev_op t \<in> set ops \<Longrightarrow> ordered_for ucmp L t"
  shows "\<exists>it'. data_run ucmp ops it = Some it' \<and>
    shows_entry L it' (fold (cursor_step (InternalKeyCompare ucmp) (layout_entries L)) ops i)"
  using s ord
proof (induction ops arbitrary: it i)
  case (Cons op ops)
  obtain it1 where it1: "data_step ucmp op it = Some it1"
    "shows_entry L it1 (cursor_step (InternalKeyCompare ucmp) (layout_entries L) op i)"
    using data_step_shows [OF L user Cons.prems(1), of op ucmp] Cons.prems(2) by fastforce
  have "\<And>t. Seek_op t \<in> set ops \<or> SeekForPrev_op t \<in> set ops \<Longrightarrow> ordered_for ucmp L t"
    using Cons.prems(2) by auto
  from Cons.IH [OF it1(2) this] show ?case by (simp add: it1(1))
qed simp

text \<open>
  What is stored of a key when timestamps are not persisted: the timestamp is replaced by the
  minimal one.
\<close>

definition block_key :: "nat \<Rightarrow> bool \<Rightarrow> slice \<Rightarrow> slice" where
  "block_key ts persisted k =
     (if ts > 0 \<and> \<not> persisted then ReplaceInternalKeyWithMinTimestamp [] k ts else k)"

lemma pad_strip:
  assumes "kNumInternalBytes + ts \<le> length k"
  shows "pad_min False ts (StripTimestampFromInternalKey [] k ts) =
    ReplaceInternalKeyWithMinTimestamp [] k ts"
  using assms
  by (simp add: pad_min_def PadInternalKeyWithMinTimestamp_def StripTimestampFromInternalKey_def
      ReplaceInternalKeyWithMinTimestamp_def Let_def add.commute)

lemma ordered_for_sorted:
  assumes "user_comparator ucmp valid" and "\<not> ly_user L"
    and sorted: "sorted_wrt (\<lambda>x y. InternalKeyCompare ucmp (fst x) (fst y) < 0) (layout_entries L)"
    and valid: "\<And>x. x \<in> set (layout_entries L) \<Longrightarrow> internal_valid valid (fst x)"
    and t: "internal_valid valid t"
  shows "ordered_for ucmp L t"
proof -
  from assms(1) have c: "user_comparator (InternalKeyCompare ucmp) (internal_valid valid)"
    by (rule user_comparator.InternalKeyCompare_user_comparator)
  let ?c = "InternalKeyCompare ucmp"
  show ?thesis
    unfolding ordered_for_def
  proof (intro allI impI)
    fix i j assume ij: "i < j" "j < ly_size L" and ge: "key_cmp ucmp L t (entry_key L i) \<ge> 0"
    define a b where "a = fst (layout_entries L ! i)" and "b = fst (layout_entries L ! j)"
    have v: "internal_valid valid a" "internal_valid valid b"
      using ij by (auto simp: a_def b_def intro!: valid nth_mem)
    have ab: "?c a b < 0"
      using sorted_wrt_nth_less [OF sorted ij(1)] ij(2) by (simp add: a_def b_def)
    have at: "?c a t \<ge> 0" using ge assms(2) ij by (simp add: a_def layout_entries_def key_cmp_exposed)
    have ta: "?c t a \<le> 0" using at user_comparator.cmp_le_swap [OF c t v(1)] by simp
    have tb: "?c t b \<le> 0" using user_comparator.cmp_le_trans [OF c t v ta] ab by simp
    have "?c b t > 0"
    proof (rule ccontr)
      assume "\<not> ?c b t > 0"
      then have "?c b a \<le> 0" using user_comparator.cmp_le_trans [OF c v(2) t v(1) _ ta] by simp
      then show False using user_comparator.cmp_swap [OF c v] ab by simp
    qed
    then show "key_cmp ucmp L t (entry_key L j) > 0"
      using assms(2) ij by (simp add: b_def layout_entries_def key_cmp_exposed)
  qed
qed

definition write_block ::
    "nat \<Rightarrow> bool \<Rightarrow> DataBlockIndexType \<Rightarrow> (nat \<Rightarrow> u16) \<Rightarrow> nat \<Rightarrow> bool \<Rightarrow>
     (slice \<times> slice \<times> bool) list \<Rightarrow> slice" where
  "write_block interval delta index_type buckets ts persisted kvs =
     fst (bb_Finish (add_all kvs (BlockBuilder interval delta False index_type buckets ts persisted False)))"

definition open_block :: "slice \<Rightarrow> nat \<Rightarrow> u64 \<Rightarrow> bool \<Rightarrow> data_block_iter" where
  "open_block d ts seqno persisted = NewDataIterator (Block d) ts seqno persisted DataBlockIter"

definition block_contents ::
    "nat \<Rightarrow> u64 \<Rightarrow> bool \<Rightarrow> (slice \<times> slice \<times> bool) list \<Rightarrow> (slice \<times> slice) list" where
  "block_contents ts seqno persisted kvs =
     map (\<lambda>(k, v, _). (exposed_key seqno (block_key ts persisted k), v)) kvs"

lemma written_block_layout:
  fixes seqno :: u64
  assumes "0 < interval" and ts: "ts \<le> 8"
    and keys: "\<And>k v s. (k, v, s) \<in> set kvs \<Longrightarrow> kNumInternalBytes + ts \<le> length k \<and> length k < 2 ^ 32"
    and size: "length (write_block interval delta index_type buckets ts persisted kvs) < 2 ^ 32"
  defines "it \<equiv> open_block (write_block interval delta index_type buckets ts persisted kvs) ts seqno persisted"
  defines "b \<equiv> add_all kvs (BlockBuilder interval delta False index_type buckets ts persisted False)"
  assumes built: "builds b es rs kvs"
  shows "layout_ok entry_bytes (built_layout es rs ts persisted seqno)"
    and "shows_entry (built_layout es rs ts persisted seqno) it (length es)"
    and "layout_entries (built_layout es rs ts persisted seqno) = block_contents ts seqno persisted kvs"
proof -
  let ?init = "BlockBuilder interval delta False index_type buckets ts persisted False"
  let ?b = "add_all kvs ?init"
  have cfg: "\<not> use_value_delta_encoding ?init" "0 < block_restart_interval ?init"
    "strip_ts_sz ?init = (if persisted then 0 else ts)" "\<not> bb_is_user_key ?init"
    using assms(1) by (simp_all add: BlockBuilder_def)
  have b: "builds ?b es rs kvs" using built by (simp add: b_def)
  have size': "length (fst (bb_Finish ?b)) < 2 ^ 32" using size by (simp add: write_block_def)
  let ?L = "built_layout es rs ts persisted seqno"
  have strip: "MaybeStripTimestampFromKey ?b k =
      (if ts > 0 \<and> \<not> persisted then StripTimestampFromInternalKey [] k ts else k)" for k
    using cfg(3,4) add_all_config(3,4) [OF cfg(1), of kvs]
    by (cases persisted) (simp_all add: MaybeStripTimestampFromKey_def)
  show L: "layout_ok entry_bytes ?L"
  proof (rule built_layout_ok [OF b size'])
    show "length (MaybeStripTimestampFromKey ?b k) < 2 ^ 32 \<and>
        kNumInternalBytes \<le> length (MaybeStripTimestampFromKey ?b k)" if "(k, v, s) \<in> set kvs" for k v s
      using keys [OF that] by (auto simp: strip StripTimestampFromInternalKey_def)
  qed (use ts in simp)
  have p: "data_posn ?L it (ly_size ?L)"
    using NewDataIterator_posn(1) [OF b size'] by (simp add: it_def open_block_def write_block_def)
  then have "shows_entry ?L it (ly_size ?L)"
    using data_parser.posn_Valid [OF L p] by (simp add: shows_entry_def data_view_def cursor_view_def)
  then show "shows_entry ?L it (length es)" by (simp add: built_layout_def)
  have len: "length es = length kvs" and entries: "\<forall>i<length es.
      stored_key es i = MaybeStripTimestampFromKey ?b (fst (kvs ! i)) \<and> be_val (es ! i) = fst (snd (kvs ! i)) \<and>
      be_shared (es ! i) \<le> length (MaybeStripTimestampFromKey ?b (fst (kvs ! i)))"
    using b unfolding builds_def by blast+
  have "entry_key ?L i = block_key ts persisted (fst (kvs ! i))" if "i < length kvs" for i
    using entries [rule_format, of i] keys [of "fst (kvs ! i)" "fst (snd (kvs ! i))" "snd (snd (kvs ! i))"]
      that len pad_strip [of ts "fst (kvs ! i)"]
    by (simp add: entry_key_def present_def built_layout_def block_key_def strip)
  then show "layout_entries ?L = block_contents ts seqno persisted kvs"
    using entries len
    by (intro nth_equalityI)
      (auto simp: layout_entries_def block_contents_def built_layout_def split: prod.splits)
qed

lemma open_written_block:
  fixes seqno :: u64
  assumes "0 < interval" and "ts \<le> 8"
    and "\<And>k v s. (k, v, s) \<in> set kvs \<Longrightarrow> kNumInternalBytes + ts \<le> length k \<and> length k < 2 ^ 32"
    and "length (write_block interval delta index_type buckets ts persisted kvs) < 2 ^ 32"
  defines "it \<equiv> open_block (write_block interval delta index_type buckets ts persisted kvs) ts seqno persisted"
  shows "\<exists>L. layout_ok entry_bytes L \<and> \<not> ly_user L \<and> shows_entry L it (ly_size L) \<and>
    layout_entries L = block_contents ts seqno persisted kvs"
proof -
  let ?b = "BlockBuilder interval delta False index_type buckets ts persisted False"
  have "\<not> use_value_delta_encoding ?b" "0 < block_restart_interval ?b"
    using assms(1) by (simp_all add: BlockBuilder_def)
  then obtain es rs where b: "builds (add_all kvs ?b) es rs kvs"
    using builds_add_all [OF builds_new] by blast
  let ?L = "built_layout es rs ts persisted seqno"
  have "\<not> ly_user ?L" and "ly_size ?L = length es" by (simp_all add: built_layout_def)
  then show ?thesis
    using written_block_layout [OF assms(1,2) _ assms(4) b, of seqno] assms(3) unfolding it_def by metis
qed

text \<open>
  C2: A data block refines a cursor over the entries that were added to it. For every restart
  interval, with and without delta encoding, with and without a hash index, with timestamps
  persisted or not and with or without a global sequence number: after any sequence of the
  operations of the iterator on the written block, the iterator returns, and it is valid, with
  the key and the value the cursor points at, exactly when the cursor points at an entry. The
  keys must be strictly increasing in the internal order, as the builder requires, and the
  finished block below 4 GiB.
\<close>

theorem data_block_refines_cursor:
  assumes "user_comparator ucmp valid" and "0 < interval" and "ts \<le> 8"
    and "\<And>k v s. (k, v, s) \<in> set kvs \<Longrightarrow> kNumInternalBytes + ts \<le> length k \<and> length k < 2 ^ 32"
    and "length (write_block interval delta index_type buckets ts persisted kvs) < 2 ^ 32"
    and "sorted_wrt (\<lambda>x y. InternalKeyCompare ucmp (fst x) (fst y) < 0)
      (block_contents ts seqno persisted kvs)"
    and "\<And>x. x \<in> set (block_contents ts seqno persisted kvs) \<Longrightarrow> internal_valid valid (fst x)"
    and "\<And>t. Seek_op t \<in> set ops \<or> SeekForPrev_op t \<in> set ops \<Longrightarrow> internal_valid valid t"
  shows "\<exists>it. data_run ucmp ops
      (open_block (write_block interval delta index_type buckets ts persisted kvs) ts seqno persisted) = Some it \<and>
    data_view it = cursor_view (block_contents ts seqno persisted kvs)
      (fold (cursor_step (InternalKeyCompare ucmp) (block_contents ts seqno persisted kvs)) ops (length kvs))"
proof -
  obtain L where L: "layout_ok entry_bytes L" "\<not> ly_user L"
    "shows_entry L (open_block (write_block interval delta index_type buckets ts persisted kvs) ts seqno persisted)
       (ly_size L)"
    "layout_entries L = block_contents ts seqno persisted kvs"
    using open_written_block [OF assms(2,3) _ assms(5), of seqno] assms(4) by blast
  have n: "ly_size L = length kvs"
    using length_layout_entries [of L] by (simp add: L(4) block_contents_def)
  have ord: "ordered_for ucmp L t" if "Seek_op t \<in> set ops \<or> SeekForPrev_op t \<in> set ops" for t
    using ordered_for_sorted [OF assms(1) L(2), unfolded L(4), OF assms(6,7) assms(8) [OF that]] .
  show ?thesis
    using data_run_shows [OF L(1-3) ord] unfolding L(4) n shows_entry_def by blast
qed

definition example_kvs :: "(slice \<times> slice \<times> bool) list" where
  "example_kvs =
     [(InternalKey [97, 97] 5 1, [1], False), (InternalKey [97, 98] 7 1, [2], False),
      (InternalKey [97, 98] 3 1, [], False), (InternalKey [98] 2 0, [4, 4], False)]"

theorem data_block_refines_cursor_witness:
  "\<exists>it. data_run BytewiseCompare [Seek_op (InternalKey [97, 98] 4 1), Prev_op, Prev_op, Next_op]
      (open_block (write_block 2 True kDataBlockBinarySearch (\<lambda>_. 0) 0 True example_kvs) 0
        kDisableGlobalSequenceNumber True) = Some it \<and>
    data_view it = Some (InternalKey [97, 98] 7 1, [2])"
proof -
  let ?xs = "block_contents 0 kDisableGlobalSequenceNumber True example_kvs"
  let ?ops = "[Seek_op (InternalKey [97, 98] 4 1), Prev_op, Prev_op, Next_op]"
  have "user_comparator BytewiseCompare (\<lambda>_. True)" by unfold_locales
  moreover have "kNumInternalBytes + 0 \<le> length k \<and> length k < 2 ^ 32" if "(k, v, s) \<in> set example_kvs" for k v s
    using that by (auto simp: example_kvs_def InternalKey_eq kNumInternalBytes_def)
  moreover have "length (write_block 2 True kDataBlockBinarySearch (\<lambda>_. 0) 0 True example_kvs) < 2 ^ 32"
  proof -
    have "length (write_block 2 True kDataBlockBinarySearch (\<lambda>_. 0) 0 True example_kvs) < 100" by code_simp
    then show ?thesis by simp
  qed
  moreover have "sorted_wrt (\<lambda>x y. InternalKeyCompare BytewiseCompare (fst x) (fst y) < 0) ?xs" by code_simp
  moreover have "internal_valid (\<lambda>_. True) (fst x)" if "x \<in> set ?xs" for x
  proof -
    have "list_all (\<lambda>x. internal_valid (\<lambda>_. True) (fst x)) ?xs" by code_simp
    then show ?thesis using that by (simp add: list_all_iff)
  qed
  moreover have "internal_valid (\<lambda>_. True) t" if "Seek_op t \<in> set ?ops \<or> SeekForPrev_op t \<in> set ?ops" for t
    using that by (auto simp: internal_valid_def InternalKey_eq)
  ultimately have "\<exists>it. data_run BytewiseCompare ?ops
      (open_block (write_block 2 True kDataBlockBinarySearch (\<lambda>_. 0) 0 True example_kvs) 0
        kDisableGlobalSequenceNumber True) = Some it \<and>
    data_view it = cursor_view ?xs
      (fold (cursor_step (InternalKeyCompare BytewiseCompare) ?xs) ?ops (length example_kvs))"
    by (intro data_block_refines_cursor [where valid = "\<lambda>_. True"]) simp_all
  moreover have "cursor_view ?xs
      (fold (cursor_step (InternalKeyCompare BytewiseCompare) ?xs) ?ops (length example_kvs)) =
      Some (InternalKey [97, 98] 7 1, [2])" by code_simp
  ultimately show ?thesis by simp
qed

end
