(* ===== verification/Block_Lookup.thy ===== *)
theory Block_Lookup
  imports Block_Round_Trip
begin

text \<open>
  Point lookups through the hash index of a data block: the bucket of a user key tells the only
  restart interval that may hold it, and \<open>SeekForGet\<close> ends where \<open>Seek\<close> does whenever the block may
  hold an answer.
\<close>

section \<open>The buckets\<close>

definition bucket_of :: "nat \<Rightarrow> u32 \<Rightarrow> nat" where
  "bucket_of n h = unat h mod n"

text \<open>What a bucket holds after the pairs were added.\<close>

definition bucket_ok :: "nat \<Rightarrow> (u32 \<times> byte) list \<Rightarrow> nat \<Rightarrow> byte \<Rightarrow> bool" where
  "bucket_ok n ps x e \<longleftrightarrow>
     (e = kNoEntry \<longleftrightarrow> (\<forall>(h, r)\<in>set ps. bucket_of n h \<noteq> x)) \<and>
     (e \<noteq> kNoEntry \<longrightarrow> e \<noteq> kCollision \<longrightarrow>
        (\<exists>(h, r)\<in>set ps. r = e) \<and> (\<forall>(h, r)\<in>set ps. bucket_of n h = x \<longrightarrow> r = e))"

lemma bucket_ok_add:
  assumes "bucket_ok n ps x (bs ! x)" and "x < n" and "length bs = n" and "r \<noteq> kNoEntry" "r \<noteq> kCollision"
  shows "bucket_ok n (ps @ [(h, r)]) x (add_to_bucket n (h, r) bs ! x)"
proof (cases "bucket_of n h = x")
  case True
  then show ?thesis
    using assms by (auto simp: bucket_ok_def add_to_bucket_def Let_def bucket_of_def kNoEntry_def kCollision_def)
next
  case False
  then have "add_to_bucket n (h, r) bs ! x = bs ! x"
    by (simp add: add_to_bucket_def Let_def bucket_of_def)
  then show ?thesis using assms(1) False unfolding bucket_ok_def by auto
qed

lemma bucket_ok_fold:
  assumes "\<forall>(h, r)\<in>set ps. r \<noteq> kNoEntry \<and> r \<noteq> kCollision" and "x < n"
  shows "bucket_ok n ps x (fold (add_to_bucket n) ps (replicate n kNoEntry) ! x)"
  using assms(1)
proof (induction ps rule: rev_induct)
  case Nil
  show ?case using assms(2) by (simp add: bucket_ok_def)
next
  case (snoc p ps)
  obtain h r where p: "p = (h, r)" by (cases p)
  have "bucket_ok n ps x (fold (add_to_bucket n) ps (replicate n kNoEntry) ! x)"
    using snoc by auto
  then show ?case using bucket_ok_add [of n ps x _ r h] snoc.prems assms(2) by (simp add: p)
qed

section \<open>What the builder hashes\<close>

definition interval_of :: "nat list \<Rightarrow> nat \<Rightarrow> nat" where
  "interval_of rs i = length (filter (\<lambda>r. r \<le> i) rs) - 1"

definition hashed :: "block_builder \<Rightarrow> nat list \<Rightarrow> (slice \<times> slice \<times> bool) list \<Rightarrow> bool" where
  "hashed b rs kvs \<longleftrightarrow>
     (hb_Valid (bb_hash b) \<longrightarrow> length rs \<le> 254) \<and>
     (hb_Valid (bb_hash b) \<longrightarrow> hash_and_restart_pairs (bb_hash b) =
        map (\<lambda>i. (GetSliceHash (ExtractUserKey (fst (kvs ! i))), of_nat (interval_of rs i))) [0..<length kvs])"

lemma hashed_new:
  "hashed (BlockBuilder interval delta False index_type buckets ts_sz persist user) [0] []"
  by (auto simp: hashed_def BlockBuilder_def DataBlockHashIndexBuilder_def hb_Initialize_def
      split: DataBlockIndexType.split)

lemma filter_le_all: "(\<forall>r\<in>set rs. r \<le> (n::nat)) \<Longrightarrow> filter (\<lambda>r. r \<le> n) rs = rs"
  by (simp add: filter_id_conv)

lemma hb_Valid_Add:
  "hb_Valid (hb_Add k r h) \<longleftrightarrow> hb_Valid h \<and> r \<le> kMaxRestartSupportedByHashIndex"
  by (auto simp: hb_Add_def hb_Valid_def)

lemma hashed_Add:
  fixes k v :: slice and skip :: bool
  assumes b: "builds b es rs kvs" and h: "hashed b rs kvs" and nv: "\<not> use_value_delta_encoding b"
  defines "rs' \<equiv> (if bb_counter b \<ge> block_restart_interval b then rs @ [length es] else rs)"
  shows "hashed (bb_Add k v None skip b) rs' (kvs @ [(k, v, skip)])"
proof -
  let ?b = "bb_Add k v None skip b" and ?n = "length kvs"
  have len: "length es = ?n" and ne: "rs \<noteq> []"
    and lens: "length (bb_restarts b) = length rs" and r: "\<forall>r\<in>set rs. r < max 1 (length es)"
    using b unfolding builds_def by (auto simp: length_map)
  have lens': "length (bb_restarts ?b) = length rs'"
    by (simp add: bb_Add_fields(2) [OF nv] lens rs'_def)
  have "\<forall>r\<in>set rs'. r \<le> ?n" using r len by (auto simp: rs'_def max_def split: if_splits)
  then have now: "interval_of rs' ?n = length rs' - 1" by (simp add: interval_of_def filter_le_all)
  have before: "interval_of rs' i = interval_of rs i" if "i < ?n" for i
    using that len by (simp add: interval_of_def rs'_def)
  show ?thesis
  proof (cases "hb_Valid (bb_hash ?b)")
    case False
    then show ?thesis by (simp add: hashed_def)
  next
    case True
    have hash: "bb_hash ?b = (if hb_Valid (bb_hash b)
        then hb_Add (ExtractUserKey k) (length rs' - 1) (bb_hash b) else bb_hash b)"
      using bb_Add_fields(11) [OF nv, of k v skip] lens' by simp
    then have v: "hb_Valid (bb_hash b)" and le: "length rs' - 1 \<le> kMaxRestartSupportedByHashIndex"
      using True by (auto simp: hb_Valid_Add split: if_splits)
    then have "hash_and_restart_pairs (bb_hash ?b) = hash_and_restart_pairs (bb_hash b) @
        [(GetSliceHash (ExtractUserKey k), of_nat (length rs' - 1))]"
      by (simp add: hash hb_Add_def)
    moreover have "length rs' \<le> 254" using le by (simp add: kMaxRestartSupportedByHashIndex_def)
    ultimately show ?thesis using h v by (simp add: hashed_def now before nth_append)
  qed
qed

lemma builds_hashed_add_all:
  assumes "builds b es rs []" and "hashed b rs []" and "\<not> use_value_delta_encoding b"
    and "0 < block_restart_interval b"
  shows "\<exists>es rs. builds (add_all kvs b) es rs kvs \<and> hashed (add_all kvs b) rs kvs"
proof (induction kvs rule: rev_induct)
  case Nil
  show ?case using assms(1,2) unfolding add_all_def by auto
next
  case (snoc x kvs)
  obtain k v skip where x: "x = (k, v, skip)" by (cases x)
  obtain es rs where "builds (add_all kvs b) es rs kvs" "hashed (add_all kvs b) rs kvs"
    using snoc by blast
  then show ?case
    using builds_Add [of "add_all kvs b" es rs kvs k v skip] hashed_Add [of "add_all kvs b" es rs kvs k v skip]
      add_all_config(1,2) [OF assms(3), of kvs] assms(4)
    unfolding x add_all_append by auto
qed

section \<open>Lookups in the finished block\<close>

lemma interval_of_less: "rs \<noteq> [] \<Longrightarrow> interval_of rs i < length rs"
  using length_filter_le [of "\<lambda>r. r \<le> i" rs] length_greater_0_conv [of rs]
  unfolding interval_of_def by linarith

lemma sorted_filter_le:
  assumes "sorted_wrt (<) (rs :: nat list)"
  shows "filter (\<lambda>r. r \<le> i) rs = takeWhile (\<lambda>r. r \<le> i) rs"
  using assms
proof (induction rs)
  case (Cons a rs)
  have "filter (\<lambda>r. r \<le> i) rs = []" if "\<not> a \<le> i"
    using Cons.prems that by (auto simp: filter_empty_conv)
  then show ?case using Cons by simp
qed simp

lemma interval_of_bounds:
  assumes "sorted_wrt (<) rs" and "rs \<noteq> []" and "rs ! 0 = 0" and "interval_of rs i = r"
  shows "rs ! r \<le> i" and "r + 1 < length rs \<Longrightarrow> i < rs ! (r + 1)"
proof -
  let ?w = "takeWhile (\<lambda>r. r \<le> i) rs"
  have ne: "?w \<noteq> []" using assms(2,3) by (cases rs) auto
  have r: "r = length ?w - 1" using assms(4) by (simp add: interval_of_def sorted_filter_le [OF assms(1)])
  have "r < length ?w" using ne r by simp
  then have "?w ! r \<in> set ?w" and "?w ! r = rs ! r" by (auto intro: takeWhile_nth nth_mem)
  then show "rs ! r \<le> i" using set_takeWhileD by metis
  show "i < rs ! (r + 1)" if "r + 1 < length rs"
    using nth_length_takeWhile [of "\<lambda>r. r \<le> i" rs] that ne r by simp
qed

lemma interval_byte:
  assumes "rs \<noteq> []" and "length rs \<le> 254"
  shows "unat (of_nat (interval_of rs i) :: byte) = interval_of rs i"
    and "(of_nat (interval_of rs i) :: byte) \<noteq> kNoEntry" and "(of_nat (interval_of rs i) :: byte) \<noteq> kCollision"
proof -
  have less: "interval_of rs i < 254" using interval_of_less [OF assms(1), of i] assms(2) by linarith
  then show u: "unat (of_nat (interval_of rs i) :: byte) = interval_of rs i" by (intro unat_of_nat_small) simp
  show "(of_nat (interval_of rs i) :: byte) \<noteq> kNoEntry" "(of_nat (interval_of rs i) :: byte) \<noteq> kCollision"
    using u less by (auto simp: kNoEntry_def kCollision_def)
qed

lemma Lookup_finished:
  assumes b: "builds b es rs kvs" and t: "finished_type b = kDataBlockBinaryAndHash"
  defines "n \<equiv> hb_num_buckets (bb_hash b)"
  shows "DataBlockHashIndex_Lookup n (fst (bb_Finish b)) (length (bb_buffer b) + length rs * 4) u =
    fold (add_to_bucket (unat n)) (hash_and_restart_pairs (bb_hash b)) (replicate (unat n) kNoEntry)
      ! bucket_of (unat n) (GetSliceHash u)"
proof -
  let ?bs = "fold (add_to_bucket (unat n)) (hash_and_restart_pairs (bb_hash b)) (replicate (unat n) kNoEntry)"
  have "unat n \<noteq> 0" using hb_num_buckets_pos [of "bb_hash b"] by (simp add: n_def unat_eq_0)
  then have x: "bucket_of (unat n) (GetSliceHash u) < length ?bs" by (simp add: bucket_of_def)
  have foot: "hash_footer b = ?bs @ EncodeFixed16 n"
    using t by (auto simp: hash_footer_def finished_type_def hb_Finish_def Let_def n_def PutFixed16_def
        split: if_splits)
  have len: "length (bb_restarts b) = length rs" using b unfolding builds_def by auto
  have "length (concat (map EncodeFixed32 (bb_restarts b))) = length rs * 4"
    by (simp add: length_concat comp_def len sum_list_triv)
  then have "fst (bb_Finish b) ! (length (bb_buffer b) + length rs * 4 + bucket_of (unat n) (GetSliceHash u)) =
      ?bs ! bucket_of (unat n) (GetSliceHash u)"
    using x unfolding bb_Finish_bytes foot by (simp add: nth_append)
  then show ?thesis by (simp add: DataBlockHashIndex_Lookup_def bucket_of_def Let_def)
qed

text \<open>What a lookup tells of the user keys in a block with these restart points.\<close>

definition bucket_tells :: "nat list \<Rightarrow> (nat \<Rightarrow> slice) \<Rightarrow> nat \<Rightarrow> slice \<Rightarrow> byte \<Rightarrow> bool" where
  "bucket_tells rs ukey n u e \<longleftrightarrow>
     (e = kNoEntry \<longrightarrow> (\<forall>i<n. ukey i \<noteq> u)) \<and>
     (e \<noteq> kNoEntry \<longrightarrow> e \<noteq> kCollision \<longrightarrow>
        unat e < length rs \<and> (\<forall>i<n. ukey i = u \<longrightarrow> interval_of rs i = unat e))"

lemma hash_lookup:
  assumes b: "builds b es rs kvs" and h: "hashed b rs kvs"
    and t: "finished_type b = kDataBlockBinaryAndHash"
  shows "bucket_tells rs (\<lambda>i. ExtractUserKey (fst (kvs ! i))) (length kvs) u
    (DataBlockHashIndex_Lookup (hb_num_buckets (bb_hash b)) (fst (bb_Finish b))
      (length (bb_buffer b) + length rs * 4) u)"
proof -
  let ?n = "unat (hb_num_buckets (bb_hash b))" and ?ps = "hash_and_restart_pairs (bb_hash b)"
  let ?x = "bucket_of ?n (GetSliceHash u)"
  define e where "e = fold (add_to_bucket ?n) ?ps (replicate ?n kNoEntry) ! ?x"
  have rs: "rs \<noteq> []" using b unfolding builds_def by blast
  have valid: "hb_Valid (bb_hash b)" using t by (auto simp: finished_type_def split: if_splits)
  have ps: "?ps = map (\<lambda>i. (GetSliceHash (ExtractUserKey (fst (kvs ! i))), of_nat (interval_of rs i))) [0..<length kvs]"
    and small: "length rs \<le> 254"
    using h valid unfolding hashed_def by blast+
  have byte: "unat (of_nat (interval_of rs i) :: byte) = interval_of rs i"
    "(of_nat (interval_of rs i) :: byte) \<noteq> kNoEntry" "(of_nat (interval_of rs i) :: byte) \<noteq> kCollision"
    if "i < length kvs" for i
    using interval_byte [OF rs] small that by auto
  have "?n \<noteq> 0" using hb_num_buckets_pos [of "bb_hash b"] by (simp add: unat_eq_0)
  then have "?x < ?n" by (simp add: bucket_of_def)
  then have ok: "bucket_ok ?n ?ps ?x e"
    unfolding e_def using byte by (intro bucket_ok_fold) (auto simp: ps)
  have "bucket_tells rs (\<lambda>i. ExtractUserKey (fst (kvs ! i))) (length kvs) u e"
    unfolding bucket_tells_def
  proof (intro conjI impI allI)
    fix i assume "e = kNoEntry" "i < length kvs"
    then show "ExtractUserKey (fst (kvs ! i)) \<noteq> u" using ok unfolding bucket_ok_def ps by auto
  next
    assume "e \<noteq> kNoEntry" "e \<noteq> kCollision"
    then have ex: "\<exists>(h, r)\<in>set ?ps. r = e" and all: "\<forall>(h, r)\<in>set ?ps. bucket_of ?n h = ?x \<longrightarrow> r = e"
      using ok unfolding bucket_ok_def by blast+
    from ex obtain i where "i < length kvs" "e = of_nat (interval_of rs i)" unfolding ps by auto
    then show "unat e < length rs" using byte(1) interval_of_less [OF rs] by simp
    fix i assume i: "i < length kvs" "ExtractUserKey (fst (kvs ! i)) = u"
    then have "of_nat (interval_of rs i) = e" using all unfolding ps by auto
    then show "interval_of rs i = unat e" using byte(1) [OF i(1)] by simp
  qed
  then show ?thesis by (simp add: Lookup_finished [OF b t] e_def)
qed

section \<open>Scanning one restart interval\<close>

lemma scan_interval_spec:
  assumes L: "layout_ok entry_bytes L" and e: "e \<le> ly_size L"
    and "before_entry entry_bytes L it i" and "data_extra L (block_iter.more it)" and "i \<le> e"
    and "bi_current it < entry_off entry_bytes L e"
  shows "\<exists>it' j. scan_interval ucmp target (entry_off entry_bytes L e) it = Some it' \<and> data_posn L it' j \<and>
    i \<le> j \<and> j \<le> e \<and> (\<forall>t. i \<le> t \<longrightarrow> t < j \<longrightarrow> key_cmp ucmp L target (entry_key L t) < 0) \<and>
    (j < e \<longrightarrow> key_cmp ucmp L target (entry_key L j) \<ge> 0)"
  using assms(3-)
proof (induction "e - i" arbitrary: it i rule: less_induct)
  case less
  obtain it' where parse: "ParseNextDataKey it = (i < ly_size L, it')" and p: "data_posn L it' i"
    using data_parser.parse_before [OF L less.prems(1,2)] by blast
  note step = scan_interval.simps [of ucmp target "entry_off entry_bytes L e" it]
  show ?case
  proof (cases "i < ly_size L \<and> key_cmp ucmp L target (entry_key L i) < 0")
    case False
    then have "scan_interval ucmp target (entry_off entry_bytes L e) it = Some it'"
      using data_parser.posn_cmp [OF p, of ucmp target] less.prems(4)
      by (subst step) (auto simp: parse)
    moreover have "i < e \<longrightarrow> key_cmp ucmp L target (entry_key L i) \<ge> 0" using False e by auto
    ultimately show ?thesis using p less.prems(3) by (intro exI [of _ it'] exI [of _ i]) auto
  next
    case True
    then have rec: "scan_interval ucmp target (entry_off entry_bytes L e) it =
        scan_interval ucmp target (entry_off entry_bytes L e) it'"
      using data_parser.posn_cmp [OF p, of ucmp target] less.prems(4)
      by (subst step) (auto simp: parse)
    have cur: "bi_current it' = entry_off entry_bytes L i" using p True by (simp add: data_posn_iff at_entry_def)
    show ?thesis
    proof (cases "i < e")
      case False
      then have "scan_interval ucmp target (entry_off entry_bytes L e) it' = Some it'"
        using cur less.prems(3) by (subst scan_interval.simps) simp
      then show ?thesis using p less.prems(3) False rec by (intro exI [of _ it'] exI [of _ i]) auto
    next
      case less_e: True
      have cur': "bi_current it' < entry_off entry_bytes L e"
        using cur entry_off_mono_less [OF L less_e e] by simp
      have before: "before_entry entry_bytes L it' (Suc i)" "data_extra L (block_iter.more it')"
        using data_parser.posn_before [OF L p] True by blast+
      have IH: "\<exists>it'' j. scan_interval ucmp target (entry_off entry_bytes L e) it' = Some it'' \<and> data_posn L it'' j \<and>
        Suc i \<le> j \<and> j \<le> e \<and> (\<forall>t. Suc i \<le> t \<longrightarrow> t < j \<longrightarrow> key_cmp ucmp L target (entry_key L t) < 0) \<and>
        (j < e \<longrightarrow> key_cmp ucmp L target (entry_key L j) \<ge> 0)"
        using less.hyps [OF _ before _ cur'] less_e by simp
      then obtain it'' j where j: "scan_interval ucmp target (entry_off entry_bytes L e) it' = Some it''"
        "data_posn L it'' j" "Suc i \<le> j" "j \<le> e"
        "\<forall>t. Suc i \<le> t \<longrightarrow> t < j \<longrightarrow> key_cmp ucmp L target (entry_key L t) < 0"
        "j < e \<longrightarrow> key_cmp ucmp L target (entry_key L j) \<ge> 0" by blast
      have "key_cmp ucmp L target (entry_key L t) < 0" if "i \<le> t" "t < j" for t
        using True j(5) that by (cases "t = i") auto
      then show ?thesis using j rec by (intro exI [of _ it''] exI [of _ j]) auto
    qed
  qed
qed

lemma first_at_least_unique:
  assumes "first_at_least ucmp L t k" and "first_at_least ucmp L t k'"
  shows "k = k'"
  using assms unfolding first_at_least_def by (metis le_less_trans linorder_not_less nat_neq_iff order_le_imp_less_or_eq)

section \<open>Point lookups\<close>

definition entry_ukey :: "block_layout \<Rightarrow> nat \<Rightarrow> slice" where
  "entry_ukey L i = ExtractUserKey (entry_key L i)"

lemma GetUserKey_entry:
  assumes "at_entry enc L it i" and "\<not> ly_user L"
  shows "GetUserKey (bi_raw_key it) = entry_ukey L i"
proof -
  have ok: "ik_ok (bi_raw_key it)" "\<not> ik_is_user_key (bi_raw_key it)"
    and k: "entry_key L i = GetKey (bi_raw_key it)"
    using assms unfolding at_entry_def in_block_def by auto
  then show ?thesis
    unfolding entry_ukey_def k
    by (simp add: GetUserKey_def ExtractUserKey_def GetKey_def ik_ok_def kNumInternalBytes_def min_def)
qed

text \<open>
  The order of the user keys of a block around a target, and that the comparator tells every two
  different user keys apart.
\<close>

definition ukeys_ordered :: "(slice \<Rightarrow> slice \<Rightarrow> int) \<Rightarrow> block_layout \<Rightarrow> slice \<Rightarrow> bool" where
  "ukeys_ordered ucmp L target \<longleftrightarrow>
     (\<forall>i<ly_size L. ucmp (entry_ukey L i) (ExtractUserKey target) = 0 \<longleftrightarrow>
        entry_ukey L i = ExtractUserKey target) \<and>
     (\<forall>i j. i \<le> j \<longrightarrow> j < ly_size L \<longrightarrow> entry_ukey L j = ExtractUserKey target \<longrightarrow>
        key_cmp ucmp L target (entry_key L i) \<ge> 0 \<longrightarrow> entry_ukey L i = ExtractUserKey target)"

text \<open>The interval a lookup points to ends in front of entry \<open>interval_end\<close>.\<close>

definition interval_end :: "block_layout \<Rightarrow> nat \<Rightarrow> nat" where
  "interval_end L r = (if r + 1 < length (ly_restarts L) then ly_restarts L ! (r + 1) else ly_size L)"

lemma interval_of_end:
  assumes "layout_ok enc L" and "interval_of (ly_restarts L) i = r" and "i < ly_size L"
  shows "ly_restarts L ! r \<le> i" and "i < interval_end L r"
  using interval_of_bounds [OF layout_okD(3,1,2) [OF assms(1)] assms(2)] assms(3)
  by (simp_all add: interval_end_def)

lemma interval_scan:
  assumes L: "layout_ok entry_bytes L" and p: "data_posn L it i" and r: "r < length (ly_restarts L)"
  defines "it1 \<equiv> SeekToRestartPoint r it"
  defines "it2 \<equiv> it1\<lparr>bi_current := GetRestartPoint r it1\<rparr>"
  shows "\<exists>it' j. scan_interval ucmp target
      (if r + 1 < bi_num_restarts it2 then GetRestartPoint (r + 1) it2 else bi_restarts it2) it2 = Some it' \<and>
    data_posn L it' j \<and> ly_restarts L ! r \<le> j \<and> j \<le> interval_end L r \<and>
    (\<forall>t. ly_restarts L ! r \<le> t \<longrightarrow> t < j \<longrightarrow> key_cmp ucmp L target (entry_key L t) < 0) \<and>
    (j < interval_end L r \<longrightarrow> key_cmp ucmp L target (entry_key L j) \<ge> 0)"
proof -
  let ?s = "ly_restarts L ! r" and ?e = "interval_end L r"
  have inb: "in_block entry_bytes L it" and x: "data_extra L (block_iter.more it)"
    using data_parser.posn_in_block [OF p] p by (simp_all add: posn_def)
  have b1: "before_entry entry_bytes L it1 ?s" unfolding it1_def by (rule SeekToRestartPoint_before [OF L inb r])
  then have b2: "before_entry entry_bytes L it2 ?s"
    by (simp add: it2_def before_entry_def in_block_def NextEntryOffset_def)
  have in2: "in_block entry_bytes L it2" and in1: "in_block entry_bytes L it1"
    using b1 b2 unfolding before_entry_def by blast+
  have x2: "data_extra L (block_iter.more it2)" using x by (simp add: it2_def it1_def)
  have cur: "bi_current it2 = entry_off entry_bytes L ?s"
    using GetRestartPoint_entry [OF L in1 r] by (simp add: it2_def)
  have num: "bi_num_restarts it2 = length (ly_restarts L)" "bi_restarts it2 = entry_off entry_bytes L (ly_size L)"
    using in2 unfolding in_block_def by blast+
  have limit: "(if r + 1 < bi_num_restarts it2 then GetRestartPoint (r + 1) it2 else bi_restarts it2) =
      entry_off entry_bytes L ?e"
    using GetRestartPoint_entry [OF L in2, of "r + 1"] by (simp add: num interval_end_def)
  have e: "?e \<le> ly_size L" "?s \<le> ?e" "0 < ly_size L \<Longrightarrow> ?s < ?e"
    using layout_ok_restart(1) [OF L, of "r + 1"] layout_ok_restart(1) [OF L r]
      sorted_wrt_nth_less [OF layout_okD(3) [OF L], of r "r + 1"]
    by (auto simp: interval_end_def max_def split: if_splits)
  show ?thesis
  proof (cases "ly_size L = 0")
    case False
    then have "bi_current it2 < entry_off entry_bytes L ?e"
      using cur entry_off_mono_less [OF L e(3) e(1)] by simp
    then show ?thesis unfolding limit using scan_interval_spec [OF L e(1) b2 x2 e(2)] by blast
  next
    case True
    then have s: "?s = 0" "?e = 0" using e(1,2) by simp_all
    then have "scan_interval ucmp target (entry_off entry_bytes L ?e) it2 = Some it2"
      using cur by (subst scan_interval.simps) simp
    moreover have "data_posn L it2 0"
      using True in2 x2 cur s num by (simp add: posn_def at_end_def)
    ultimately show ?thesis unfolding limit using s by (intro exI [of _ it2] exI [of _ 0]) simp
  qed
qed

lemma SeekForGet_scan_end:
  assumes L: "layout_ok entry_bytes L" and ord: "ordered_for ucmp L target"
    and uk: "ukeys_ordered ucmp L target"
    and in_r: "\<forall>i<ly_size L. entry_ukey L i = ExtractUserKey target \<longrightarrow> interval_of (ly_restarts L) i = r"
    and r: "r < length (ly_restarts L)"
    and j: "ly_restarts L ! r \<le> j" "j \<le> interval_end L r" "j \<le> ly_size L"
    and scanned: "\<forall>t. ly_restarts L ! r \<le> t \<longrightarrow> t < j \<longrightarrow> key_cmp ucmp L target (entry_key L t) < 0"
    and ge: "j < interval_end L r \<longrightarrow> key_cmp ucmp L target (entry_key L j) \<ge> 0"
    and k: "first_at_least ucmp L target k"
  shows "j = ly_size L \<Longrightarrow> k = j"
    and "j < ly_size L \<Longrightarrow> entry_ukey L j = ExtractUserKey target \<Longrightarrow> k = j"
    and "j < ly_size L \<Longrightarrow> entry_ukey L j \<noteq> ExtractUserKey target \<Longrightarrow> k < ly_size L \<Longrightarrow>
      entry_ukey L k \<noteq> ExtractUserKey target"
proof -
  let ?s = "ly_restarts L ! r" and ?u = "ExtractUserKey target"
  note tells = in_r [rule_format] and less = scanned [rule_format]
  have order: "entry_ukey L i = ?u" if "i \<le> i'" "i' < ly_size L" "entry_ukey L i' = ?u"
    "key_cmp ucmp L target (entry_key L i) \<ge> 0" for i i'
    using uk that unfolding ukeys_ordered_def by blast
  have all_less: "key_cmp ucmp L target (entry_key L t) < 0" if "t < j" "?s < j" for t
  proof (cases "?s \<le> t")
    case True
    then show ?thesis using less that(1) by blast
  next
    case False
    have "key_cmp ucmp L target (entry_key L (j - 1)) < 0" using less [of "j - 1"] that(2) by simp
    then show ?thesis
      using data_parser.not_less_after [OF ord, of t "j - 1"] that j(3) by simp
  qed
  show "k = j" if "j = ly_size L"
  proof (cases "?s < j")
    case True
    have "first_at_least ucmp L target j" using all_less True that by (simp add: first_at_least_def)
    then show ?thesis using first_at_least_unique [OF k] by blast
  next
    case False
    then have "ly_size L = 0" using layout_ok_restart(1) [OF L r] j(1) that by (auto simp: max_def split: if_splits)
    then show ?thesis using k that by (simp add: first_at_least_def)
  qed
  show "k = j" if jn: "j < ly_size L" and ju: "entry_ukey L j = ?u"
  proof -
    have "j < interval_end L r" using interval_of_end(2) [OF L tells [OF jn ju] jn] .
    then have ge_j: "key_cmp ucmp L target (entry_key L j) \<ge> 0" using ge by blast
    have "key_cmp ucmp L target (entry_key L t) < 0" if "t < j" for t
    proof (rule ccontr)
      assume "\<not> key_cmp ucmp L target (entry_key L t) < 0"
      then have "entry_ukey L t = ?u" using order [OF _ jn ju, of t] \<open>t < j\<close> by simp
      then have "?s \<le> t" using interval_of_end(1) [OF L tells] \<open>t < j\<close> jn by simp
      then show False using less [of t] \<open>t < j\<close> \<open>\<not> _\<close> by blast
    qed
    then have "first_at_least ucmp L target j" using ge_j jn by (simp add: first_at_least_def)
    then show ?thesis using first_at_least_unique [OF k] by blast
  qed
  show "entry_ukey L k \<noteq> ?u" if jn: "j < ly_size L" and ju: "entry_ukey L j \<noteq> ?u" and kn: "k < ly_size L"
  proof
    assume ku: "entry_ukey L k = ?u"
    have ge_k: "key_cmp ucmp L target (entry_key L k) \<ge> 0" using k kn by (simp add: first_at_least_def)
    have sk: "?s \<le> k" "k < interval_end L r" using interval_of_end [OF L tells [OF kn ku] kn] by blast+
    then have "j \<le> k" using less [of k] ge_k by (meson leD leI)
    then have "entry_ukey L j = ?u" using order [OF _ kn ku, of j] ge sk(2) by simp
    then show False using ju by contradiction
  qed
qed

text \<open>The part of \<open>SeekForGetImpl\<close> behind the scan of the restart interval.\<close>

definition after_scan ::
    "(slice \<Rightarrow> slice \<Rightarrow> int) \<Rightarrow> slice \<Rightarrow> data_block_iter \<Rightarrow> (bool \<times> data_block_iter) option" where
  "after_scan ucmp target it =
     (if bi_current it = bi_restarts it then Some (True, it)
      else if ucmp (GetUserKey (bi_raw_key it)) (ExtractUserKey target) \<noteq> 0 then Some (False, it)
      else
        let t = ExtractValueType (GetInternalKey (bi_raw_key it)) in
        if t \<noteq> kTypeValue \<and> t \<noteq> kTypeDeletion \<and> t \<noteq> kTypeMerge \<and> t \<noteq> kTypeSingleDeletion \<and>
           t \<noteq> kTypeBlobIndex \<and> t \<noteq> kTypeWideColumnEntity \<and> t \<noteq> kTypeValuePreferredSeqno
        then (case Data_SeekImpl ucmp target it of None \<Rightarrow> None | Some it \<Rightarrow> Some (True, it))
        else Some (True, it))"

lemma Data_SeekImpl_posn:
  assumes "layout_ok entry_bytes L" and "ordered_for ucmp L target" and "data_posn L it i"
    and "first_at_least ucmp L target k"
  shows "\<exists>it'. Data_SeekImpl ucmp target it = Some it' \<and> data_posn L it' k"
  using data_parser.Seek_posn [OF assms(1-3)] first_at_least_unique [OF assms(4)]
  unfolding Data_SeekImpl_def by metis

lemma SeekForGetImpl_interval:
  fixes target :: slice and ucmp :: "slice \<Rightarrow> slice \<Rightarrow> int"
  assumes L: "layout_ok entry_bytes L" and p: "data_posn L it i"
    and hash: "bi_hash_index it = Some nb" and few: "length (ly_restarts L) \<le> 254"
  defines "u \<equiv> ExtractUserKey target"
  defines "e \<equiv> DataBlockHashIndex_Lookup nb (block_data it) (bi_restarts it + bi_num_restarts it * 4) u"
  assumes tells: "bucket_tells (ly_restarts L) (entry_ukey L) (ly_size L) u e" and e: "e \<noteq> kCollision"
  shows "\<exists>r it' j. SeekForGetImpl ucmp target it = after_scan ucmp target it' \<and> data_posn L it' j \<and>
    (\<forall>i<ly_size L. entry_ukey L i = u \<longrightarrow> interval_of (ly_restarts L) i = r) \<and> r < length (ly_restarts L) \<and>
    ly_restarts L ! r \<le> j \<and> j \<le> interval_end L r \<and>
    (\<forall>t. ly_restarts L ! r \<le> t \<longrightarrow> t < j \<longrightarrow> key_cmp ucmp L target (entry_key L t) < 0) \<and>
    (j < interval_end L r \<longrightarrow> key_cmp ucmp L target (entry_key L j) \<ge> 0)"
proof -
  define r where "r = unat (if e = kNoEntry then of_nat (bi_num_restarts it - 1) else e)"
  have num: "bi_num_restarts it = length (ly_restarts L)"
    using data_parser.posn_in_block [OF p] unfolding in_block_def by blast
  obtain m where m: "length (ly_restarts L) = Suc m" using layout_okD(1) [OF L] by (cases "ly_restarts L") auto
  then have "unat (of_nat m :: byte) = m" using few by (intro unat_of_nat_small) simp
  then have r: "r < length (ly_restarts L)"
    using tells e m unfolding r_def bucket_tells_def num by (cases "e = kNoEntry") simp_all
  have in_r: "\<forall>i<ly_size L. entry_ukey L i = u \<longrightarrow> interval_of (ly_restarts L) i = r"
    using tells e unfolding r_def bucket_tells_def by auto
  define it2 where "it2 = (let it1 = SeekToRestartPoint r it in it1\<lparr>bi_current := GetRestartPoint r it1\<rparr>)"
  define limit where
    "limit = (if r + 1 < bi_num_restarts it2 then GetRestartPoint (r + 1) it2 else bi_restarts it2)"
  have "SeekForGetImpl ucmp target it = after_scan ucmp target it'"
    if "scan_interval ucmp target limit it2 = Some it'" for it'
    using e that unfolding SeekForGetImpl_def hash option.sel u_def [symmetric] e_def [symmetric] Let_def
      r_def [symmetric] it2_def limit_def after_scan_def by simp
  then show ?thesis
    using interval_scan [OF L p r, of ucmp target] r in_r unfolding limit_def it2_def Let_def by metis
qed

lemma SeekForGetImpl_spec:
  assumes L: "layout_ok entry_bytes L" and user: "\<not> ly_user L" and p: "data_posn L it i"
    and hash: "bi_hash_index it = Some nb" and few: "length (ly_restarts L) \<le> 254"
    and tells: "bucket_tells (ly_restarts L) (entry_ukey L) (ly_size L) (ExtractUserKey target)
      (DataBlockHashIndex_Lookup nb (block_data it) (bi_restarts it + bi_num_restarts it * 4)
        (ExtractUserKey target))"
    and ord: "ordered_for ucmp L target" and uk: "ukeys_ordered ucmp L target"
    and k: "first_at_least ucmp L target k"
  shows "\<exists>res it'. SeekForGetImpl ucmp target it = Some (res, it') \<and> (res \<longrightarrow> data_posn L it' k) \<and>
    (\<not> res \<longrightarrow> k < ly_size L \<longrightarrow> entry_ukey L k \<noteq> ExtractUserKey target)"
proof -
  let ?u = "ExtractUserKey target"
  let ?e = "DataBlockHashIndex_Lookup nb (block_data it) (bi_restarts it + bi_num_restarts it * 4) ?u"
  show ?thesis
  proof (cases "?e = kCollision")
    case True
    obtain it' where "Data_SeekImpl ucmp target it = Some it'" "data_posn L it' k"
      using Data_SeekImpl_posn [OF L ord p k] by blast
    moreover from this have "SeekForGetImpl ucmp target it = Some (True, it')"
      using True by (simp add: SeekForGetImpl_def hash Let_def)
    ultimately show ?thesis by blast
  next
    case False
    obtain r it' j where scan: "SeekForGetImpl ucmp target it = after_scan ucmp target it'" "data_posn L it' j"
      "\<forall>i<ly_size L. entry_ukey L i = ?u \<longrightarrow> interval_of (ly_restarts L) i = r" "r < length (ly_restarts L)"
      "ly_restarts L ! r \<le> j" "j \<le> interval_end L r"
      "\<forall>t. ly_restarts L ! r \<le> t \<longrightarrow> t < j \<longrightarrow> key_cmp ucmp L target (entry_key L t) < 0"
      "j < interval_end L r \<longrightarrow> key_cmp ucmp L target (entry_key L j) \<ge> 0"
      using SeekForGetImpl_interval [OF L p hash few tells False, of ucmp] by blast
    have jn: "j \<le> ly_size L" using scan(2) by (auto simp: posn_def split: if_splits)
    note result = SeekForGet_scan_end [OF L ord uk scan(3-6) jn scan(7,8) k]
    show ?thesis
    proof (cases "j = ly_size L")
      case True
      then have "bi_current it' = bi_restarts it'" using scan(2) by (simp add: posn_def at_end_def)
      then show ?thesis using scan(1,2) result(1) True by (auto simp: after_scan_def)
    next
      case False
      then have jl: "j < ly_size L" using jn by simp
      then have at: "at_entry entry_bytes L it' j" using scan(2) by (simp add: posn_def)
      then have cur: "bi_current it' \<noteq> bi_restarts it'"
        using at_entry_Valid [OF L at] by (simp add: Block_Valid_def)
      have eq: "ucmp (entry_ukey L j) ?u = 0 \<longleftrightarrow> entry_ukey L j = ?u"
        using uk jl unfolding ukeys_ordered_def by blast
      obtain it'' where "Data_SeekImpl ucmp target it' = Some it''" "data_posn L it'' k"
        using Data_SeekImpl_posn [OF L ord scan(2) k] by blast
      then show ?thesis
        using scan(1,2) cur eq result(2,3) [OF jl] unfolding after_scan_def GetUserKey_entry [OF at user]
        by (cases "entry_ukey L j = ?u") (auto simp: Let_def)
    qed
  qed
qed

lemma ExtractUserKey_exposed [simp]: "ExtractUserKey (exposed_key seqno k) = ExtractUserKey k"
  by (simp add: exposed_key_def AppendInternalKeyFooter_def PutFixed64_def ExtractUserKey_footer)

lemma InternalKeyCompare_user_le:
  "InternalKeyCompare ucmp a b \<le> 0 \<Longrightarrow> ucmp (ExtractUserKey a) (ExtractUserKey b) \<le> 0"
  "InternalKeyCompare ucmp a b \<ge> 0 \<Longrightarrow> ucmp (ExtractUserKey a) (ExtractUserKey b) \<ge> 0"
  by (auto simp: InternalKeyCompare_footer Let_def split: if_splits)

lemma ukeys_ordered_sorted:
  assumes ucmp: "user_comparator ucmp valid" and user: "\<not> ly_user L"
    and eq: "\<And>a b. valid a \<Longrightarrow> valid b \<Longrightarrow> ucmp a b = 0 \<Longrightarrow> a = b"
    and sorted: "sorted_wrt (\<lambda>x y. InternalKeyCompare ucmp (fst x) (fst y) < 0) (layout_entries L)"
    and valid: "\<And>x. x \<in> set (layout_entries L) \<Longrightarrow> internal_valid valid (fst x)"
    and t: "internal_valid valid t"
  shows "ukeys_ordered ucmp L t"
proof -
  let ?key = "\<lambda>i. exposed_key (ly_seqno L) (entry_key L i)" and ?u = "ExtractUserKey t"
  have "layout_entries L ! i \<in> set (layout_entries L)" "fst (layout_entries L ! i) = ?key i" if "i < ly_size L" for i
    using that by (simp_all add: layout_entries_def)
  then have v: "valid (entry_ukey L i)" if "i < ly_size L" for i
    using valid that by (fastforce simp: internal_valid_def entry_ukey_def)
  have vt: "valid ?u" using t by (simp add: internal_valid_def)
  have less: "ucmp (entry_ukey L i) (entry_ukey L j) \<le> 0" if "i < j" "j < ly_size L" for i j
    using sorted_wrt_nth_less [OF sorted, of i j] that InternalKeyCompare_user_le(1) [of ucmp "?key i" "?key j"]
    by (simp add: layout_entries_def entry_ukey_def)
  have refl: "ucmp ?u ?u = 0" using user_comparator.cmp_self [OF ucmp vt] .
  show ?thesis
    unfolding ukeys_ordered_def
  proof (intro conjI allI impI)
    fix i assume "i < ly_size L"
    then show "ucmp (entry_ukey L i) ?u = 0 \<longleftrightarrow> entry_ukey L i = ?u" using eq v vt refl by auto
  next
    fix i j assume i: "i \<le> j" "j < ly_size L" "entry_ukey L j = ?u" "0 \<le> key_cmp ucmp L t (entry_key L i)"
    then have "ucmp (entry_ukey L i) ?u \<ge> 0"
      using InternalKeyCompare_user_le(2) [of ucmp "?key i" t] key_cmp_exposed [OF user, of ucmp t]
      by (simp add: entry_ukey_def)
    moreover have "ucmp (entry_ukey L i) ?u \<le> 0" using less [of i j] i refl by (cases "i = j") auto
    ultimately show "entry_ukey L i = ?u" using eq v [of i] vt i by simp
  qed
qed

lemma written_lookup:
  fixes seqno :: u64 and ts :: nat and persisted :: bool
  assumes b: "builds b es rs kvs" and h: "hashed b rs kvs" and size: "length (fst (bb_Finish b)) < 2 ^ 32"
  defines "L \<equiv> built_layout es rs ts persisted seqno"
  defines "it \<equiv> NewDataIterator (Block (fst (bb_Finish b))) ts seqno persisted DataBlockIter"
  assumes ukey: "\<And>i. i < length kvs \<Longrightarrow> entry_ukey L i = ExtractUserKey (fst (kvs ! i))"
    and nb: "bi_hash_index it = Some nb"
  shows "length (ly_restarts L) \<le> 254"
    and "bucket_tells (ly_restarts L) (entry_ukey L) (ly_size L) u
      (DataBlockHashIndex_Lookup nb (block_data it) (bi_restarts it + bi_num_restarts it * 4) u)"
proof -
  have "finished_buckets b \<noteq> 0" and nb': "nb = finished_buckets b"
    using nb NewDataIterator_posn(2) [OF b size, of ts seqno persisted] by (auto simp: it_def split: if_splits)
  then have t: "finished_type b = kDataBlockBinaryAndHash" by (simp add: finished_buckets_def split: if_splits)
  then show "length (ly_restarts L) \<le> 254"
    using h by (auto simp: hashed_def finished_type_def L_def built_layout_def split: if_splits)
  have "in_block entry_bytes L it"
    unfolding L_def it_def by (rule data_parser.posn_in_block [OF NewDataIterator_posn(1) [OF b size]])
  then have num: "bi_num_restarts it = length rs" and off: "bi_restarts it = length (bb_buffer b)"
    using b unfolding in_block_def builds_def L_def built_layout_def by (simp_all add: entry_off_def)
  have d: "block_data it = fst (bb_Finish b)" using NewDataIterator_posn(3) [OF b size] by (simp add: it_def)
  have len: "length es = length kvs" using b unfolding builds_def by blast
  show "bucket_tells (ly_restarts L) (entry_ukey L) (ly_size L) u
      (DataBlockHashIndex_Lookup nb (block_data it) (bi_restarts it + bi_num_restarts it * 4) u)"
    using hash_lookup [OF b h t, of u] ukey len
    unfolding d num off nb' finished_buckets_def t bucket_tells_def
    by (simp add: L_def built_layout_def)
qed

lemma SeekForGet_layout:
  assumes L: "layout_ok entry_bytes L" and user: "\<not> ly_user L" and p: "data_posn L it i"
    and ord: "ordered_for ucmp L t" and uk: "ukeys_ordered ucmp L t"
    and few: "\<And>nb. bi_hash_index it = Some nb \<Longrightarrow> length (ly_restarts L) \<le> 254"
    and tells: "\<And>nb. bi_hash_index it = Some nb \<Longrightarrow>
      bucket_tells (ly_restarts L) (entry_ukey L) (ly_size L) (ExtractUserKey t)
        (DataBlockHashIndex_Lookup nb (block_data it) (bi_restarts it + bi_num_restarts it * 4) (ExtractUserKey t))"
  shows "\<exists>res it'. SeekForGet ucmp t it = Some (res, it') \<and>
    (let found = cursor_view (layout_entries L)
           (cursor_step (InternalKeyCompare ucmp) (layout_entries L) (Seek_op t) 0)
     in if res then data_view it' = found
        else pred_option (\<lambda>(k, v). ExtractUserKey k \<noteq> ExtractUserKey t) found)"
proof -
  obtain its k where seek: "Data_SeekImpl ucmp t it = Some its" "data_posn L its k"
    and k: "first_at_least ucmp L t k"
    using data_parser.Seek_posn [OF L ord p] unfolding Data_SeekImpl_def by blast
  have pos: "cursor_step (InternalKeyCompare ucmp) (layout_entries L) (Seek_op t) 0 = k"
    using seek_position [OF k user] by simp
  have view: "data_view (UpdateKey it') = cursor_view (layout_entries L) k" if "data_posn L it' k" for it'
    using UpdateKey_shows [OF L user that] by (simp add: shows_entry_def)
  show ?thesis
  proof (cases "bi_hash_index it")
    case None
    then show ?thesis using seek view unfolding pos by (auto simp: SeekForGet_def)
  next
    case (Some nb)
    obtain res it' where res: "SeekForGetImpl ucmp t it = Some (res, it')" "res \<longrightarrow> data_posn L it' k"
      "\<not> res \<longrightarrow> k < ly_size L \<longrightarrow> entry_ukey L k \<noteq> ExtractUserKey t"
      using SeekForGetImpl_spec [OF L user p Some few [OF Some] tells [OF Some] ord uk k] by blast
    have "pred_option (\<lambda>(k, v). ExtractUserKey k \<noteq> ExtractUserKey t) (cursor_view (layout_entries L) k)"
      if "\<not> res"
      using res(3) that by (simp add: cursor_view_def layout_entries_def entry_ukey_def)
    then show ?thesis using res view Some unfolding pos by (auto simp: SeekForGet_def Let_def)
  qed
qed

text \<open>
  C4: A point lookup agrees with a seek. On a freshly opened data block, with or without a hash
  index, \<open>SeekForGet\<close> returns. When it returns true, the iterator shows what \<open>Seek\<close> to the same
  target shows: the first entry that is not less than the target, or the end of the block. When it
  returns false, the entry a seek would find is not a version of the target's user key, so the
  block has no answer. The comparator must tell keys with different bytes apart, and timestamps
  must not have been stripped from the keys, since the index hashes the bytes of a key.
\<close>

theorem SeekForGet_agrees_with_Seek:
  assumes "user_comparator ucmp valid" and "\<And>a b. valid a \<Longrightarrow> valid b \<Longrightarrow> ucmp a b = 0 \<Longrightarrow> a = b"
    and "0 < interval" and "ts \<le> 8" and "ts = 0 \<or> persisted"
    and "\<And>k v s. (k, v, s) \<in> set kvs \<Longrightarrow> kNumInternalBytes + ts \<le> length k \<and> length k < 2 ^ 32"
    and "length (write_block interval delta index_type buckets ts persisted kvs) < 2 ^ 32"
    and "sorted_wrt (\<lambda>x y. InternalKeyCompare ucmp (fst x) (fst y) < 0)
      (block_contents ts seqno persisted kvs)"
    and "\<And>x. x \<in> set (block_contents ts seqno persisted kvs) \<Longrightarrow> internal_valid valid (fst x)"
    and "internal_valid valid t"
  shows "\<exists>res it. SeekForGet ucmp t
      (open_block (write_block interval delta index_type buckets ts persisted kvs) ts seqno persisted) = Some (res, it) \<and>
    (let found = cursor_view (block_contents ts seqno persisted kvs)
           (cursor_step (InternalKeyCompare ucmp) (block_contents ts seqno persisted kvs) (Seek_op t) 0)
     in if res then data_view it = found
        else pred_option (\<lambda>(k, v). ExtractUserKey k \<noteq> ExtractUserKey t) found)"
proof -
  let ?b = "BlockBuilder interval delta False index_type buckets ts persisted False"
  let ?it = "open_block (write_block interval delta index_type buckets ts persisted kvs) ts seqno persisted"
  have "\<not> use_value_delta_encoding ?b" "0 < block_restart_interval ?b"
    using assms(3) by (simp_all add: BlockBuilder_def)
  then obtain es rs where b: "builds (add_all kvs ?b) es rs kvs" "hashed (add_all kvs ?b) rs kvs"
    using builds_hashed_add_all [OF builds_new hashed_new] by blast
  let ?L = "built_layout es rs ts persisted seqno"
  have user: "\<not> ly_user ?L" and sz: "ly_size ?L = length es" by (simp_all add: built_layout_def)
  have L: "layout_ok entry_bytes ?L" "shows_entry ?L ?it (length es)"
    "layout_entries ?L = block_contents ts seqno persisted kvs"
    using written_block_layout [OF assms(3,4) _ assms(7) b(1), of seqno] assms(6) by blast+
  have ukey: "entry_ukey ?L i = ExtractUserKey (fst (kvs ! i))" if "i < length kvs" for i
  proof -
    have "length es = length kvs" using b(1) unfolding builds_def by blast
    then have "ExtractUserKey (fst (layout_entries ?L ! i)) = entry_ukey ?L i"
      using that sz by (simp add: layout_entries_def entry_ukey_def)
    then show ?thesis
      using that assms(5) unfolding L(3) by (auto simp: block_contents_def block_key_def split: prod.splits)
  qed
  have size: "length (fst (bb_Finish (add_all kvs ?b))) < 2 ^ 32" using assms(7) by (simp add: write_block_def)
  have it: "?it = NewDataIterator (Block (fst (bb_Finish (add_all kvs ?b)))) ts seqno persisted DataBlockIter"
    by (simp add: open_block_def write_block_def)
  have p: "data_posn ?L ?it (length es)" using L(2) by (simp add: shows_entry_def)
  show ?thesis
    unfolding L(3) [symmetric]
  proof (rule SeekForGet_layout [OF L(1) user p])
    show "ordered_for ucmp ?L t" "ukeys_ordered ucmp ?L t"
      using ordered_for_sorted [OF assms(1) user, unfolded L(3), OF assms(8-10)]
        ukeys_ordered_sorted [OF assms(1) user assms(2), unfolded L(3), OF _ _ _ assms(8-10)] by blast+
  qed (use written_lookup [OF b size ukey, folded it] in blast)+
qed

definition lookup_kvs :: "(slice \<times> slice \<times> bool) list" where
  "lookup_kvs = [(InternalKey [97] 5 1, [1], False), (InternalKey [98] 7 1, [2], False)]"

definition lookup_builder :: block_builder where
  "lookup_builder =
     add_all lookup_kvs (BlockBuilder 1 True False kDataBlockBinaryAndHash (\<lambda>_. 3) 0 True False)"

definition lookup_block :: slice where
  "lookup_block = write_block 1 True kDataBlockBinaryAndHash (\<lambda>_. 3) 0 True lookup_kvs"

lemma lookup_hashes:
  "GetSliceHash [97] = 1552184241" "GetSliceHash [98] = 589896611"
  by code_simp+

lemma lookup_builder_facts:
  "hb_Valid (bb_hash lookup_builder)" "CurrentSizeEstimate lookup_builder = 43"
  "hb_num_buckets (bb_hash lookup_builder) = 3"
  "bb_buffer lookup_builder =
     [0, 9, 1, 97, 1, 5, 0, 0, 0, 0, 0, 0, 1, 0, 9, 1, 98, 1, 7, 0, 0, 0, 0, 0, 0, 2]"
  "bb_restarts lookup_builder = [0, 13]"
  "hash_and_restart_pairs (bb_hash lookup_builder) = [(GetSliceHash [97], 0), (GetSliceHash [98], 1)]"
  by code_simp+

lemma lookup_buckets: "hb_Finish [] (bb_hash lookup_builder) = [0, 255, 1, 3, 0]"
proof -
  have "EncodeFixed16 3 = [3, 0]" by code_simp
  moreover have "replicate 3 (255 :: byte) = [255, 255, 255]" by (simp add: numeral_3_eq_3)
  moreover have "unat (3 :: u16) = 3" by simp
  ultimately show ?thesis
    by (simp add: hb_Finish_def lookup_builder_facts lookup_hashes Let_def PutFixed16_def add_to_bucket_def
        kNoEntry_def kCollision_def)
qed

lemma lookup_builder_finish:
  "finished_type lookup_builder = kDataBlockBinaryAndHash"
  "hash_footer lookup_builder = [0, 255, 1, 3, 0]"
  using lookup_builder_facts lookup_buckets
  by (simp_all add: finished_type_def hash_footer_def kMaxBlockSizeSupportedByHashIndex_def)

lemma lookup_block_bytes:
  "lookup_block =
     [0, 9, 1, 97, 1, 5, 0, 0, 0, 0, 0, 0, 1, 0, 9, 1, 98, 1, 7, 0, 0, 0, 0, 0, 0, 2,
      0, 0, 0, 0, 13, 0, 0, 0, 0, 255, 1, 3, 0, 2, 0, 0, 128]"
proof -
  have "EncodeFixed32 0 = [0, 0, 0, 0]" "EncodeFixed32 13 = [13, 0, 0, 0]"
    "EncodeFixed32 (PackIndexTypeAndNumRestarts kDataBlockBinaryAndHash 2) = [2, 0, 0, 128]"
    by code_simp+
  then show ?thesis
    unfolding lookup_block_def write_block_def lookup_builder_def [symmetric] bb_Finish_bytes
      lookup_builder_finish lookup_builder_facts by simp
qed

lemma lookup_block_facts:
  "(k, v, s) \<in> set lookup_kvs \<Longrightarrow> kNumInternalBytes + 0 \<le> length k \<and> length k < 2 ^ 32"
  "length lookup_block < 2 ^ 32"
  "sorted_wrt (\<lambda>x y. InternalKeyCompare BytewiseCompare (fst x) (fst y) < 0)
     (block_contents 0 kDisableGlobalSequenceNumber True lookup_kvs)"
  "x \<in> set (block_contents 0 kDisableGlobalSequenceNumber True lookup_kvs) \<Longrightarrow>
     internal_valid (\<lambda>_. True) (fst x)"
proof -
  show "(k, v, s) \<in> set lookup_kvs \<Longrightarrow> kNumInternalBytes + 0 \<le> length k \<and> length k < 2 ^ 32"
    by (auto simp: lookup_kvs_def InternalKey_eq kNumInternalBytes_def)
  show "length lookup_block < 2 ^ 32" by (simp add: lookup_block_bytes)
  show "sorted_wrt (\<lambda>x y. InternalKeyCompare BytewiseCompare (fst x) (fst y) < 0)
     (block_contents 0 kDisableGlobalSequenceNumber True lookup_kvs)" by code_simp
  show "x \<in> set (block_contents 0 kDisableGlobalSequenceNumber True lookup_kvs) \<Longrightarrow>
     internal_valid (\<lambda>_. True) (fst x)"
    by (auto simp: lookup_kvs_def block_contents_def internal_valid_def block_key_def exposed_key_def InternalKey_eq)
qed

theorem SeekForGet_agrees_with_Seek_witness:
  "\<exists>it. SeekForGet BytewiseCompare (InternalKey [98] 9 1)
      (open_block lookup_block 0 kDisableGlobalSequenceNumber True) = Some (True, it) \<and>
    data_view it = Some (InternalKey [98] 7 1, [2])"
proof -
  let ?xs = "block_contents 0 kDisableGlobalSequenceNumber True lookup_kvs" and ?t = "InternalKey [98] 9 1"
  have ucmp: "user_comparator BytewiseCompare (\<lambda>_. True)" by unfold_locales
  have eq: "BytewiseCompare a b = 0 \<Longrightarrow> a = b" for a b by (simp add: BytewiseCompare_def compare_iffs)
  have t: "internal_valid (\<lambda>_. True) ?t" by (simp add: internal_valid_def InternalKey_eq)
  have lookup: "\<exists>res it. SeekForGet BytewiseCompare ?t
      (open_block lookup_block 0 kDisableGlobalSequenceNumber True) = Some (res, it) \<and>
    (let found = cursor_view ?xs (cursor_step (InternalKeyCompare BytewiseCompare) ?xs (Seek_op ?t) 0)
     in if res then data_view it = found
        else pred_option (\<lambda>(k, v). ExtractUserKey k \<noteq> ExtractUserKey ?t) found)"
    unfolding lookup_block_def
    by (rule SeekForGet_agrees_with_Seek [OF ucmp eq])
      (use lookup_block_facts t in \<open>simp_all add: lookup_block_def\<close>)
  have found: "cursor_view ?xs (cursor_step (InternalKeyCompare BytewiseCompare) ?xs (Seek_op ?t) 0) =
      Some (InternalKey [98] 7 1, [2])" by code_simp
  have "ExtractUserKey (InternalKey [98] 7 1) = ExtractUserKey ?t" by code_simp
  then show ?thesis using lookup unfolding found by (auto simp: Let_def split: if_splits)
qed

end
