(* ===== verification/Block_Termination.thy ===== *)
theory Block_Termination
  imports Block_Lookup
begin

text \<open>
  The loops of the block iterators end on blocks that need not be well formed. A parse that succeeds
  moves the end of the current entry forward, and a backward step moves the current entry
  backward, so every loop has a measure. The end of an entry is an offset of 32 bits: the decoder of
  meta blocks checks enough for it to move forward on any bytes, and that of data blocks does not,
  so that a corrupt length can make an entry its own successor.
\<close>

section \<open>Decoding moves forward\<close>

lemma decode_lengths_forward:
  assumes "decode_lengths d p limit = Some (sh, ns, vl, q)" and "p < limit"
  shows "p < q"
proof (cases "(ucast (d ! p) :: u32) OR ucast (d ! (p + 1)) OR ucast (d ! (p + 2)) < 128")
  case True
  then show ?thesis using assms by (simp add: decode_lengths_def Let_def)
next
  case False
  then obtain r1 r2 r3 where "GetVarint32Ptr (take (limit - p) (drop p d)) = Some (sh, r1)"
    "GetVarint32Ptr r1 = Some (ns, r2)" "GetVarint32Ptr r2 = Some (vl, r3)" "q = limit - length r3"
    using assms(1) by (auto simp: decode_lengths_def Let_def split: option.splits prod.splits)
  then show ?thesis
    using GetVarint32Ptr_shrinks [of "take (limit - p) (drop p d)" sh r1] GetVarint32Ptr_shrinks [of r1 ns r2]
      GetVarint32Ptr_shrinks [of r2 vl r3] assms(2) by (simp, linarith)
qed

lemma decode_lengths_le:
  assumes "decode_lengths d p limit = Some (sh, ns, vl, q)" and "p + 3 \<le> limit"
  shows "q \<le> limit"
  using assms by (auto simp: decode_lengths_def Let_def split: option.splits prod.splits if_splits)

text \<open>The 32-bit offset behind an entry, and that it is behind the start of every entry.\<close>

definition end_offset :: "decoded_entry \<Rightarrow> nat" where
  "end_offset e = (case e of (_, non_shared, value_length, q) \<Rightarrow>
     unat (of_nat (q + unat non_shared + unat value_length) :: u32))"

definition entries_advance ::
    "(slice \<Rightarrow> nat \<Rightarrow> nat \<Rightarrow> decoded_entry option) \<Rightarrow> slice \<Rightarrow> nat \<Rightarrow> bool" where
  "entries_advance decode d limit \<longleftrightarrow>
     list_all (\<lambda>p. case decode d p limit of None \<Rightarrow> True | Some e \<Rightarrow> p < end_offset e) [0..<limit]"

lemma entries_advanceD:
  "entries_advance decode d limit \<Longrightarrow> p < limit \<Longrightarrow> decode d p limit = Some e \<Longrightarrow> p < end_offset e"
  by (force simp: entries_advance_def list_all_iff)

text \<open>An entry of a data block moves forward when it ends below 4 GiB.\<close>

lemma end_offset_exact:
  assumes "q + unat ns + unat vl < 2 ^ 32"
  shows "end_offset (sh, ns, vl, q) = q + unat ns + unat vl"
  using assms by (simp only: end_offset_def prod.case) (rule unat_of_nat_small, simp)

lemma DecodeEntry_forward:
  assumes "DecodeEntry d p limit = Some (sh, ns, vl, q)" and "p < limit" and "q + unat ns + unat vl < 2 ^ 32"
  shows "p < end_offset (sh, ns, vl, q)"
  using end_offset_exact [OF assms(3)] decode_lengths_forward [of d p limit sh ns vl q] assms(1,2)
  by (simp add: DecodeEntry_def)

lemma CheckAndDecodeEntry_forward:
  assumes "CheckAndDecodeEntry d p limit = Some (sh, ns, vl, q)" and "limit < 2 ^ 32"
  shows "p < end_offset (sh, ns, vl, q)"
proof -
  have dec: "decode_lengths d p limit = Some (sh, ns, vl, q)" and three: "p + 3 \<le> limit"
    and room: "\<not> (of_nat (limit - q) :: u32) < ns + vl"
    using assms(1) by (auto simp: CheckAndDecodeEntry_def split: if_splits option.splits)
  have q: "p < q" "q \<le> limit"
    using decode_lengths_forward [OF dec] decode_lengths_le [OF dec three] three by simp_all
  have "unat (of_nat (limit - q) :: u32) = limit - q" using assms(2) by (intro unat_of_nat_small) simp
  then have le: "q + unat (ns + vl) \<le> limit" using room q(2) by (simp add: word_less_nat_alt)
  have "(of_nat (q + unat ns + unat vl) :: u32) = of_nat (q + unat (ns + vl))" by (simp add: add.assoc)
  moreover have "unat (of_nat (q + unat (ns + vl)) :: u32) = q + unat (ns + vl)"
    using le assms(2) by (intro unat_of_nat_small) simp
  ultimately have "end_offset (sh, ns, vl, q) = q + unat (ns + vl)"
    by (simp only: end_offset_def prod.case)
  then show ?thesis using q(1) by simp
qed

lemma checked_entries_advance: "limit < 2 ^ 32 \<Longrightarrow> entries_advance CheckAndDecodeEntry d limit"
  by (auto simp: entries_advance_def list_all_iff intro: CheckAndDecodeEntry_forward split: option.splits)

section \<open>What seeks leave alone\<close>

lemma CorruptionError_keeps [simp]:
  "block_iter.more (CorruptionError it) = block_iter.more it"
  "bi_data (CorruptionError it) = bi_data it"
  "bi_restarts (CorruptionError it) = bi_restarts it" "bi_current (CorruptionError it) = bi_restarts it"
  by (simp_all add: CorruptionError_def)

lemma UpdateRawKey_keeps [simp]:
  "block_iter.more (UpdateRawKeyAndMaybePadMinTimestamp k it) = block_iter.more it"
  "bi_data (UpdateRawKeyAndMaybePadMinTimestamp k it) = bi_data it"
  "bi_restarts (UpdateRawKeyAndMaybePadMinTimestamp k it) = bi_restarts it"
  "bi_current (UpdateRawKeyAndMaybePadMinTimestamp k it) = bi_current it"
  by (simp_all add: UpdateRawKeyAndMaybePadMinTimestamp_def)

definition same_block :: "'a block_iter_scheme \<Rightarrow> 'a block_iter_scheme \<Rightarrow> bool" where
  "same_block it it' \<longleftrightarrow>
     bi_data it' = bi_data it \<and> bi_restarts it' = bi_restarts it \<and> block_iter.more it' = block_iter.more it"

lemma same_block_refl [simp]: "same_block it it"
  and same_block_trans: "same_block it it1 \<Longrightarrow> same_block it1 it2 \<Longrightarrow> same_block it it2"
  by (simp_all add: same_block_def)

lemma SeekToRestartPoint_same [simp]: "same_block it (SeekToRestartPoint index it)"
  by (simp add: same_block_def SeekToRestartPoint_def Let_def)

lemma BinarySeek_loop_same:
  "same_block it (snd (BinarySeek_loop ucmp decode_key target left right skip it))"
proof (induction "nat (right - left)" arbitrary: left right skip it rule: less_induct)
  case less
  define mid where "mid = left + (right - left + 1) div 2"
  have m: "nat (right - mid) < nat (right - left)" "nat (mid - 1 - left) < nat (right - left)"
    "nat (mid - mid) < nat (right - left)" if "left < right"
    using that by (auto simp: mid_def)
  show ?case
  proof (cases "left < right")
    case False
    then show ?thesis by (subst BinarySeek_loop.simps) simp
  next
    case True
    note IH = less [OF m(1) [OF True]] less [OF m(2) [OF True]] less [OF m(3) [OF True]]
    show ?thesis
    proof (cases "decode_key (block_data it) (GetRestartPoint (nat mid) it) (bi_restarts it)")
      case None
      then show ?thesis using True by (subst BinarySeek_loop.simps) (simp add: Let_def same_block_def flip: mid_def)
    next
      case (Some e)
      obtain sh ns q where "e = (sh, ns, q)" by (cases e)
      then show ?thesis
        using True Some IH by (subst BinarySeek_loop.simps) (simp add: Let_def same_block_def flip: mid_def)
    qed
  qed
qed

lemma BinarySeek_same: "BinarySeek ucmp decode_key target it = (r, it') \<Longrightarrow> same_block it it'"
  using BinarySeek_loop_same [of it ucmp decode_key target "-1" "int (bi_num_restarts it) - 1" False]
  by (auto simp: BinarySeek_def split: if_splits)

lemma NextEntryOffset_restart: "NextEntryOffset (SeekToRestartPoint index it) = GetRestartPoint index it"
proof -
  have "GetRestartPoint index it mod 2 ^ 32 = GetRestartPoint index it"
    unfolding GetRestartPoint_def using unsigned_less [of "DecodeFixed32 _", where 'a = nat] by (intro mod_less) simp
  then show ?thesis by (simp add: SeekToRestartPoint_def NextEntryOffset_mod GetRestartPoint_def Let_def)
qed

lemma restart_before_less:
  "restart_before original r it = Some index \<Longrightarrow> NextEntryOffset (SeekToRestartPoint index it) < original"
proof (induction r)
  case 0
  then show ?case by (subst (asm) restart_before.simps) (auto simp: NextEntryOffset_restart split: if_splits)
next
  case (Suc r)
  then show ?case by (subst (asm) (2) restart_before.simps) (auto simp: NextEntryOffset_restart split: if_splits)
qed

section \<open>Parsers that move forward\<close>

text \<open>\<open>good\<close> are the blocks, given by their bytes and \<open>restarts_\<close>, on which parsing moves forward.\<close>

locale advancing_parser =
  fixes parse :: "'a block_iter_scheme \<Rightarrow> bool \<times> 'a block_iter_scheme"
    and good :: "slice option \<Rightarrow> nat \<Rightarrow> bool"
  assumes parse_moves: "good (bi_data it) (bi_restarts it) \<Longrightarrow> parse it = (True, it') \<Longrightarrow>
      bi_current it' = NextEntryOffset it \<and> NextEntryOffset it < bi_restarts it \<and>
      NextEntryOffset it < NextEntryOffset it'"
    and parse_stops: "parse it = (False, it') \<Longrightarrow> bi_current it' = bi_restarts it"
    and parse_keeps: "parse it = (b, it') \<Longrightarrow> same_block it it'"
begin

abbreviation on_good :: "'a block_iter_scheme \<Rightarrow> bool" where
  "on_good it \<equiv> good (bi_data it) (bi_restarts it)"

lemma same_block_good: "same_block it it' \<Longrightarrow> on_good it \<Longrightarrow> on_good it'"
  by (simp add: same_block_def)

lemma parse_measure:
  assumes "on_good it" and "parse it = (True, it1)"
  shows "bi_restarts it1 - NextEntryOffset it1 < bi_restarts it - NextEntryOffset it"
    and "bi_current it1 = NextEntryOffset it" and "on_good it1" and "same_block it it1"
  using parse_moves [OF assms] parse_keeps [OF assms(2)] same_block_good [OF _ assms(1)]
  by (auto simp: same_block_def)

lemma parse_while_returns:
  "on_good it \<Longrightarrow> \<exists>it'. parse_while parse cond it = Some it' \<and> same_block it it'"
proof (induction "bi_restarts it - NextEntryOffset it" arbitrary: it rule: less_induct)
  case less
  obtain b it1 where p: "parse it = (b, it1)" by (cases "parse it")
  note step = parse_while.simps [of parse cond it]
  show ?case
  proof (cases "b \<and> cond it1")
    case False
    then show ?thesis using parse_keeps [OF p] by (subst step) (auto simp: p)
  next
    case True
    then have t: "parse it = (True, it1)" using p by simp
    note m = parse_measure [OF less.prems t]
    show ?thesis
      using less.hyps [OF m(1,3)] True same_block_trans [OF m(4)] by (subst step) (auto simp: p)
  qed
qed

lemma parse_while_before:
  assumes "parse_while parse (\<lambda>it. NextEntryOffset it < original) it = Some it'"
    and "NextEntryOffset it < original" and "on_good it"
  shows "Block_Valid it' \<longrightarrow> bi_current it' < original"
  using assms
proof (induction "bi_restarts it - NextEntryOffset it" arbitrary: it rule: less_induct)
  case less
  obtain b it1 where p: "parse it = (b, it1)" by (cases "parse it")
  note step = parse_while.simps [of parse "\<lambda>it. NextEntryOffset it < original" it]
  show ?case
  proof (cases b)
    case False
    then show ?thesis
      using less.prems(1) parse_stops [of it it1] parse_keeps [OF p] p
      by (subst (asm) step) (simp add: Block_Valid_def same_block_def)
  next
    case True
    then have t: "parse it = (True, it1)" using p by simp
    note m = parse_measure [OF less.prems(3) t]
    show ?thesis
      using less.hyps [OF m(1) _ _ m(3)] less.prems m(2) True
      by (cases "NextEntryOffset it1 < original") (subst (asm) step, simp add: p, subst (asm) step, simp add: p)
  qed
qed

lemma linear_scan_returns:
  "on_good it \<Longrightarrow> \<exists>it'. linear_scan ucmp parse target max_offset it = Some it' \<and> same_block it it'"
proof (induction "bi_restarts it - NextEntryOffset it" arbitrary: it rule: less_induct)
  case less
  obtain b it1 where p: "parse it = (b, it1)" by (cases "parse it")
  note step = linear_scan.simps [of ucmp parse target max_offset it]
  show ?case
  proof (cases "Block_Valid it1 \<and> bi_current it1 \<noteq> max_offset \<and> CompareCurrentKey ucmp target it1 < 0")
    case False
    then show ?thesis using parse_keeps [OF p] by (subst step) (auto simp: p Let_def)
  next
    case True
    then have b using parse_stops [of it it1] parse_keeps [OF p] p
      by (cases b) (auto simp: Block_Valid_def same_block_def)
    then have t: "parse it = (True, it1)" using p by simp
    note m = parse_measure [OF less.prems t]
    show ?thesis
      using less.hyps [OF m(1,3)] True same_block_trans [OF m(4)] by (subst step) (auto simp: p Let_def)
  qed
qed

lemma SeekToLast_returns:
  assumes "on_good it"
  shows "\<exists>it'. SeekToLast_parse parse it = Some it' \<and> same_block it it'"
proof -
  let ?it = "SeekToRestartPoint (bi_num_restarts it - 1) it"
  have same: "same_block it ?it" by simp
  show ?thesis
    using parse_while_returns [OF same_block_good [OF same assms], of "\<lambda>it. NextEntryOffset it < bi_restarts it"]
      same_block_trans [OF same]
    by (auto simp: SeekToLast_parse_def)
qed

lemma PrevImpl_uncached_returns:
  assumes "on_good it"
  shows "\<exists>it'. PrevImpl_uncached parse it = Some it' \<and> same_block it it' \<and>
     (Block_Valid it' \<longrightarrow> bi_current it' < bi_current it)"
proof (cases "restart_before (bi_current it) (bi_restart_index it) it")
  case None
  then show ?thesis by (simp add: PrevImpl_uncached_def no_more_entries_def Block_Valid_def same_block_def)
next
  case (Some index)
  let ?it = "SeekToRestartPoint index it" and ?cond = "\<lambda>it'. NextEntryOffset it' < bi_current it"
  have same: "same_block it ?it" by simp
  note g = same_block_good [OF same assms]
  have "NextEntryOffset ?it < bi_current it" using restart_before_less [OF Some] by simp
  then show ?thesis
    using parse_while_returns [OF g, of ?cond] parse_while_before [of "bi_current it" ?it, OF _ _ g] Some
      same_block_trans [OF same]
    by (auto simp: PrevImpl_uncached_def)
qed

lemma FindKeyAfterBinarySeek_returns:
  assumes "on_good it"
  shows "\<exists>it'. FindKeyAfterBinarySeek ucmp parse target index skip it = Some it' \<and> same_block it it'"
proof -
  obtain b it1 where p: "parse (SeekToRestartPoint index it) = (b, it1)" by fastforce
  have same: "same_block it it1" using same_block_trans [OF SeekToRestartPoint_same parse_keeps [OF p]] .
  then show ?thesis
    using linear_scan_returns [OF same_block_good [OF same assms], of ucmp target] same_block_trans [OF same]
    by (fastforce simp: FindKeyAfterBinarySeek_def p Let_def)
qed

lemma Seek_returns:
  assumes "on_good it"
  shows "\<exists>it'. Seek_parse ucmp decode_key parse target it = Some it' \<and> same_block it it'"
proof -
  obtain r it1 where b: "BinarySeek ucmp decode_key target it = (r, it1)" by fastforce
  note same = BinarySeek_same [OF b]
  show ?thesis
    using FindKeyAfterBinarySeek_returns [OF same_block_good [OF same assms], of ucmp target] same
      same_block_trans [OF same]
    by (fastforce simp: Seek_parse_def b split: option.splits prod.splits)
qed

end

text \<open>An iterator whose backward step ends in front of the current entry, or nowhere.\<close>

locale descending_cursor = advancing_parser parse good
  for parse :: "'a block_iter_scheme \<Rightarrow> bool \<times> 'a block_iter_scheme" and good :: "slice option \<Rightarrow> nat \<Rightarrow> bool" +
  fixes prev :: "'a block_iter_scheme \<Rightarrow> 'a block_iter_scheme option"
    and inv :: "'a \<Rightarrow> bool"
  assumes prev_descends: "good (bi_data it) (bi_restarts it) \<Longrightarrow> inv (block_iter.more it) \<Longrightarrow> Block_Valid it \<Longrightarrow>
    \<exists>it'. prev it = Some it' \<and> inv (block_iter.more it') \<and>
      bi_data it' = bi_data it \<and> bi_restarts it' = bi_restarts it \<and>
      (Block_Valid it' \<longrightarrow> bi_current it' < bi_current it)"
begin

definition settled :: "'a block_iter_scheme \<Rightarrow> 'a block_iter_scheme \<Rightarrow> bool" where
  "settled it it' \<longleftrightarrow>
     bi_data it' = bi_data it \<and> bi_restarts it' = bi_restarts it \<and> inv (block_iter.more it')"

lemma same_block_settled: "same_block it it' \<Longrightarrow> inv (block_iter.more it) \<Longrightarrow> settled it it'"
  by (simp add: same_block_def settled_def)

lemma prev_until_le_returns:
  "on_good it \<Longrightarrow> inv (block_iter.more it) \<Longrightarrow>
   \<exists>it'. prev_until_le ucmp prev target it = Some it' \<and> settled it it'"
proof (induction "bi_current it" arbitrary: it rule: less_induct)
  case less
  note step = prev_until_le.simps [of ucmp prev target it]
  show ?case
  proof (cases "Block_Valid it \<and> CompareCurrentKey ucmp target it > 0")
    case False
    then show ?thesis using less.prems by (subst step) (auto simp: settled_def)
  next
    case True
    then obtain it1 where it1: "prev it = Some it1" "inv (block_iter.more it1)"
      "bi_data it1 = bi_data it" "bi_restarts it1 = bi_restarts it"
      "Block_Valid it1 \<longrightarrow> bi_current it1 < bi_current it"
      using prev_descends less.prems by blast
    have "\<exists>it'. prev_until_le ucmp prev target it1 = Some it' \<and> settled it1 it'"
    proof (cases "Block_Valid it1")
      case True
      then show ?thesis using less.hyps [of it1] it1 less.prems by simp
    next
      case False
      then show ?thesis using it1(2) by (subst prev_until_le.simps) (simp add: settled_def)
    qed
    then show ?thesis using True it1 by (subst step) (auto simp: settled_def)
  qed
qed

lemma SeekForPrev_returns:
  assumes "on_good it" and "inv (block_iter.more it)"
  shows "\<exists>it'. SeekForPrev_parse ucmp decode_key parse prev target it = Some it' \<and> settled it it'"
proof -
  obtain r it1 where b: "BinarySeek ucmp decode_key target it = (r, it1)" by fastforce
  note same = BinarySeek_same [OF b]
  have "\<exists>it'. (case FindKeyAfterBinarySeek ucmp parse target index skip it1 of None \<Rightarrow> None
      | Some it \<Rightarrow> if \<not> Block_Valid it then (if ok (bi_status it) then SeekToLast_parse parse it else Some it)
          else prev_until_le ucmp prev target it) = Some it' \<and> settled it it'" for index skip
  proof -
    obtain it2 where it2: "FindKeyAfterBinarySeek ucmp parse target index skip it1 = Some it2" "same_block it it2"
      using FindKeyAfterBinarySeek_returns [OF same_block_good [OF same assms(1)]] same_block_trans [OF same] by blast
    note g = same_block_good [OF it2(2) assms(1)]
    have "inv (block_iter.more it2)" using it2(2) assms(2) by (simp add: same_block_def)
    then show ?thesis
      using it2 SeekToLast_returns [OF g] prev_until_le_returns [OF g, of ucmp target] assms(2)
      by (auto simp: settled_def same_block_def)
  qed
  then show ?thesis
    using same_block_settled [OF same assms(2)] same_block_settled [OF same_block_refl assms(2)]
    by (auto simp: SeekForPrev_parse_def b split: option.splits prod.splits)
qed

end

section \<open>Every operation returns\<close>

lemma advance_restart_index_keeps [simp]:
  "bi_current (advance_restart_index it) = bi_current it"
  "bi_data (advance_restart_index it) = bi_data it"
  "bi_restarts (advance_restart_index it) = bi_restarts it"
  "bi_value (advance_restart_index it) = bi_value it"
  "block_iter.more (advance_restart_index it) = block_iter.more it"
  using advance_restart_index_cases [of it] by auto

lemma ParseNextKey_cases:
  assumes parse: "ParseNextKey decode it = (success, sh, it')"
  shows "(if success
     then bi_current it' = NextEntryOffset it \<and> NextEntryOffset it < bi_restarts it \<and>
       (\<exists>e. decode (block_data it) (NextEntryOffset it) (bi_restarts it) = Some e \<and>
         NextEntryOffset it' = end_offset e)
     else bi_current it' = bi_restarts it) \<and> same_block it it'"
proof (cases "NextEntryOffset it < bi_restarts it")
  case False
  then show ?thesis using parse by (auto simp: ParseNextKey_def Let_def same_block_def)
next
  case less: True
  show ?thesis
  proof (cases "decode (block_data it) (NextEntryOffset it) (bi_restarts it)")
    case None
    then show ?thesis using parse less by (auto simp: ParseNextKey_def Let_def same_block_def)
  next
    case (Some e)
    then obtain sh' ns vl q where e: "e = (sh', ns, vl, q)" by (cases e)
    have "NextEntryOffset it' = end_offset e" if success
      using that parse less Some e unfolding ParseNextKey_def end_offset_def NextEntryOffset_def
      by (auto simp: Let_def split: if_splits)
    then show ?thesis
      using parse less Some e unfolding ParseNextKey_def same_block_def by (auto simp: Let_def split: if_splits)
  qed
qed

lemma ParseNextKey_moves:
  assumes "entries_advance decode (block_data it) (bi_restarts it)" and "ParseNextKey decode it = (True, sh, it')"
  shows "bi_current it' = NextEntryOffset it \<and> NextEntryOffset it < bi_restarts it \<and>
    NextEntryOffset it < NextEntryOffset it'"
  using ParseNextKey_cases [OF assms(2)] entries_advanceD [OF assms(1)] by auto

interpretation advancing_meta: advancing_parser ParseNextMetaKey "\<lambda>_ n. n < 2 ^ 32"
proof
  fix it it' :: "'a block_iter_scheme" and b
  note cases = ParseNextKey_cases [of CheckAndDecodeEntry it _ _ it']
  show "bi_restarts it < 2 ^ 32 \<Longrightarrow> ParseNextMetaKey it = (True, it') \<Longrightarrow>
      bi_current it' = NextEntryOffset it \<and> NextEntryOffset it < bi_restarts it \<and>
      NextEntryOffset it < NextEntryOffset it'"
    using ParseNextKey_moves [OF checked_entries_advance, of it _ it']
    by (auto simp: ParseNextMetaKey_def split: prod.splits)
  show "ParseNextMetaKey it = (False, it') \<Longrightarrow> bi_current it' = bi_restarts it"
    "ParseNextMetaKey it = (b, it') \<Longrightarrow> same_block it it'"
    using cases [of False] cases [of b] by (auto simp: ParseNextMetaKey_def split: prod.splits)
qed

interpretation descending_meta: descending_cursor ParseNextMetaKey "\<lambda>_ n. n < 2 ^ 32" Meta_PrevImpl "\<lambda>_. True"
  by unfold_locales
    (use advancing_meta.PrevImpl_uncached_returns in \<open>fastforce simp: Meta_PrevImpl_def same_block_def\<close>)

interpretation advancing_data: advancing_parser ParseNextDataKey "\<lambda>d. entries_advance DecodeEntry (the d)"
proof
  fix it it' :: data_block_iter and b
  note cases = ParseNextKey_cases [of DecodeEntry it _ _ it']
  show "entries_advance DecodeEntry (block_data it) (bi_restarts it) \<Longrightarrow> ParseNextDataKey it = (True, it') \<Longrightarrow>
      bi_current it' = NextEntryOffset it \<and> NextEntryOffset it < bi_restarts it \<and>
      NextEntryOffset it < NextEntryOffset it'"
    using ParseNextKey_moves [of DecodeEntry it _ it']
    by (auto simp: ParseNextDataKey_def split: prod.splits)
  show "ParseNextDataKey it = (False, it') \<Longrightarrow> bi_current it' = bi_restarts it"
    "ParseNextDataKey it = (b, it') \<Longrightarrow> same_block it it'"
    using cases [of False] cases [of b] by (auto simp: ParseNextDataKey_def split: prod.splits)
qed

definition offsets_increase :: "data_block_iter \<Rightarrow> bool" where
  "offsets_increase it \<longleftrightarrow>
     sorted_wrt (<) (map cpe_offset (prev_entries it)) \<and>
     prev_entries_idx it < int (length (prev_entries it))"

definition increasing_cache :: "unit data_block_iter_ext \<Rightarrow> bool" where
  "increasing_cache m \<longleftrightarrow> offsets_increase (block_iter.extend BlockIter m)"

lemma increasing_cache_more: "increasing_cache (block_iter.more it) \<longleftrightarrow> offsets_increase it"
proof -
  have "block_iter.more (block_iter.extend BlockIter (block_iter.more it)) = block_iter.more it"
    by (simp add: block_iter.extend_def)
  then show ?thesis
    using cache_fields_more [of "block_iter.extend BlockIter (block_iter.more it)" it]
    by (simp add: increasing_cache_def offsets_increase_def)
qed

lemma cache_current_entry_keeps:
  "NextEntryOffset (cache_current_entry it) = NextEntryOffset it"
  "bi_current (cache_current_entry it) = bi_current it"
  "bi_data (cache_current_entry it) = bi_data it"
  "bi_restarts (cache_current_entry it) = bi_restarts it"
  "map cpe_offset (prev_entries (cache_current_entry it)) = map cpe_offset (prev_entries it) @ [bi_current it]"
  by (simp_all add: cache_current_entry_def Let_def NextEntryOffset_def)

lemma cache_entries_before_returns:
  assumes "advancing_data.on_good it" and "sorted_wrt (<) (map cpe_offset (prev_entries it))"
    and "\<forall>x\<in>set (map cpe_offset (prev_entries it)). x < NextEntryOffset it"
    and "NextEntryOffset it < original"
  shows "\<exists>it'. cache_entries_before original it = Some it' \<and>
    sorted_wrt (<) (map cpe_offset (prev_entries it')) \<and> (Block_Valid it' \<longrightarrow> bi_current it' < original) \<and>
    bi_data it' = bi_data it \<and> bi_restarts it' = bi_restarts it"
  using assms
proof (induction "bi_restarts it - NextEntryOffset it" arbitrary: it rule: less_induct)
  case less
  obtain b it1 where p: "ParseNextDataKey it = (b, it1)" by (cases "ParseNextDataKey it")
  note keeps = advancing_data.parse_keeps [OF p, unfolded same_block_def]
  have entries: "prev_entries it1 = prev_entries it" using cache_fields_more [of it1 it] keeps by simp
  note step = cache_entries_before.simps [of original it]
  show ?case
  proof (cases b)
    case False
    then have "\<not> Block_Valid it1"
      using advancing_data.parse_stops [of it it1] keeps p by (simp add: Block_Valid_def)
    then show ?thesis using False less.prems(2) keeps by (subst step) (simp add: p entries)
  next
    case True
    let ?it = "cache_current_entry it1"
    have p': "ParseNextDataKey it = (True, it1)" using True p by simp
    have cur: "bi_current it1 = NextEntryOffset it" and onward: "NextEntryOffset it < NextEntryOffset it1"
      using advancing_data.parse_moves [OF less.prems(1) p'] by auto
    have sorted: "sorted_wrt (<) (map cpe_offset (prev_entries ?it))"
      using less.prems(2,3) unfolding cache_current_entry_keeps by (auto simp: entries cur sorted_wrt_append)
    have bound: "\<forall>x\<in>set (map cpe_offset (prev_entries ?it)). x < NextEntryOffset ?it"
      using less.prems(3) onward unfolding cache_current_entry_keeps by (fastforce simp: entries cur)
    have m: "bi_restarts ?it - NextEntryOffset ?it < bi_restarts it - NextEntryOffset it"
      and g: "advancing_data.on_good ?it"
      using advancing_data.parse_measure(1,3) [OF less.prems(1) p'] by (simp_all add: cache_current_entry_keeps)
    show ?thesis
      using less.hyps [OF m g sorted bound] sorted less.prems(4) True keeps
      by (subst step) (auto simp: p Let_def cache_current_entry_keeps cur)
  qed
qed

lemma Data_PrevImpl_descends:
  assumes "advancing_data.on_good it" and "offsets_increase it" and "Block_Valid it"
  shows "\<exists>it'. Data_PrevImpl it = Some it' \<and> offsets_increase it' \<and>
    bi_data it' = bi_data it \<and> bi_restarts it' = bi_restarts it \<and>
    (Block_Valid it' \<longrightarrow> bi_current it' < bi_current it)"
proof (cases "prev_entries_idx it > 0 \<and> cpe_offset (prev_entries it ! nat (prev_entries_idx it)) = bi_current it")
  case True
  let ?i = "nat (prev_entries_idx it)"
  have "?i - 1 < ?i" "?i < length (prev_entries it)" using True assms(2) by (simp_all add: offsets_increase_def nat_less_iff)
  then have "cpe_offset (prev_entries it ! (?i - 1)) < cpe_offset (prev_entries it ! ?i)"
    using assms(2) sorted_wrt_nth_less [of "(<)" "map cpe_offset (prev_entries it)" "?i - 1" ?i]
    by (simp add: offsets_increase_def)
  moreover have "nat (prev_entries_idx it - 1) = ?i - 1" using True by simp
  ultimately have "bi_current (read_cached_entry it) < bi_current it" "offsets_increase (read_cached_entry it)"
    "bi_data (read_cached_entry it) = bi_data it" "bi_restarts (read_cached_entry it) = bi_restarts it"
    using True assms(2) by (simp_all add: read_cached_entry_def Let_def offsets_increase_def split: prod.splits)
  then show ?thesis using True by (simp add: Data_PrevImpl_def)
next
  case False
  let ?it = "it\<lparr>prev_entries_idx := -1, prev_entries := [], prev_entries_keys_buff := []\<rparr>"
  have prev: "Data_PrevImpl it = (case restart_before (bi_current ?it) (bi_restart_index ?it) ?it of
      None \<Rightarrow> Some (no_more_entries ?it)
    | Some index \<Rightarrow> map_option (\<lambda>it. it\<lparr>prev_entries_idx := int (length (prev_entries it)) - 1\<rparr>)
        (cache_entries_before (bi_current ?it) (SeekToRestartPoint index ?it)))"
    using False unfolding Data_PrevImpl_def Let_def by (auto split: option.splits)
  show ?thesis
  proof (cases "restart_before (bi_current ?it) (bi_restart_index ?it) ?it")
    case None
    then show ?thesis
      unfolding prev by (simp add: no_more_entries_def offsets_increase_def Block_Valid_def)
  next
    case (Some index)
    let ?s = "SeekToRestartPoint index ?it"
    have s: "bi_data ?s = bi_data it" "bi_restarts ?s = bi_restarts it"
      using SeekToRestartPoint_same [of ?it index] by (simp_all add: same_block_def)
    have "prev_entries ?s = []" using cache_fields_more(1) [of ?s ?it] by simp
    then obtain it' where "cache_entries_before (bi_current it) ?s = Some it'"
      "sorted_wrt (<) (map cpe_offset (prev_entries it'))" "Block_Valid it' \<longrightarrow> bi_current it' < bi_current it"
      "bi_data it' = bi_data it" "bi_restarts it' = bi_restarts it"
      using cache_entries_before_returns [of ?s "bi_current it"] restart_before_less [OF Some] assms(1) s by auto
    then show ?thesis
      unfolding prev using Some by (simp add: offsets_increase_def Block_Valid_def)
  qed
qed

interpretation descending_data: descending_cursor ParseNextDataKey "\<lambda>d. entries_advance DecodeEntry (the d)"
    Data_PrevImpl increasing_cache
  by unfold_locales (use Data_PrevImpl_descends in \<open>fastforce simp: increasing_cache_more\<close>)

lemma UpdateKey_same [simp]: "same_block it (UpdateKey it)"
  by (simp add: UpdateKey_def Let_def same_block_def)

lemma settled_UpdateKey [simp]: "descending_data.settled it (UpdateKey it') = descending_data.settled it it'"
  using UpdateKey_same [of it'] by (simp add: descending_data.settled_def same_block_def)

lemma data_step_returns:
  assumes g: "advancing_data.on_good it" and c: "increasing_cache (block_iter.more it)"
  shows "\<exists>it'. data_step ucmp op it = Some it' \<and> descending_data.settled it it'"
proof -
  note settled = descending_data.same_block_settled [OF _ c]
  have parse: "descending_data.settled it (snd (ParseNextDataKey it0))" if "same_block it it0" for it0
    using settled [OF same_block_trans [OF that advancing_data.parse_keeps]] by (cases "ParseNextDataKey it0") simp
  show ?thesis
  proof (cases op)
    case SeekToFirst_op
    then show ?thesis
      using parse [of "SeekToRestartPoint 0 it"] settled [of it]
      by (simp add: Data_SeekToFirst_def Data_SeekToFirstImpl_def SeekToFirst_parse_def)
  next
    case SeekToLast_op
    then show ?thesis
      using advancing_data.SeekToLast_returns [OF g] settled
      by (fastforce simp: Data_SeekToLast_def Data_SeekToLastImpl_def)
  next
    case Next_op
    then show ?thesis using parse [of it] settled [of it] by (simp add: Data_Next_def Data_NextImpl_def)
  next
    case Prev_op
    have "\<exists>it'. Data_PrevImpl it = Some it' \<and> descending_data.settled it it'" if "Block_Valid it"
      using descending_data.prev_descends [OF g c that] by (auto simp: descending_data.settled_def)
    then show ?thesis using Prev_op settled [of it] by (cases "Block_Valid it") (auto simp: Data_Prev_def)
  next
    case (Seek_op t)
    then show ?thesis
      using advancing_data.Seek_returns [OF g, of ucmp DecodeKey t] settled
      by (fastforce simp: Data_Seek_def Data_SeekImpl_def)
  next
    case (SeekForPrev_op t)
    then show ?thesis
      using descending_data.SeekForPrev_returns [OF g c, of ucmp DecodeKey t]
      by (fastforce simp: Data_SeekForPrev_def Data_SeekForPrevImpl_def)
  qed
qed

lemma data_run_returns:
  "advancing_data.on_good it \<Longrightarrow> increasing_cache (block_iter.more it) \<Longrightarrow>
   \<exists>it'. data_run ucmp ops it = Some it' \<and> descending_data.settled it it'"
proof (induction ops arbitrary: it)
  case Nil
  then show ?case by (simp add: descending_data.settled_def)
next
  case (Cons op ops)
  obtain it1 where it1: "data_step ucmp op it = Some it1" "descending_data.settled it it1"
    using data_step_returns [OF Cons.prems] by blast
  then show ?case
    using Cons.IH [of it1] Cons.prems by (auto simp: descending_data.settled_def)
qed

lemma scan_interval_returns:
  "advancing_data.on_good it \<Longrightarrow> \<exists>it'. scan_interval ucmp target limit it = Some it' \<and> same_block it it'"
proof (induction "bi_restarts it - NextEntryOffset it" arbitrary: it rule: less_induct)
  case less
  obtain b it1 where p: "ParseNextDataKey it = (b, it1)" by (cases "ParseNextDataKey it")
  note step = scan_interval.simps [of ucmp target limit it]
  show ?case
  proof (cases "b \<and> bi_current it < limit \<and> CompareCurrentKey ucmp target it1 < 0")
    case False
    then show ?thesis using advancing_data.parse_keeps [OF p] by (subst step) (auto simp: p)
  next
    case True
    then have t: "ParseNextDataKey it = (True, it1)" using p by simp
    note m = advancing_data.parse_measure [OF less.prems t]
    show ?thesis
      using less.hyps [OF m(1,3)] True same_block_trans [OF m(4)] by (subst step) (auto simp: p)
  qed
qed

lemma SeekForGet_returns:
  assumes g: "advancing_data.on_good it"
  shows "\<exists>r. SeekForGet ucmp target it = Some r"
proof -
  have seek: "Data_SeekImpl ucmp target it' \<noteq> None" if "same_block it it'" for it'
    using advancing_data.Seek_returns [OF advancing_data.same_block_good [OF that g], of ucmp DecodeKey target]
    by (auto simp: Data_SeekImpl_def)
  have after: "after_scan ucmp target it' \<noteq> None" if "same_block it it'" for it'
    using seek [OF that] by (auto simp: after_scan_def Let_def)
  have "\<exists>c limit r x. SeekForGetImpl ucmp target it =
      (if c then (case Data_SeekImpl ucmp target it of None \<Rightarrow> None | Some it \<Rightarrow> Some (True, it))
       else case scan_interval ucmp target limit ((SeekToRestartPoint r it)\<lparr>bi_current := x\<rparr>) of
         None \<Rightarrow> None | Some it \<Rightarrow> after_scan ucmp target it)"
    unfolding SeekForGetImpl_def after_scan_def Let_def by (intro exI) (rule refl)
  then obtain c limit r x where impl: "SeekForGetImpl ucmp target it =
      (if c then (case Data_SeekImpl ucmp target it of None \<Rightarrow> None | Some it \<Rightarrow> Some (True, it))
       else case scan_interval ucmp target limit ((SeekToRestartPoint r it)\<lparr>bi_current := x\<rparr>) of
         None \<Rightarrow> None | Some it \<Rightarrow> after_scan ucmp target it)"
    by blast
  have same: "same_block it ((SeekToRestartPoint r it)\<lparr>bi_current := x\<rparr>)"
    using SeekToRestartPoint_same [of it r] by (simp add: same_block_def)
  obtain it'' where "scan_interval ucmp target limit ((SeekToRestartPoint r it)\<lparr>bi_current := x\<rparr>) = Some it''" "same_block it it''"
    using scan_interval_returns [OF advancing_data.same_block_good [OF same g]] same_block_trans [OF same] by blast
  then have "SeekForGetImpl ucmp target it \<noteq> None"
    using seek [of it] after unfolding impl by (cases c) auto
  then show ?thesis using seek [of it] by (auto simp: SeekForGet_def split: option.splits)
qed

section \<open>Blocks that are iterated for ever\<close>

lemma parse_while_diverges:
  assumes "\<And>it. I it \<Longrightarrow> \<exists>it'. parse it = (True, it') \<and> cond it' \<and> I it'" and "I it"
  shows "parse_while parse cond it = None"
proof -
  have "p = parse \<longrightarrow> c = cond \<longrightarrow> \<not> I it" if "parse_while p c it = Some it'" for p c it'
    by (rule parse_while.raw_induct [OF _ that, where P = "\<lambda>p c it _. p = parse \<longrightarrow> c = cond \<longrightarrow> \<not> I it"])
      (use assms(1) in \<open>fastforce split: prod.splits if_splits\<close>)
  then show ?thesis using assms(2) by (cases "parse_while parse cond it") auto
qed

lemma ParseNextKey_first:
  assumes "decode (block_data it) (NextEntryOffset it) (bi_restarts it) = Some (0, ns, vl, q)"
    and "NextEntryOffset it < bi_restarts it"
  shows "\<exists>it'. ParseNextKey decode it = (True, False, it')"
  using assms by (simp add: ParseNextKey_def Let_def)

text \<open>
  C5: The loops of the block iterators end, on blocks that need not be well formed. If every entry of
  a data block that can be decoded, at any offset, ends behind its start, the offset of the end being
  a number of 32 bits, then whatever the comparator returns and whatever sequence of operations is
  performed on an iterator over the block, every operation returns, and so does a point lookup
  after them. A meta block iterator needs no such condition: from any state, over any bytes, each
  of its operations returns, since its decoder checks lengths (\<open>restarts_\<close> is a 32-bit number).
\<close>

theorem block_iteration_terminates:
  assumes "entries_advance DecodeEntry (blk_data b) (unat (blk_restart_offset b))" and "bi_restarts mit < 2 ^ 32"
  shows "(\<exists>it. data_run ucmp ops (NewDataIterator b ts seqno persisted DataBlockIter) = Some it \<and>
      (\<exists>r. SeekForGet ucmp target it = Some r)) \<and>
    (\<exists>r. Meta_SeekToLastImpl mit = Some r) \<and> (\<exists>r. Meta_PrevImpl mit = Some r) \<and>
    (\<exists>r. Meta_SeekImpl target mit = Some r) \<and> (\<exists>r. Meta_SeekForPrevImpl target mit = Some r)"
proof -
  let ?it = "NewDataIterator b ts seqno persisted DataBlockIter"
  note defs = NewDataIterator_def DataBlockIter_Invalidate_def Block_Invalidate_def DataBlockIter_Initialize_def
    InitializeBase_def DataBlockIter_def BlockIter_def block_iter.extend_def Let_def
  have c: "increasing_cache (block_iter.more ?it)"
    unfolding increasing_cache_more by (simp add: offsets_increase_def defs)
  have "advancing_data.on_good ?it" using assms(1) by (simp add: defs entries_advance_def)
  then obtain it where it: "data_run ucmp ops ?it = Some it" "advancing_data.on_good it"
    using data_run_returns [OF _ c, of ucmp ops] by (auto simp: descending_data.settled_def)
  then show ?thesis
    using SeekForGet_returns [OF it(2), of ucmp target]
      advancing_meta.SeekToLast_returns [OF assms(2)] advancing_meta.PrevImpl_uncached_returns [OF assms(2)]
      advancing_meta.Seek_returns [OF assms(2), of compare DecodeKey target]
      descending_meta.SeekForPrev_returns [OF assms(2), of compare DecodeKey target]
    by (auto simp: Meta_SeekToLastImpl_def Meta_PrevImpl_def Meta_SeekImpl_def Meta_SeekForPrevImpl_def)
qed

theorem block_iteration_terminates_witness:
  "\<exists>it. data_run BytewiseCompare [SeekToLast_op, Prev_op, Prev_op]
      (NewDataIterator
        \<lparr>blk_data = lookup_block, blk_restart_offset = 26, blk_num_restarts = 2, blk_num_buckets = 0\<rparr>
        0 kDisableGlobalSequenceNumber True DataBlockIter) = Some it"
proof -
  have "entries_advance DecodeEntry lookup_block 26" unfolding lookup_block_bytes by code_simp
  then show ?thesis
    using block_iteration_terminates [where mit = MetaBlockIter and
        b = "\<lparr>blk_data = lookup_block, blk_restart_offset = 26, blk_num_restarts = 2, blk_num_buckets = 0\<rparr>"
        and ucmp = BytewiseCompare and ops = "[SeekToLast_op, Prev_op, Prev_op]" and ts = 0
        and seqno = kDisableGlobalSequenceNumber and persisted = True and target = "[]"]
    by (simp add: MetaBlockIter_def BlockIter_def del: data_run.simps) blast
qed

text \<open>
  C40: A corrupt length can make \<open>SeekToLast\<close> run for ever. If the entry at the last restart point of a
  data block has no shared bytes and its lengths carry its end to its own start modulo \<open>2 ^ 32\<close>,
  \<open>SeekToLast\<close> parses it again and again and does not return.
\<close>

theorem SeekToLast_diverges_on_wrapped_entry:
  fixes it :: data_block_iter
  defines "p \<equiv> GetRestartPoint (bi_num_restarts it - 1) it"
  assumes "bi_data it = Some d" and "p < bi_restarts it"
    and "DecodeEntry d p (bi_restarts it) = Some (0, non_shared, value_length, q)"
    and "unat (of_nat (q + unat non_shared + unat value_length) :: u32) = p"
  shows "Data_SeekToLast it = None"
proof -
  define I :: "data_block_iter \<Rightarrow> bool" where
    "I s \<longleftrightarrow> same_block it s \<and> NextEntryOffset s = p" for s
  have "\<exists>s'. ParseNextDataKey s = (True, s') \<and> NextEntryOffset s' < bi_restarts s' \<and> I s'" if "I s" for s
  proof -
    have s: "bi_data s = Some d" "bi_restarts s = bi_restarts it" "NextEntryOffset s = p"
      using that assms(2) by (simp_all add: I_def same_block_def)
    obtain s' where s': "ParseNextKey DecodeEntry s = (True, False, s')"
      using ParseNextKey_first [of DecodeEntry s] assms(3,4) s by auto
    then show ?thesis
      using ParseNextKey_cases [OF s'] assms(3,4,5) s that
      by (auto simp: ParseNextDataKey_def I_def end_offset_def same_block_def)
  qed
  moreover have "I (SeekToRestartPoint (bi_num_restarts it - 1) it)"
    by (simp add: I_def NextEntryOffset_restart p_def)
  ultimately show ?thesis
    using parse_while_diverges [of I ParseNextDataKey "\<lambda>it. NextEntryOffset it < bi_restarts it"] assms(2)
    by (simp add: Data_SeekToLast_def Data_SeekToLastImpl_def SeekToLast_parse_def)
qed

theorem SeekToLast_diverges_on_wrapped_entry_witness:
  "Data_SeekToLast (DataBlockIter_Initialize 0
     [0, 0, 249, 255, 255, 255, 15, 0, 0, 0, 0, 1, 0, 0, 0] 7 1 kDisableGlobalSequenceNumber True None
     DataBlockIter) = None"
proof -
  let ?d = "[0, 0, 249, 255, 255, 255, 15, 0, 0, 0, 0, 1, 0, 0, 0] :: slice"
  let ?it = "DataBlockIter_Initialize 0 ?d 7 1 kDisableGlobalSequenceNumber True None DataBlockIter"
  have it: "GetRestartPoint (bi_num_restarts ?it - 1) ?it = 0" "bi_data ?it = Some ?d" "bi_restarts ?it = 7"
    by code_simp+
  have entry: "DecodeEntry ?d 0 7 = Some (0, 0, 0xFFFFFFF9, 7)" by code_simp
  have wrap: "unat (of_nat (7 + unat (0 :: u32) + unat (0xFFFFFFF9 :: u32)) :: u32) = 0" by simp
  show ?thesis
    by (rule SeekToLast_diverges_on_wrapped_entry [OF it(2), unfolded it, OF _ entry wrap]) simp
qed

end
