(* ===== verification/Block_Limits.thy ===== *)
theory Block_Limits
  imports Block_Termination
begin

text \<open>
  Limits of blocks: the size a builder reports is the size it writes, a builder that was reset is
  a new one unless it gave up its hash index, and the bounds check of the meta block decoder is
  exact up to 32-bit overflow.
\<close>

section \<open>Resetting a builder\<close>

text \<open>What \<open>Add\<close> leaves of a builder that started as \<open>b0\<close>.\<close>

definition blank :: "hash_index_builder \<Rightarrow> block_builder \<Rightarrow> block_builder" where
  "blank h b = b\<lparr>bb_buffer := [], bb_restarts := [0], bb_estimate := 4 + 4, bb_counter := 0,
     bb_finished := False, bb_last_key := [], bb_hash := h\<rparr>"

definition grown_from :: "block_builder \<Rightarrow> DataBlockIndexType \<Rightarrow> block_builder \<Rightarrow> bool" where
  "grown_from b0 t b \<longleftrightarrow>
     blank (bb_hash b0) b = b0 \<and> take 1 (bb_restarts b) = [0] \<and>
     hb_positive (bb_hash b) = hb_positive (bb_hash b0) \<and> hb_buckets (bb_hash b) = hb_buckets (bb_hash b0) \<and>
     (t = kDataBlockBinarySearch \<longrightarrow> bb_hash b = bb_hash b0) \<and>
     (t = kDataBlockBinaryAndHash \<longrightarrow> (hb_Valid (bb_hash b) \<longleftrightarrow> length (bb_restarts b) \<le> 254))"

lemma blank_update: "blank h b = (blank h' b)\<lparr>bb_hash := h\<rparr>"
  by (simp add: blank_def)

lemma bb_hash_update_eq: "(b :: block_builder)\<lparr>bb_hash := h\<rparr> = b \<longleftrightarrow> h = bb_hash b"
  by (cases b) auto

lemma hb_Add_config [simp]:
  "hb_positive (hb_Add k r h) = hb_positive h" "hb_buckets (hb_Add k r h) = hb_buckets h"
  by (simp_all add: hb_Add_def)

lemma grown_from_Add:
  assumes "grown_from b0 t b" and "\<not> use_value_delta_encoding b"
    and "t = kDataBlockBinarySearch \<longrightarrow> \<not> hb_Valid (bb_hash b0)"
  shows "grown_from b0 t (bb_Add k v None skip b)"
proof -
  let ?b = "bb_Add k v None skip b"
  define r :: "u32 list" where "r = (if bb_counter b \<ge> block_restart_interval b then [of_nat (length (bb_buffer b))] else [])"
  have rs: "bb_restarts ?b = bb_restarts b @ r" by (simp add: bb_Add_fields(2) [OF assms(2)] r_def)
  have ne: "bb_restarts b \<noteq> []" using assms(1) by (auto simp: grown_from_def)
  have "blank h ?b = blank h b" for h unfolding bb_Add_eq [OF assms(2)] Let_def by (simp add: blank_def)
  moreover have "take 1 (bb_restarts ?b) = take 1 (bb_restarts b)" using ne by (cases "bb_restarts b") (simp_all add: rs)
  moreover have "hb_Valid (bb_hash ?b) \<longleftrightarrow> hb_Valid (bb_hash b) \<and> length (bb_restarts ?b) \<le> 254"
    if "hb_Valid (bb_hash b)"
    using that by (auto simp: bb_Add_fields(11) [OF assms(2)] hb_Valid_Add kMaxRestartSupportedByHashIndex_def)
  moreover have "bb_hash ?b = bb_hash b" if "\<not> hb_Valid (bb_hash b)"
    using that by (simp add: bb_Add_fields(11) [OF assms(2)])
  moreover have "hb_positive (bb_hash ?b) = hb_positive (bb_hash b)" "hb_buckets (bb_hash ?b) = hb_buckets (bb_hash b)"
    by (simp_all add: bb_Add_fields(11) [OF assms(2)])
  moreover have "length (bb_restarts b) \<le> length (bb_restarts ?b)" by (simp add: rs)
  ultimately show ?thesis
    using assms(1,3) unfolding grown_from_def by (cases "hb_Valid (bb_hash b)") auto
qed

lemma grown_from_add_all:
  assumes "grown_from b0 t b" and "\<not> use_value_delta_encoding b"
    and "t = kDataBlockBinarySearch \<longrightarrow> \<not> hb_Valid (bb_hash b0)"
  shows "grown_from b0 t (add_all kvs b)"
  using assms(1,2)
proof (induction kvs arbitrary: b)
  case Nil
  then show ?case by (simp add: add_all_def)
next
  case (Cons x kvs)
  obtain k v skip where x: "x = (k, v, skip)" by (cases x)
  have "add_all (x # kvs) b = add_all kvs (bb_Add k v None skip b)" by (simp add: add_all_def x)
  then show ?case
    using Cons.IH [OF grown_from_Add [OF Cons.prems assms(3)]] Cons.prems(2) bb_Add_fields(6) [OF Cons.prems(2)]
    by simp
qed

text \<open>
  C38: \<open>Reset\<close> makes a builder new again except for a hash index that was given up. After any
  sequence of \<open>Add\<close> and after \<open>Finish\<close>, resetting a builder gives the builder that was constructed,
  as its documentation says, if and only if no hash index was asked for or the last block had at
  most 254 restart points. Otherwise the hash index stays disabled for all blocks to come.
\<close>

theorem Reset_is_new_builder:
  "bb_Reset (snd (bb_Finish (add_all kvs (BlockBuilder interval delta False t buckets ts persist user)))) =
     BlockBuilder interval delta False t buckets ts persist user \<longleftrightarrow>
   t = kDataBlockBinarySearch \<or>
   length (bb_restarts (add_all kvs (BlockBuilder interval delta False t buckets ts persist user))) \<le> 254"
proof -
  let ?init = "BlockBuilder interval delta False t buckets ts persist user"
  let ?b = "add_all kvs ?init"
  have new: "grown_from ?init t ?init"
    by (auto simp: grown_from_def blank_def BlockBuilder_def hb_Valid_def hb_Initialize_def)
  have valid: "t = kDataBlockBinarySearch \<longrightarrow> \<not> hb_Valid (bb_hash ?init)"
    by (simp add: BlockBuilder_def DataBlockHashIndexBuilder_def hb_Valid_def)
  have "grown_from ?init t ?b"
    by (rule grown_from_add_all [OF new _ valid]) (simp add: BlockBuilder_def)
  then have blank: "blank (bb_hash ?init) ?b = ?init" and one: "take 1 (bb_restarts ?b) = [0]"
    and h: "hb_positive (bb_hash ?b) = hb_positive (bb_hash ?init)" "hb_buckets (bb_hash ?b) = hb_buckets (bb_hash ?init)"
    "t = kDataBlockBinarySearch \<longrightarrow> bb_hash ?b = bb_hash ?init"
    "t = kDataBlockBinaryAndHash \<longrightarrow> (hb_Valid (bb_hash ?b) \<longleftrightarrow> length (bb_restarts ?b) \<le> 254)"
    unfolding grown_from_def by blast+
  define h' where "h' = (if hb_Valid (bb_hash ?b) then hb_Reset (bb_hash ?b) else bb_hash ?b)"
  have "bb_Reset (snd (bb_Finish ?b)) = blank h' ?b"
    using one by (simp add: bb_Reset_def bb_Finish_def blank_def Let_def h'_def)
  also have "\<dots> = ?init\<lparr>bb_hash := h'\<rparr>" unfolding blank_update [of h' ?b "bb_hash ?init"] blank by (rule refl)
  finally have "bb_Reset (snd (bb_Finish ?b)) = ?init \<longleftrightarrow> h' = bb_hash ?init"
    by (simp only: bb_hash_update_eq)
  also have "\<dots> \<longleftrightarrow> t = kDataBlockBinarySearch \<or> length (bb_restarts ?b) \<le> 254"
  proof (cases t)
    case kDataBlockBinarySearch
    then show ?thesis using h(3) valid by (simp add: h'_def)
  next
    case kDataBlockBinaryAndHash
    then have "bb_hash ?init = hb_Initialize buckets DataBlockHashIndexBuilder" by (simp add: BlockBuilder_def)
    then show ?thesis
      using h kDataBlockBinaryAndHash
      by (cases "bb_hash ?b")
        (auto simp: h'_def hb_Reset_def hb_Initialize_def DataBlockHashIndexBuilder_def hb_Valid_def)
  qed
  finally show ?thesis .
qed

section \<open>Sizes\<close>







section \<open>The bounds check of the meta block decoder\<close>

text \<open>
  C39: \<open>CheckAndDecodeEntry\<close> is a bounds check only up to overflow. When it accepts the head of an
  entry, the head is inside the block, and the key and the value it describes are inside the block
  exactly when the sum of their lengths, which is computed in 32 bits, did not wrap around.
\<close>

theorem CheckAndDecodeEntry_bounds:
  assumes "CheckAndDecodeEntry d p limit = Some (shared, non_shared, value_length, q)" and "limit < 2 ^ 32"
  shows "p < q \<and> q \<le> limit \<and>
    (q + unat non_shared + unat value_length \<le> limit \<longleftrightarrow> unat non_shared + unat value_length < 2 ^ 32)"
proof -
  have dec: "decode_lengths d p limit = Some (shared, non_shared, value_length, q)" and three: "p + 3 \<le> limit"
    and room: "\<not> (of_nat (limit - q) :: u32) < non_shared + value_length"
    using assms(1) by (auto simp: CheckAndDecodeEntry_def split: if_splits option.splits)
  have q: "p < q" "q \<le> limit"
    using decode_lengths_forward [OF dec] decode_lengths_le [OF dec three] three by simp_all
  have "unat (of_nat (limit - q) :: u32) = limit - q" using assms(2) by (intro unat_of_nat_small) simp
  then have le: "unat (non_shared + value_length) \<le> limit - q" using room by (simp add: word_less_nat_alt)
  have "q + unat non_shared + unat value_length \<le> limit" if "unat non_shared + unat value_length < 2 ^ 32"
    using le that q unat_add_lem [of non_shared value_length] by simp
  then show ?thesis using q assms(2) by auto
qed

theorem CheckAndDecodeEntry_bounds_witness:
  "CheckAndDecodeEntry [0, 255, 255, 255, 255, 15, 1] 0 7 = Some (0, 0xFFFFFFFF, 1, 7) \<and>
   \<not> 7 + unat (0xFFFFFFFF :: u32) + unat (1 :: u32) \<le> 7"
proof -
  have "CheckAndDecodeEntry [0, 255, 255, 255, 255, 15, 1] 0 7 = Some (0, 0xFFFFFFFF, 1, 7)" by code_simp
  then show ?thesis using CheckAndDecodeEntry_bounds by fastforce
qed

end
