(* ===== verification/Kv_Checksum.thy ===== *)
theory Kv_Checksum
  imports Dbformat
begin

text \<open>
  The per-entry protection of \<open>db/kv_checksum.h\<close>: one 64-bit value per entry, the exclusive or
  of a seeded hash of each of its fields. A field is added by \<open>Protect\<close> and taken out again by
  \<open>Strip\<close>; the entry is intact when nothing is left.

  The hash (\<open>NPHash64\<close> of \<open>util/hash.h\<close>, the vendored XXH3) is the argument \<open>np\<close> of the
  definitions, a function of the bytes and the seed; nothing below depends on which function it
  is. The class templates are modelled at \<open>T = uint64_t\<close>, where every class of the family wraps
  one \<open>uint64_t\<close>.
\<close>

unbundle bit_operations_syntax

type_synonym hash_fn = "slice \<Rightarrow> u64 \<Rightarrow> u64"

text \<open>The seeds of the fields: key, value, operation and column family.\<close>

datatype prot_field = FieldK | FieldV | FieldO | FieldC

fun kSeed :: "prot_field \<Rightarrow> u64" where
  "kSeed FieldK = 0"
| "kSeed FieldV = 0xD28AAD72F49BD50B"
| "kSeed FieldO = 0xA5155AE5E937AA16"
| "kSeed FieldC = 0x4A2AB5CBD26F542C"

definition GetSlicePartsNPHash64 :: "hash_fn \<Rightarrow> slice list \<Rightarrow> u64 \<Rightarrow> u64" where
  "GetSlicePartsNPHash64 np parts seed = np (foldl (\<lambda>d part. d @ part) [] parts) seed"

definition GetStatus :: "u64 \<Rightarrow> status" where
  "GetStatus val = (if val \<noteq> 0 then Corruption (str ''ProtectionInfo mismatch'') [] else OK)"

definition ProtectKVO :: "hash_fn \<Rightarrow> u64 \<Rightarrow> slice \<Rightarrow> slice \<Rightarrow> value_type \<Rightarrow> u64" where
  "ProtectKVO np val key value op_type =
     (let val = val XOR np key (kSeed FieldK);
          val = val XOR np value (kSeed FieldV)
      in val XOR np [op_type] (kSeed FieldO))"

definition ProtectKVO_parts ::
    "hash_fn \<Rightarrow> u64 \<Rightarrow> slice list \<Rightarrow> slice list \<Rightarrow> value_type \<Rightarrow> u64" where
  "ProtectKVO_parts np val key value op_type =
     (let val = val XOR GetSlicePartsNPHash64 np key (kSeed FieldK);
          val = val XOR GetSlicePartsNPHash64 np value (kSeed FieldV)
      in val XOR np [op_type] (kSeed FieldO))"

definition ProtectC :: "hash_fn \<Rightarrow> u64 \<Rightarrow> u32 \<Rightarrow> u64" where
  "ProtectC np val column_family_id = val XOR np (EncodeFixed32 column_family_id) (kSeed FieldC)"

definition StripC :: "hash_fn \<Rightarrow> u64 \<Rightarrow> u32 \<Rightarrow> u64" where
  "StripC np val column_family_id = val XOR np (EncodeFixed32 column_family_id) (kSeed FieldC)"

definition StripKVO :: "hash_fn \<Rightarrow> u64 \<Rightarrow> slice \<Rightarrow> slice \<Rightarrow> value_type \<Rightarrow> u64" where
  "StripKVO np val key value op_type =
     (let val = val XOR np key (kSeed FieldK);
          val = val XOR np value (kSeed FieldV)
      in val XOR np [op_type] (kSeed FieldO))"

section \<open>Stripping inverts protecting\<close>

lemma XOR_cancel_right: "(x XOR y) XOR (y :: u64) = x"
  by (simp add: xor.assoc)

lemma ProtectKVO_parts_eq:
  "ProtectKVO_parts np val ks vs t = ProtectKVO np val (concat ks) (concat vs) t"
  by (simp add: ProtectKVO_parts_def ProtectKVO_def GetSlicePartsNPHash64_def foldl_concat)

lemma StripC_ProtectC [simp]: "StripC np (ProtectC np val cf) cf = val"
  by (simp add: StripC_def ProtectC_def XOR_cancel_right)

lemma StripKVO_ProtectKVO [simp]: "StripKVO np (ProtectKVO np val k v t) k v t = val"
  by (simp add: StripKVO_def ProtectKVO_def ac_simps)

lemma GetStatus_ok [simp]: "ok (GetStatus val) \<longleftrightarrow> val = 0"
  by (simp add: GetStatus_def ok_def OK_def Corruption_def Status_msg_def)

end
