(* ===== verification/Write_Batch.thy ===== *)
theory Write_Batch
  imports Kv_Checksum
begin

text \<open>
  \<open>WriteBatch\<close> of \<open>db/write_batch.cc\<close>, \<open>db/write_batch_internal.h\<close> and
  \<open>include/rocksdb/write_batch.h\<close>: the serialized list of updates that a write hands to the log
  and to the memtable. The batch is a byte string, a header of twelve bytes with the sequence
  number and the number of entries followed by the tagged records.

  Operations return the status next to the new batch. A \<open>Handler\<close> is the record of its virtual
  functions over its own state. Reading a packed value that is shorter than its trailing time
  reaches outside the buffer, as the size check is an assertion; that is the result None of the
  functions that read records.
\<close>

unbundle bit_operations_syntax

section \<open>The batch and its save points\<close>

datatype ContentFlags =
  DEFERRED | HAS_PUT | HAS_DELETE | HAS_SINGLE_DELETE | HAS_MERGE | HAS_BEGIN_PREPARE
| HAS_END_PREPARE | HAS_COMMIT | HAS_ROLLBACK | HAS_DELETE_RANGE | HAS_BLOB_INDEX
| HAS_BEGIN_UNPREPARE | HAS_PUT_ENTITY | HAS_TIMED_PUT

fun flag :: "ContentFlags \<Rightarrow> u32" where
  "flag DEFERRED = push_bit 0 1"
| "flag HAS_PUT = push_bit 1 1"
| "flag HAS_DELETE = push_bit 2 1"
| "flag HAS_SINGLE_DELETE = push_bit 3 1"
| "flag HAS_MERGE = push_bit 4 1"
| "flag HAS_BEGIN_PREPARE = push_bit 5 1"
| "flag HAS_END_PREPARE = push_bit 6 1"
| "flag HAS_COMMIT = push_bit 7 1"
| "flag HAS_ROLLBACK = push_bit 8 1"
| "flag HAS_DELETE_RANGE = push_bit 9 1"
| "flag HAS_BLOB_INDEX = push_bit 10 1"
| "flag HAS_BEGIN_UNPREPARE = push_bit 11 1"
| "flag HAS_PUT_ENTITY = push_bit 12 1"
| "flag HAS_TIMED_PUT = push_bit 13 1"

record SavePoint =
  sp_size :: nat
  sp_count :: u32
  sp_content_flags :: u32

abbreviation SavePoint_cleared :: SavePoint where
  "SavePoint_cleared \<equiv> \<lparr>sp_size = 0, sp_count = 0, sp_content_flags = 0\<rparr>"

definition is_cleared :: "SavePoint \<Rightarrow> bool" where
  "is_cleared p \<longleftrightarrow> sp_size p = 0 \<and> sp_count p = 0 \<and> sp_content_flags p = 0"

text \<open>
  A null \<open>save_points_\<close> or \<open>prot_info_\<close> is None; the head of the list of save points is the top
  of the stack.
\<close>

record WriteBatch =
  save_points :: "SavePoint list option"
  wal_term_point :: SavePoint
  is_latest_persistent_state :: bool
  needs_in_place_update_ts :: bool
  has_key_with_ts :: bool
  content_flags :: u32
  max_bytes :: nat
  prot_info :: "u64 list option"
  default_cf_ts_sz :: nat
  track_timestamp_size :: bool
  cf_id_to_ts_sz :: "(u32 \<times> nat) list"
  wb_rep :: slice

definition kHeader :: nat where
  "kHeader = 12"

text \<open>\<open>resize\<close> of a string or vector: cut off at the end, or filled up with the default.\<close>

definition resize :: "'a \<Rightarrow> 'a list \<Rightarrow> nat \<Rightarrow> 'a list" where
  "resize d xs n = take n xs @ replicate (n - length xs) d"

definition WriteBatch_make :: "nat \<Rightarrow> nat \<Rightarrow> nat \<Rightarrow> WriteBatch" where
  "WriteBatch_make mx protection_bytes_per_key ts_sz =
     \<lparr>save_points = None, wal_term_point = SavePoint_cleared,
      is_latest_persistent_state = False, needs_in_place_update_ts = False,
      has_key_with_ts = False, content_flags = 0, max_bytes = mx,
      prot_info = (if protection_bytes_per_key \<noteq> 0 then Some [] else None),
      default_cf_ts_sz = ts_sz, track_timestamp_size = False, cf_id_to_ts_sz = [],
      wb_rep = resize 0 [] kHeader\<rparr>"

definition WriteBatch_of_rep :: "slice \<Rightarrow> WriteBatch" where
  "WriteBatch_of_rep rep =
     \<lparr>save_points = None, wal_term_point = SavePoint_cleared,
      is_latest_persistent_state = False, needs_in_place_update_ts = False,
      has_key_with_ts = False, content_flags = flag DEFERRED, max_bytes = 0, prot_info = None,
      default_cf_ts_sz = 0, track_timestamp_size = False, cf_id_to_ts_sz = [], wb_rep = rep\<rparr>"

definition wb_Clear :: "WriteBatch \<Rightarrow> WriteBatch" where
  "wb_Clear b =
     b\<lparr>wb_rep := resize 0 [] kHeader, content_flags := 0,
       save_points := map_option (\<lambda>_. []) (save_points b),
       prot_info := map_option (\<lambda>_. []) (prot_info b),
       wal_term_point := SavePoint_cleared, default_cf_ts_sz := 0\<rparr>"

abbreviation GetDataSize :: "WriteBatch \<Rightarrow> nat" where
  "GetDataSize b \<equiv> length (wb_rep b)"

definition wb_Count :: "WriteBatch \<Rightarrow> u32" where
  "wb_Count b = DecodeFixed32 (drop 8 (wb_rep b))"

definition SetCount :: "WriteBatch \<Rightarrow> u32 \<Rightarrow> WriteBatch" where
  "SetCount b n = b\<lparr>wb_rep := take 8 (wb_rep b) @ EncodeFixed32 n @ drop 12 (wb_rep b)\<rparr>"

definition MarkWalTerminationPoint :: "WriteBatch \<Rightarrow> WriteBatch" where
  "MarkWalTerminationPoint b =
     b\<lparr>wal_term_point := \<lparr>sp_size = GetDataSize b, sp_count = wb_Count b,
                           sp_content_flags = content_flags b\<rparr>\<rparr>"

definition MaybeTrackTimestampSize :: "WriteBatch \<Rightarrow> u32 \<Rightarrow> nat \<Rightarrow> WriteBatch" where
  "MaybeTrackTimestampSize b column_family_id ts_sz =
     (if \<not> track_timestamp_size b then b
      else case map_of (cf_id_to_ts_sz b) column_family_id of
        None \<Rightarrow> b\<lparr>cf_id_to_ts_sz := (column_family_id, ts_sz) # cf_id_to_ts_sz b\<rparr>
      | Some _ \<Rightarrow> b)"

section \<open>Handlers\<close>

datatype OptionState = kUnknown | kDisabled | kEnabled

record 'h handler =
  h_PutCF :: "u32 \<Rightarrow> slice \<Rightarrow> slice \<Rightarrow> 'h \<Rightarrow> status \<times> 'h"
  h_TimedPutCF :: "u32 \<Rightarrow> slice \<Rightarrow> slice \<Rightarrow> u64 \<Rightarrow> 'h \<Rightarrow> status \<times> 'h"
  h_PutEntityCF :: "u32 \<Rightarrow> slice \<Rightarrow> slice \<Rightarrow> 'h \<Rightarrow> status \<times> 'h"
  h_DeleteCF :: "u32 \<Rightarrow> slice \<Rightarrow> 'h \<Rightarrow> status \<times> 'h"
  h_SingleDeleteCF :: "u32 \<Rightarrow> slice \<Rightarrow> 'h \<Rightarrow> status \<times> 'h"
  h_DeleteRangeCF :: "u32 \<Rightarrow> slice \<Rightarrow> slice \<Rightarrow> 'h \<Rightarrow> status \<times> 'h"
  h_MergeCF :: "u32 \<Rightarrow> slice \<Rightarrow> slice \<Rightarrow> 'h \<Rightarrow> status \<times> 'h"
  h_PutBlobIndexCF :: "u32 \<Rightarrow> slice \<Rightarrow> slice \<Rightarrow> 'h \<Rightarrow> status \<times> 'h"
  h_LogData :: "slice \<Rightarrow> 'h \<Rightarrow> 'h"
  h_MarkBeginPrepare :: "bool \<Rightarrow> 'h \<Rightarrow> status \<times> 'h"
  h_MarkEndPrepare :: "slice \<Rightarrow> 'h \<Rightarrow> status \<times> 'h"
  h_MarkNoop :: "bool \<Rightarrow> 'h \<Rightarrow> status \<times> 'h"
  h_MarkRollback :: "slice \<Rightarrow> 'h \<Rightarrow> status \<times> 'h"
  h_MarkCommit :: "slice \<Rightarrow> 'h \<Rightarrow> status \<times> 'h"
  h_MarkCommitWithTimestamp :: "slice \<Rightarrow> slice \<Rightarrow> 'h \<Rightarrow> status \<times> 'h"
  h_Continue :: "'h \<Rightarrow> bool \<times> 'h"
  h_WriteAfterCommit :: "'h \<Rightarrow> OptionState"
  h_WriteBeforePrepare :: "'h \<Rightarrow> OptionState"

text \<open>
  The base class, whose \<open>Put\<close>, \<open>Delete\<close>, \<open>SingleDelete\<close> and \<open>Merge\<close> do nothing. A derived class
  is the base record with the functions it overrides replaced.
\<close>

definition Handler :: "'h handler" where
  "Handler =
     \<lparr>h_PutCF = (\<lambda>cf _ _ h. (if cf = 0 then OK else
         InvalidArgument (str ''non-default column family and PutCF not implemented'') [], h)),
      h_TimedPutCF = (\<lambda>_ _ _ _ h. (InvalidArgument (str ''TimedPutCF not implemented'') [], h)),
      h_PutEntityCF = (\<lambda>_ _ _ h. (NotSupported (str ''PutEntityCF not implemented'') [], h)),
      h_DeleteCF = (\<lambda>cf _ h. (if cf = 0 then OK else
         InvalidArgument (str ''non-default column family and DeleteCF not implemented'') [], h)),
      h_SingleDeleteCF = (\<lambda>cf _ h. (if cf = 0 then OK else
         InvalidArgument
           (str ''non-default column family and SingleDeleteCF not implemented'') [], h)),
      h_DeleteRangeCF = (\<lambda>_ _ _ h. (InvalidArgument (str ''DeleteRangeCF not implemented'') [], h)),
      h_MergeCF = (\<lambda>cf _ _ h. (if cf = 0 then OK else
         InvalidArgument (str ''non-default column family and MergeCF not implemented'') [], h)),
      h_PutBlobIndexCF = (\<lambda>_ _ _ h. (InvalidArgument (str ''PutBlobIndexCF not implemented'') [], h)),
      h_LogData = (\<lambda>_ h. h),
      h_MarkBeginPrepare = (\<lambda>_ h.
         (InvalidArgument (str ''MarkBeginPrepare() handler not defined.'') [], h)),
      h_MarkEndPrepare = (\<lambda>_ h.
         (InvalidArgument (str ''MarkEndPrepare() handler not defined.'') [], h)),
      h_MarkNoop = (\<lambda>_ h. (InvalidArgument (str ''MarkNoop() handler not defined.'') [], h)),
      h_MarkRollback = (\<lambda>_ h.
         (InvalidArgument (str ''MarkRollbackPrepare() handler not defined.'') [], h)),
      h_MarkCommit = (\<lambda>_ h. (InvalidArgument (str ''MarkCommit() handler not defined.'') [], h)),
      h_MarkCommitWithTimestamp = (\<lambda>_ _ h.
         (InvalidArgument (str ''MarkCommitWithTimestamp() handler not defined.'') [], h)),
      h_Continue = (\<lambda>h. (True, h)),
      h_WriteAfterCommit = (\<lambda>_. kUnknown),
      h_WriteBeforePrepare = (\<lambda>_. kUnknown)\<rparr>"

text \<open>The classifier's state is its \<open>content_flags\<close>. It does not override \<open>MarkNoop\<close>.\<close>

definition BatchContentClassifier :: "u32 handler" where
  "BatchContentClassifier =
     Handler\<lparr>h_PutCF := (\<lambda>_ _ _ f. (OK, f OR flag HAS_PUT)),
             h_TimedPutCF := (\<lambda>_ _ _ _ f. (OK, f OR flag HAS_TIMED_PUT)),
             h_PutEntityCF := (\<lambda>_ _ _ f. (OK, f OR flag HAS_PUT_ENTITY)),
             h_DeleteCF := (\<lambda>_ _ f. (OK, f OR flag HAS_DELETE)),
             h_SingleDeleteCF := (\<lambda>_ _ f. (OK, f OR flag HAS_SINGLE_DELETE)),
             h_DeleteRangeCF := (\<lambda>_ _ _ f. (OK, f OR flag HAS_DELETE_RANGE)),
             h_MergeCF := (\<lambda>_ _ _ f. (OK, f OR flag HAS_MERGE)),
             h_PutBlobIndexCF := (\<lambda>_ _ _ f. (OK, f OR flag HAS_BLOB_INDEX)),
             h_MarkBeginPrepare := (\<lambda>unprepare f.
               (OK, let f = f OR flag HAS_BEGIN_PREPARE
                    in if unprepare then f OR flag HAS_BEGIN_UNPREPARE else f)),
             h_MarkEndPrepare := (\<lambda>_ f. (OK, f OR flag HAS_END_PREPARE)),
             h_MarkCommit := (\<lambda>_ f. (OK, f OR flag HAS_COMMIT)),
             h_MarkCommitWithTimestamp := (\<lambda>_ _ f. (OK, f OR flag HAS_COMMIT)),
             h_MarkRollback := (\<lambda>_ f. (OK, f OR flag HAS_ROLLBACK))\<rparr>"

section \<open>Reading records\<close>

definition PackValueAndWriteTime :: "slice \<Rightarrow> u64 \<Rightarrow> slice" where
  "PackValueAndWriteTime value unix_write_time = PutFixed64 value unix_write_time"

definition ParsePackedValueWithWriteTime :: "slice \<Rightarrow> (slice \<times> u64) option" where
  "ParsePackedValueWithWriteTime value =
     (if length value < 8 then None
      else map_option (\<lambda>t. (take (length value - 8) value, t))
             (fst (GetFixed64 (drop (length value - 8) value))))"

text \<open>The variables that the reader of a record fills in.\<close>

record batch_entry =
  be_tag :: byte
  be_column_family :: u32
  be_key :: slice
  be_value :: slice
  be_blob :: slice
  be_xid :: slice
  be_write_unix_time :: u64

text \<open>
  The steps of the \<open>switch\<close>: a chain of \<open>GetLengthPrefixedSlice\<close> into the given variables, and
  the column family in front of it that the labels with \<open>ColumnFamily\<close> read before they fall
  through.
\<close>

fun read_slices ::
    "string \<Rightarrow> (slice \<Rightarrow> batch_entry \<Rightarrow> batch_entry) list \<Rightarrow> slice \<Rightarrow> batch_entry
      \<Rightarrow> status \<times> slice \<times> batch_entry" where
  "read_slices msg [] input e = (OK, input, e)"
| "read_slices msg (assign # assigns) input e =
     (case GetLengthPrefixedSlice input of
        (None, input) \<Rightarrow> (Corruption (str msg) [], input, e)
      | (Some s, input) \<Rightarrow> read_slices msg assigns input (assign s e))"

definition read_entry ::
    "bool \<Rightarrow> string \<Rightarrow> (slice \<Rightarrow> batch_entry \<Rightarrow> batch_entry) list \<Rightarrow> slice \<Rightarrow> batch_entry
      \<Rightarrow> status \<times> slice \<times> batch_entry" where
  "read_entry with_column_family msg assigns input e =
     (if with_column_family
      then case GetVarint32 input of
             (None, input) \<Rightarrow> (Corruption (str msg) [], input, e)
           | (Some cf, input) \<Rightarrow> read_slices msg assigns input (e\<lparr>be_column_family := cf\<rparr>)
      else read_slices msg assigns input e)"

abbreviation to_key :: "slice \<Rightarrow> batch_entry \<Rightarrow> batch_entry" where
  "to_key s e \<equiv> e\<lparr>be_key := s\<rparr>"
abbreviation to_value :: "slice \<Rightarrow> batch_entry \<Rightarrow> batch_entry" where
  "to_value s e \<equiv> e\<lparr>be_value := s\<rparr>"
abbreviation to_blob :: "slice \<Rightarrow> batch_entry \<Rightarrow> batch_entry" where
  "to_blob s e \<equiv> e\<lparr>be_blob := s\<rparr>"
abbreviation to_xid :: "slice \<Rightarrow> batch_entry \<Rightarrow> batch_entry" where
  "to_xid s e \<equiv> e\<lparr>be_xid := s\<rparr>"

text \<open>The number of an unknown tag is printed from the signed \<open>char\<close>.\<close>

definition unknown_tag :: "byte \<Rightarrow> status" where
  "unknown_tag tag =
     Corruption (str ''unknown WriteBatch tag'') (to_string (unat (scast tag :: u32)))"

definition read_timed_put ::
    "bool \<Rightarrow> bool \<Rightarrow> slice \<Rightarrow> batch_entry \<Rightarrow> (status \<times> slice \<times> batch_entry) option" where
  "read_timed_put with_column_family want_time input e =
     (case read_entry with_column_family ''bad WriteBatch TimedPut'' [to_key, to_value] input e of
        (s, input, e) \<Rightarrow>
          if ok s \<and> want_time
          then map_option
                 (\<lambda>(v, t). (s, input, e\<lparr>be_value := v, be_write_unix_time := t\<rparr>))
                 (ParsePackedValueWithWriteTime (be_value e))
          else Some (s, input, e))"

definition read_commit_with_timestamp ::
    "slice \<Rightarrow> batch_entry \<Rightarrow> status \<times> slice \<times> batch_entry" where
  "read_commit_with_timestamp input e =
     (case read_slices ''bad commit timestamp'' [to_key] input e of
        (s, input, e) \<Rightarrow>
          if ok s then read_slices ''bad Commit XID'' [to_xid] input e else (s, input, e))"

text \<open>\<open>want_time\<close> is whether the caller passes a place for the write time.\<close>

definition ReadRecordFromWriteBatch ::
    "bool \<Rightarrow> slice \<Rightarrow> batch_entry \<Rightarrow> (status \<times> slice \<times> batch_entry) option" where
  "ReadRecordFromWriteBatch want_time input e =
    (let tag = hd input;
         input = remove_prefix input 1;
         e = e\<lparr>be_tag := tag, be_column_family := 0\<rparr>
     in if tag = kTypeColumnFamilyValue \<or> tag = kTypeValue then
          Some (read_entry (tag = kTypeColumnFamilyValue) ''bad WriteBatch Put''
                  [to_key, to_value] input e)
        else if tag = kTypeColumnFamilyDeletion \<or> tag = kTypeColumnFamilySingleDeletion \<or>
                tag = kTypeDeletion \<or> tag = kTypeSingleDeletion then
          Some (read_entry (tag = kTypeColumnFamilyDeletion \<or> tag = kTypeColumnFamilySingleDeletion)
                  ''bad WriteBatch Delete'' [to_key] input e)
        else if tag = kTypeColumnFamilyRangeDeletion \<or> tag = kTypeRangeDeletion then
          Some (read_entry (tag = kTypeColumnFamilyRangeDeletion) ''bad WriteBatch DeleteRange''
                  [to_key, to_value] input e)
        else if tag = kTypeColumnFamilyMerge \<or> tag = kTypeMerge then
          Some (read_entry (tag = kTypeColumnFamilyMerge) ''bad WriteBatch Merge''
                  [to_key, to_value] input e)
        else if tag = kTypeColumnFamilyBlobIndex \<or> tag = kTypeBlobIndex then
          Some (read_entry (tag = kTypeColumnFamilyBlobIndex) ''bad WriteBatch BlobIndex''
                  [to_key, to_value] input e)
        else if tag = kTypeLogData then
          Some (read_slices ''bad WriteBatch Blob'' [to_blob] input e)
        else if tag = kTypeNoop \<or> tag = kTypeBeginPrepareXID \<or>
                tag = kTypeBeginPersistedPrepareXID \<or> tag = kTypeBeginUnprepareXID then
          Some (OK, input, e)
        else if tag = kTypeEndPrepareXID then
          Some (read_slices ''bad EndPrepare XID'' [to_xid] input e)
        else if tag = kTypeCommitXIDAndTimestamp then
          Some (read_commit_with_timestamp input e)
        else if tag = kTypeCommitXID then
          Some (read_slices ''bad Commit XID'' [to_xid] input e)
        else if tag = kTypeRollbackXID then
          Some (read_slices ''bad Rollback XID'' [to_xid] input e)
        else if tag = kTypeColumnFamilyWideColumnEntity \<or> tag = kTypeWideColumnEntity then
          Some (read_entry (tag = kTypeColumnFamilyWideColumnEntity) ''bad WriteBatch PutEntity''
                  [to_key, to_value] input e)
        else if tag = kTypeColumnFamilyValuePreferredSeqno \<or> tag = kTypeValuePreferredSeqno then
          read_timed_put (tag = kTypeColumnFamilyValuePreferredSeqno) want_time input e
        else Some (unknown_tag tag, input, e))"

section \<open>Iterating\<close>

text \<open>
  The second \<open>switch\<close>, which passes the record to the handler. Its result is Inl for the
  \<open>return\<close> of the default label, otherwise the status, \<open>empty_batch\<close> and \<open>found\<close> behind it.
\<close>

type_synonym dispatched = "status + status \<times> bool \<times> u32"

definition count_entry :: "status \<times> 'h \<Rightarrow> bool \<Rightarrow> u32 \<Rightarrow> dispatched \<times> 'h" where
  "count_entry r empty_batch found =
     (case r of (s, h) \<Rightarrow>
        (Inr (if ok s then (s, False, found + 1) else (s, empty_batch, found)), h))"

definition end_batch :: "status \<times> 'h \<Rightarrow> u32 \<Rightarrow> dispatched \<times> 'h" where
  "end_batch r found = (case r of (s, h) \<Rightarrow> (Inr (s, True, found), h))"

text \<open>The errors for the marker of a transaction written under another policy.\<close>

definition check_write_policy :: "value_type \<Rightarrow> OptionState \<Rightarrow> OptionState \<Rightarrow> status option" where
  "check_write_policy tag write_after_commit write_before_prepare =
     (if tag = kTypeBeginPrepareXID then
        (if write_before_prepare = kEnabled then
           Some (NotSupported (str ''WriteCommitted txn tag when write_before_prepare_ is enabled (in WriteUnprepared mode). If it is not due to corruption, the WAL must be emptied before changing the WritePolicy.'') [])
         else if write_after_commit = kDisabled then
           Some (NotSupported (str ''WriteCommitted txn tag when write_after_commit_ is disabled (in WritePrepared/WriteUnprepared mode). If it is not due to corruption, the WAL must be emptied before changing the WritePolicy.'') [])
         else None)
      else if tag = kTypeBeginPersistedPrepareXID then
        (if write_after_commit = kEnabled then
           Some (NotSupported (str ''WritePrepared/WriteUnprepared txn tag when write_after_commit_ is enabled (in default WriteCommitted mode). If it is not due to corruption, the WAL must be emptied before changing the WritePolicy.'') [])
         else None)
      else
        (if write_before_prepare = kDisabled then
           Some (NotSupported (str ''WriteUnprepared txn tag when write_before_prepare_ is disabled (in WriteCommitted/WritePrepared mode). If it is not due to corruption, the WAL must be emptied before changing the WritePolicy.'') [])
         else if write_after_commit = kEnabled then
           Some (NotSupported (str ''WriteUnprepared txn tag when write_after_commit_ is enabled (in default WriteCommitted mode). If it is not due to corruption, the WAL must be emptied before changing the WritePolicy.'') [])
         else None))"

definition dispatch_begin_prepare ::
    "'h handler \<Rightarrow> value_type \<Rightarrow> u32 \<Rightarrow> 'h \<Rightarrow> dispatched \<times> 'h" where
  "dispatch_begin_prepare hr tag found h =
     (case h_MarkBeginPrepare hr (tag = kTypeBeginUnprepareXID) h of
        (s, h) \<Rightarrow>
          (Inr (case check_write_policy tag (h_WriteAfterCommit hr h) (h_WriteBeforePrepare hr h) of
                  None \<Rightarrow> s | Some err \<Rightarrow> err, False, found), h))"

definition Iterate_dispatch ::
    "'h handler \<Rightarrow> batch_entry \<Rightarrow> bool \<Rightarrow> u32 \<Rightarrow> 'h \<Rightarrow> dispatched \<times> 'h" where
  "Iterate_dispatch hr e empty_batch found h =
    (let tag = be_tag e; cf = be_column_family e; key = be_key e; value = be_value e; xid = be_xid e
     in if tag = kTypeColumnFamilyValue \<or> tag = kTypeValue then
          count_entry (h_PutCF hr cf key value h) empty_batch found
        else if tag = kTypeColumnFamilyDeletion \<or> tag = kTypeDeletion then
          count_entry (h_DeleteCF hr cf key h) empty_batch found
        else if tag = kTypeColumnFamilySingleDeletion \<or> tag = kTypeSingleDeletion then
          count_entry (h_SingleDeleteCF hr cf key h) empty_batch found
        else if tag = kTypeColumnFamilyRangeDeletion \<or> tag = kTypeRangeDeletion then
          count_entry (h_DeleteRangeCF hr cf key value h) empty_batch found
        else if tag = kTypeColumnFamilyMerge \<or> tag = kTypeMerge then
          count_entry (h_MergeCF hr cf key value h) empty_batch found
        else if tag = kTypeColumnFamilyBlobIndex \<or> tag = kTypeBlobIndex then
          (case h_PutBlobIndexCF hr cf key value h of
             (s, h) \<Rightarrow> (Inr (s, empty_batch, if ok s then found + 1 else found), h))
        else if tag = kTypeLogData then
          (Inr (OK, False, found), h_LogData hr (be_blob e) h)
        else if tag = kTypeBeginPrepareXID \<or> tag = kTypeBeginPersistedPrepareXID \<or>
                tag = kTypeBeginUnprepareXID then
          dispatch_begin_prepare hr tag found h
        else if tag = kTypeEndPrepareXID then end_batch (h_MarkEndPrepare hr xid h) found
        else if tag = kTypeCommitXID then end_batch (h_MarkCommit hr xid h) found
        else if tag = kTypeCommitXIDAndTimestamp then
          (case h_MarkCommitWithTimestamp hr xid key h of
             (s, h) \<Rightarrow> (Inr (s, if ok s then True else empty_batch, found), h))
        else if tag = kTypeRollbackXID then end_batch (h_MarkRollback hr xid h) found
        else if tag = kTypeNoop then end_batch (h_MarkNoop hr empty_batch h) found
        else if tag = kTypeWideColumnEntity \<or> tag = kTypeColumnFamilyWideColumnEntity then
          count_entry (h_PutEntityCF hr cf key value h) empty_batch found
        else if tag = kTypeValuePreferredSeqno \<or> tag = kTypeColumnFamilyValuePreferredSeqno then
          count_entry (h_TimedPutCF hr cf key value (be_write_unix_time e) h) empty_batch found
        else (Inl (unknown_tag tag), h))"

text \<open>Reading a record consumes at least its tag, whether or not it succeeds.\<close>

lemma GetVarint32_shrinks: "GetVarint32 input = (v, rest) \<Longrightarrow> length rest \<le> length input"
  using GetVarint32Ptr_shrinks by (fastforce simp: GetVarint32_def split: option.splits)

lemma GetLengthPrefixedSlice_shrinks:
  "GetLengthPrefixedSlice input = (v, rest) \<Longrightarrow> length rest \<le> length input"
  using GetVarint32_shrinks
  by (fastforce simp: GetLengthPrefixedSlice_def split: prod.splits option.splits if_splits)

lemma read_slices_shrinks:
  "read_slices msg as input e = (s, rest, e') \<Longrightarrow> length rest \<le> length input"
proof (induction msg as input e rule: read_slices.induct)
  case (2 msg a as input e)
  show ?case
  proof (cases "GetLengthPrefixedSlice input")
    case (Pair v r)
    with GetLengthPrefixedSlice_shrinks [OF Pair] show ?thesis
      using 2 by (cases v) fastforce+
  qed
qed simp

lemma read_entry_shrinks:
  "read_entry cf msg as input e = (s, rest, e') \<Longrightarrow> length rest \<le> length input"
  by (auto simp: read_entry_def split: if_splits prod.splits option.splits
      dest!: GetVarint32_shrinks read_slices_shrinks)

lemma ReadRecordFromWriteBatch_shrinks:
  assumes "ReadRecordFromWriteBatch w input e = Some (s, rest, e')" and "input \<noteq> []"
  shows "length rest < length input"
proof -
  have "length rest \<le> length (remove_prefix input 1)"
    using assms(1) unfolding ReadRecordFromWriteBatch_def Let_def
    by (auto simp: read_timed_put_def read_commit_with_timestamp_def simp del: read_slices.simps
        split: if_splits prod.splits dest!: read_entry_shrinks read_slices_shrinks)
  with assms(2) show ?thesis by (cases input) (auto simp: remove_prefix_def)
qed

text \<open>
  The loop of \<open>Iterate\<close>: Inl for a \<open>return\<close> from inside it, otherwise the status, \<open>found\<close> and
  \<open>handler_continue\<close> behind it. A handler that answers TryAgain is given the same record again,
  once.
\<close>

function (sequential) Iterate_loop ::
    "'h handler \<Rightarrow> status \<Rightarrow> slice \<Rightarrow> batch_entry \<Rightarrow> bool \<Rightarrow> bool \<Rightarrow> u32 \<Rightarrow> 'h
      \<Rightarrow> ((status + status \<times> u32 \<times> bool) \<times> 'h) option" where
  "Iterate_loop hr s input e last_was_try_again empty_batch found h =
    (if \<not> (ok s \<and> input \<noteq> [] \<or> IsTryAgain s) then Some (Inr (s, found, True), h)
     else let (handler_continue, h) = h_Continue hr h in
       if \<not> handler_continue then Some (Inr (s, found, False), h)
       else if \<not> IsTryAgain s then
         (case ReadRecordFromWriteBatch True input e of
            None \<Rightarrow> None
          | Some (s, input, e) \<Rightarrow>
              if \<not> ok s then Some (Inl s, h)
              else case Iterate_dispatch hr e empty_batch found h of
                     (Inl s, h) \<Rightarrow> Some (Inl s, h)
                   | (Inr (s, empty_batch, found), h) \<Rightarrow>
                       Iterate_loop hr s input e False empty_batch found h)
       else if last_was_try_again then
         Some (Inl (Corruption (str ''two consecutive TryAgain in WriteBatch handler; this is either a software bug or data corruption.'') []), h)
       else case Iterate_dispatch hr e empty_batch found h of
              (Inl s, h) \<Rightarrow> Some (Inl s, h)
            | (Inr (s, empty_batch, found), h) \<Rightarrow>
                Iterate_loop hr s input e True empty_batch found h)"
  by pat_completeness auto
termination
  by (relation "measure (\<lambda>(hr, s, input, e, last, eb, found, h).
      2 * length input + (if IsTryAgain s \<and> \<not> last then 1 else 0))")
     (auto dest!: ReadRecordFromWriteBatch_shrinks)

declare Iterate_loop.simps [simp del]

definition batch_entry_init :: batch_entry where
  "batch_entry_init =
     \<lparr>be_tag = 0, be_column_family = 0, be_key = [], be_value = [], be_blob = [], be_xid = [],
      be_write_unix_time = 0\<rparr>"

definition Iterate_range ::
    "WriteBatch \<Rightarrow> 'h handler \<Rightarrow> nat \<Rightarrow> nat \<Rightarrow> 'h \<Rightarrow> (status \<times> 'h) option" where
  "Iterate_range wb hr begin_off end_off h =
    (if begin_off > length (wb_rep wb) \<or> end_off > length (wb_rep wb) \<or> end_off < begin_off
     then Some (Corruption (str ''Invalid start/end bounds for Iterate'') [], h)
     else
       let input = take (end_off - begin_off) (drop begin_off (wb_rep wb));
           whole_batch = (begin_off = kHeader \<and> end_off = length (wb_rep wb))
       in case Iterate_loop hr OK input batch_entry_init False True 0 h of
            None \<Rightarrow> None
          | Some (Inl s, h) \<Rightarrow> Some (s, h)
          | Some (Inr (s, found, handler_continue), h) \<Rightarrow>
              if \<not> ok s then Some (s, h)
              else if handler_continue \<and> whole_batch \<and> found \<noteq> wb_Count wb
              then Some (Corruption (str ''WriteBatch has wrong count'') [], h)
              else Some (OK, h))"

definition Iterate :: "WriteBatch \<Rightarrow> 'h handler \<Rightarrow> 'h \<Rightarrow> (status \<times> 'h) option" where
  "Iterate wb hr h =
    (if length (wb_rep wb) < kHeader
     then Some (Corruption (str ''malformed WriteBatch (too small)'') [], h)
     else Iterate_range wb hr kHeader (length (wb_rep wb)) h)"

definition ComputeContentFlags :: "WriteBatch \<Rightarrow> (u32 \<times> WriteBatch) option" where
  "ComputeContentFlags b =
     (if content_flags b AND flag DEFERRED \<noteq> 0
      then map_option (\<lambda>(_, rv). (rv, b\<lparr>content_flags := rv\<rparr>)) (Iterate b BatchContentClassifier 0)
      else Some (content_flags b, b))"

text \<open>\<open>HasPut\<close>, \<open>HasDelete\<close> and the others, each with its flag.\<close>

definition wb_Has :: "ContentFlags \<Rightarrow> WriteBatch \<Rightarrow> (bool \<times> WriteBatch) option" where
  "wb_Has f b = map_option (\<lambda>(rv, b). (rv AND flag f \<noteq> 0, b)) (ComputeContentFlags b)"

section \<open>Adding records\<close>

definition LocalSavePoint :: "WriteBatch \<Rightarrow> SavePoint" where
  "LocalSavePoint b =
     \<lparr>sp_size = GetDataSize b, sp_count = wb_Count b, sp_content_flags = content_flags b\<rparr>"

definition commit :: "SavePoint \<Rightarrow> WriteBatch \<Rightarrow> status \<times> WriteBatch" where
  "commit savepoint b =
     (if max_bytes b \<noteq> 0 \<and> length (wb_rep b) > max_bytes b
      then let b = b\<lparr>wb_rep := resize 0 (wb_rep b) (sp_size savepoint)\<rparr>;
               b = SetCount b (sp_count savepoint);
               b = b\<lparr>prot_info :=
                       map_option (\<lambda>es. resize 0 es (unat (sp_count savepoint))) (prot_info b)\<rparr>;
               b = b\<lparr>content_flags := sp_content_flags savepoint\<rparr>
           in (MemoryLimit, b)
      else (OK, b))"

text \<open>The statements the operations are made of.\<close>

definition push_back :: "value_type \<Rightarrow> WriteBatch \<Rightarrow> WriteBatch" where
  "push_back t b = b\<lparr>wb_rep := wb_rep b @ [t]\<rparr>"

definition push_tag :: "u32 \<Rightarrow> value_type \<Rightarrow> value_type \<Rightarrow> WriteBatch \<Rightarrow> WriteBatch" where
  "push_tag column_family_id t cf_t b =
     (if column_family_id = 0 then push_back t b
      else let b = push_back cf_t b
           in b\<lparr>wb_rep := PutVarint32 (wb_rep b) column_family_id\<rparr>)"

definition put_slice :: "slice \<Rightarrow> WriteBatch \<Rightarrow> WriteBatch" where
  "put_slice s b = b\<lparr>wb_rep := PutLengthPrefixedSlice (wb_rep b) s\<rparr>"

definition put_parts :: "slice list \<Rightarrow> WriteBatch \<Rightarrow> WriteBatch" where
  "put_parts ss b = b\<lparr>wb_rep := PutLengthPrefixedSliceParts (wb_rep b) ss\<rparr>"

definition or_flag :: "ContentFlags \<Rightarrow> WriteBatch \<Rightarrow> WriteBatch" where
  "or_flag f b = b\<lparr>content_flags := content_flags b OR flag f\<rparr>"

definition increment_count :: "WriteBatch \<Rightarrow> WriteBatch" where
  "increment_count b = SetCount b (wb_Count b + 1)"

definition emplace_prot :: "u64 \<Rightarrow> WriteBatch \<Rightarrow> WriteBatch" where
  "emplace_prot v b = b\<lparr>prot_info := map_option (\<lambda>es. es @ [v]) (prot_info b)\<rparr>"

definition u32_max :: nat where
  "u32_max = 2 ^ 32 - 1"

definition wbi_Put ::
    "hash_fn \<Rightarrow> WriteBatch \<Rightarrow> u32 \<Rightarrow> slice \<Rightarrow> slice \<Rightarrow> status \<times> WriteBatch" where
  "wbi_Put np b cf key value =
    (if length key > u32_max then (InvalidArgument (str ''key is too large'') [], b)
     else if length value > u32_max then (InvalidArgument (str ''value is too large'') [], b)
     else
       let save = LocalSavePoint b;
           b = increment_count b;
           b = push_tag cf kTypeValue kTypeColumnFamilyValue b;
           b = put_slice key b;
           b = put_slice value b;
           b = or_flag HAS_PUT b;
           b = emplace_prot (ProtectC np (ProtectKVO np 0 key value kTypeValue) cf) b
       in commit save b)"

definition wbi_TimedPut ::
    "hash_fn \<Rightarrow> WriteBatch \<Rightarrow> u32 \<Rightarrow> slice \<Rightarrow> slice \<Rightarrow> u64 \<Rightarrow> status \<times> WriteBatch" where
  "wbi_TimedPut np b cf key value write_unix_time =
    (if length key > u32_max then (InvalidArgument (str ''key is too large'') [], b)
     else if length value > u32_max then (InvalidArgument (str ''value is too large'') [], b)
     else if write_unix_time = - 1 then wbi_Put np b cf key value
     else
       let save = LocalSavePoint b;
           b = increment_count b;
           b = push_tag cf kTypeValuePreferredSeqno kTypeColumnFamilyValuePreferredSeqno b;
           packed_value = PackValueAndWriteTime value write_unix_time;
           b = put_slice key b;
           b = put_slice packed_value b;
           b = or_flag HAS_TIMED_PUT b;
           b = emplace_prot
                 (ProtectC np (ProtectKVO np 0 key packed_value kTypeValuePreferredSeqno) cf) b
       in commit save b)"

definition CheckSlicePartsLength :: "slice list \<Rightarrow> slice list \<Rightarrow> status" where
  "CheckSlicePartsLength key value =
     (let total_key_bytes = foldl (\<lambda>t part. t + length part) 0 key
      in if total_key_bytes \<ge> u32_max then InvalidArgument (str ''key is too large'') []
         else let total_value_bytes = foldl (\<lambda>t part. t + length part) 0 value
              in if total_value_bytes \<ge> u32_max
                 then InvalidArgument (str ''value is too large'') []
                 else OK)"

definition wbi_Put_parts ::
    "hash_fn \<Rightarrow> WriteBatch \<Rightarrow> u32 \<Rightarrow> slice list \<Rightarrow> slice list \<Rightarrow> status \<times> WriteBatch" where
  "wbi_Put_parts np b cf key value =
    (let s = CheckSlicePartsLength key value
     in if \<not> ok s then (s, b)
        else
          let save = LocalSavePoint b;
              b = increment_count b;
              b = push_tag cf kTypeValue kTypeColumnFamilyValue b;
              b = put_parts key b;
              b = put_parts value b;
              b = or_flag HAS_PUT b;
              b = emplace_prot (ProtectC np (ProtectKVO_parts np 0 key value kTypeValue) cf) b
          in commit save b)"

definition wbi_Delete :: "hash_fn \<Rightarrow> WriteBatch \<Rightarrow> u32 \<Rightarrow> slice \<Rightarrow> status \<times> WriteBatch" where
  "wbi_Delete np b cf key =
    (let save = LocalSavePoint b;
         b = increment_count b;
         b = push_tag cf kTypeDeletion kTypeColumnFamilyDeletion b;
         b = put_slice key b;
         b = or_flag HAS_DELETE b;
         b = emplace_prot (ProtectC np (ProtectKVO np 0 key [] kTypeDeletion) cf) b
     in commit save b)"

definition wbi_Delete_parts ::
    "hash_fn \<Rightarrow> WriteBatch \<Rightarrow> u32 \<Rightarrow> slice list \<Rightarrow> status \<times> WriteBatch" where
  "wbi_Delete_parts np b cf key =
    (let save = LocalSavePoint b;
         b = increment_count b;
         b = push_tag cf kTypeDeletion kTypeColumnFamilyDeletion b;
         b = put_parts key b;
         b = or_flag HAS_DELETE b;
         b = emplace_prot (ProtectC np (ProtectKVO_parts np 0 key [] kTypeDeletion) cf) b
     in commit save b)"

definition wbi_SingleDelete ::
    "hash_fn \<Rightarrow> WriteBatch \<Rightarrow> u32 \<Rightarrow> slice \<Rightarrow> status \<times> WriteBatch" where
  "wbi_SingleDelete np b cf key =
    (let save = LocalSavePoint b;
         b = increment_count b;
         b = push_tag cf kTypeSingleDeletion kTypeColumnFamilySingleDeletion b;
         b = put_slice key b;
         b = or_flag HAS_SINGLE_DELETE b;
         b = emplace_prot (ProtectC np (ProtectKVO np 0 key [] kTypeSingleDeletion) cf) b
     in commit save b)"

definition wbi_SingleDelete_parts ::
    "hash_fn \<Rightarrow> WriteBatch \<Rightarrow> u32 \<Rightarrow> slice list \<Rightarrow> status \<times> WriteBatch" where
  "wbi_SingleDelete_parts np b cf key =
    (let save = LocalSavePoint b;
         b = increment_count b;
         b = push_tag cf kTypeSingleDeletion kTypeColumnFamilySingleDeletion b;
         b = put_parts key b;
         b = or_flag HAS_SINGLE_DELETE b;
         b = emplace_prot (ProtectC np (ProtectKVO_parts np 0 key [] kTypeSingleDeletion) cf) b
     in commit save b)"

definition wbi_DeleteRange ::
    "hash_fn \<Rightarrow> WriteBatch \<Rightarrow> u32 \<Rightarrow> slice \<Rightarrow> slice \<Rightarrow> status \<times> WriteBatch" where
  "wbi_DeleteRange np b cf begin_k end_k =
    (let save = LocalSavePoint b;
         b = increment_count b;
         b = push_tag cf kTypeRangeDeletion kTypeColumnFamilyRangeDeletion b;
         b = put_slice begin_k b;
         b = put_slice end_k b;
         b = or_flag HAS_DELETE_RANGE b;
         b = emplace_prot
               (ProtectC np (ProtectKVO np 0 begin_k end_k kTypeRangeDeletion) cf) b
     in commit save b)"

definition wbi_DeleteRange_parts ::
    "hash_fn \<Rightarrow> WriteBatch \<Rightarrow> u32 \<Rightarrow> slice list \<Rightarrow> slice list \<Rightarrow> status \<times> WriteBatch" where
  "wbi_DeleteRange_parts np b cf begin_k end_k =
    (let save = LocalSavePoint b;
         b = increment_count b;
         b = push_tag cf kTypeRangeDeletion kTypeColumnFamilyRangeDeletion b;
         b = put_parts begin_k b;
         b = put_parts end_k b;
         b = or_flag HAS_DELETE_RANGE b;
         b = emplace_prot
               (ProtectC np (ProtectKVO_parts np 0 begin_k end_k kTypeRangeDeletion) cf) b
     in commit save b)"

definition wbi_Merge ::
    "hash_fn \<Rightarrow> WriteBatch \<Rightarrow> u32 \<Rightarrow> slice \<Rightarrow> slice \<Rightarrow> status \<times> WriteBatch" where
  "wbi_Merge np b cf key value =
    (if length key > u32_max then (InvalidArgument (str ''key is too large'') [], b)
     else if length value > u32_max then (InvalidArgument (str ''value is too large'') [], b)
     else
       let save = LocalSavePoint b;
           b = increment_count b;
           b = push_tag cf kTypeMerge kTypeColumnFamilyMerge b;
           b = put_slice key b;
           b = put_slice value b;
           b = or_flag HAS_MERGE b;
           b = emplace_prot (ProtectC np (ProtectKVO np 0 key value kTypeMerge) cf) b
       in commit save b)"

definition wbi_Merge_parts ::
    "hash_fn \<Rightarrow> WriteBatch \<Rightarrow> u32 \<Rightarrow> slice list \<Rightarrow> slice list \<Rightarrow> status \<times> WriteBatch" where
  "wbi_Merge_parts np b cf key value =
    (let s = CheckSlicePartsLength key value
     in if \<not> ok s then (s, b)
        else
          let save = LocalSavePoint b;
              b = increment_count b;
              b = push_tag cf kTypeMerge kTypeColumnFamilyMerge b;
              b = put_parts key b;
              b = put_parts value b;
              b = or_flag HAS_MERGE b;
              b = emplace_prot (ProtectC np (ProtectKVO_parts np 0 key value kTypeMerge) cf) b
          in commit save b)"

definition wbi_PutBlobIndex ::
    "hash_fn \<Rightarrow> WriteBatch \<Rightarrow> u32 \<Rightarrow> slice \<Rightarrow> slice \<Rightarrow> status \<times> WriteBatch" where
  "wbi_PutBlobIndex np b cf key value =
    (let save = LocalSavePoint b;
         b = increment_count b;
         b = push_tag cf kTypeBlobIndex kTypeColumnFamilyBlobIndex b;
         b = put_slice key b;
         b = put_slice value b;
         b = or_flag HAS_BLOB_INDEX b;
         b = emplace_prot (ProtectC np (ProtectKVO np 0 key value kTypeBlobIndex) cf) b
     in commit save b)"

definition PutLogData :: "WriteBatch \<Rightarrow> slice \<Rightarrow> status \<times> WriteBatch" where
  "PutLogData b blob =
    (let save = LocalSavePoint b;
         b = push_back kTypeLogData b;
         b = put_slice blob b
     in commit save b)"

section \<open>Transaction markers\<close>

definition InsertNoop :: "WriteBatch \<Rightarrow> status \<times> WriteBatch" where
  "InsertNoop b = (OK, push_back kTypeNoop b)"

definition GetBeginPrepareType :: "bool \<Rightarrow> bool \<Rightarrow> value_type" where
  "GetBeginPrepareType write_after_commit unprepared_batch =
     (if write_after_commit then kTypeBeginPrepareXID
      else if unprepared_batch then kTypeBeginUnprepareXID
      else kTypeBeginPersistedPrepareXID)"

definition InsertBeginPrepare :: "WriteBatch \<Rightarrow> bool \<Rightarrow> bool \<Rightarrow> status \<times> WriteBatch" where
  "InsertBeginPrepare b write_after_commit unprepared_batch =
     (OK, or_flag HAS_BEGIN_PREPARE
            (push_back (GetBeginPrepareType write_after_commit unprepared_batch) b))"

definition InsertEndPrepare :: "WriteBatch \<Rightarrow> slice \<Rightarrow> status \<times> WriteBatch" where
  "InsertEndPrepare b xid =
     (OK, or_flag HAS_END_PREPARE (put_slice xid (push_back kTypeEndPrepareXID b)))"

definition wbi_MarkEndPrepare ::
    "WriteBatch \<Rightarrow> slice \<Rightarrow> bool \<Rightarrow> bool \<Rightarrow> status \<times> WriteBatch" where
  "wbi_MarkEndPrepare b xid write_after_commit unprepared_batch =
    (let b = b\<lparr>save_points := map_option (\<lambda>_. []) (save_points b)\<rparr>;
         b = b\<lparr>wb_rep := (wb_rep b)[12 := GetBeginPrepareType write_after_commit unprepared_batch]\<rparr>;
         b = or_flag HAS_BEGIN_PREPARE b;
         b = (if unprepared_batch then or_flag HAS_BEGIN_UNPREPARE b else b)
     in InsertEndPrepare b xid)"

definition wbi_MarkCommit :: "WriteBatch \<Rightarrow> slice \<Rightarrow> status \<times> WriteBatch" where
  "wbi_MarkCommit b xid =
     (OK, or_flag HAS_COMMIT (put_slice xid (push_back kTypeCommitXID b)))"

definition wbi_MarkCommitWithTimestamp ::
    "WriteBatch \<Rightarrow> slice \<Rightarrow> slice \<Rightarrow> status \<times> WriteBatch" where
  "wbi_MarkCommitWithTimestamp b xid commit_ts =
     (OK, or_flag HAS_COMMIT
            (put_slice xid (put_slice commit_ts (push_back kTypeCommitXIDAndTimestamp b))))"

definition wbi_MarkRollback :: "WriteBatch \<Rightarrow> slice \<Rightarrow> status \<times> WriteBatch" where
  "wbi_MarkRollback b xid =
     (OK, or_flag HAS_ROLLBACK (put_slice xid (push_back kTypeRollbackXID b)))"

section \<open>Save points, contents and appending\<close>

definition SetSavePoint :: "WriteBatch \<Rightarrow> WriteBatch" where
  "SetSavePoint b =
    (let stack = (case save_points b of None \<Rightarrow> [] | Some ps \<Rightarrow> ps)
     in b\<lparr>save_points :=
            Some (\<lparr>sp_size = GetDataSize b, sp_count = wb_Count b,
                   sp_content_flags = content_flags b\<rparr> # stack)\<rparr>)"

definition RollbackToSavePoint :: "WriteBatch \<Rightarrow> status \<times> WriteBatch" where
  "RollbackToSavePoint b =
    (case save_points b of
       Some (savepoint # ps) \<Rightarrow>
         let b = b\<lparr>save_points := Some ps\<rparr>
         in if sp_size savepoint = length (wb_rep b) then (OK, b)
            else if sp_size savepoint = 0 then (OK, wb_Clear b)
            else
              let b = b\<lparr>wb_rep := resize 0 (wb_rep b) (sp_size savepoint)\<rparr>;
                  b = b\<lparr>prot_info :=
                          map_option (\<lambda>es. resize 0 es (unat (sp_count savepoint))) (prot_info b)\<rparr>;
                  b = SetCount b (sp_count savepoint);
                  b = b\<lparr>content_flags := sp_content_flags savepoint\<rparr>
              in (OK, b)
     | _ \<Rightarrow> (Status_code kNotFound kNone, b))"

definition PopSavePoint :: "WriteBatch \<Rightarrow> status \<times> WriteBatch" where
  "PopSavePoint b =
    (case save_points b of
       Some (savepoint # ps) \<Rightarrow> (OK, b\<lparr>save_points := Some ps\<rparr>)
     | _ \<Rightarrow> (Status_code kNotFound kNone, b))"

definition SetContents :: "WriteBatch \<Rightarrow> slice \<Rightarrow> status \<times> WriteBatch" where
  "SetContents b contents = (OK, b\<lparr>wb_rep := contents, content_flags := flag DEFERRED\<rparr>)"

text \<open>
  \<open>src_count\<close> is a signed number, which the sum with the count of the destination reads as unsigned
  again, and the copying of the protection does not. None is undefined behaviour: a termination
  point beyond the end of the batch (or in front of the header, so that the length wraps around),
  and protection to be copied up to a negative count or past its end.
\<close>

definition wb_Append :: "WriteBatch \<Rightarrow> WriteBatch \<Rightarrow> bool \<Rightarrow> (status \<times> WriteBatch) option" where
  "wb_Append dst src wal_only =
    (if (case prot_info src of None \<Rightarrow> False | Some es \<Rightarrow> length es \<noteq> unat (wb_Count src)) \<or>
        (case prot_info dst of None \<Rightarrow> False | Some es \<Rightarrow> length es \<noteq> unat (wb_Count dst))
     then Some (Corruption
             (str ''Write batch has inconsistent count and number of checksums'') [], dst)
     else
       let batch_end = wal_term_point src;
           (src_size, src_count, src_flags) =
             (if wal_only \<and> \<not> is_cleared batch_end
              then (sp_size batch_end, sp_count batch_end, sp_content_flags batch_end)
              else (length (wb_rep src), wb_Count src, content_flags src));
           src_len = src_size - kHeader
       in if (case prot_info src of
                None \<Rightarrow> False
              | Some es \<Rightarrow> sint src_count < 0 \<or> sint src_count > int (length es)) \<or>
             src_size < kHeader \<or> src_size > length (wb_rep src)
          then None
          else
            let dst = dst\<lparr>prot_info :=
                  (case prot_info src of
                     Some es \<Rightarrow>
                       Some ((case prot_info dst of None \<Rightarrow> [] | Some ds \<Rightarrow> ds) @
                             take (nat (sint src_count)) es)
                   | None \<Rightarrow> None)\<rparr>;
                dst = SetCount dst (wb_Count dst + src_count);
                dst = dst\<lparr>wb_rep := wb_rep dst @ take src_len (drop kHeader (wb_rep src))\<rparr>;
                dst = dst\<lparr>content_flags := content_flags dst OR src_flags\<rparr>
            in Some (OK, dst))"

section \<open>Checking the protection\<close>

text \<open>
  The tag that the protection of a record was computed with; None for the records that carry
  none.
\<close>

definition protected_tag :: "value_type \<Rightarrow> status + value_type option" where
  "protected_tag tag =
    (if tag = kTypeColumnFamilyValue \<or> tag = kTypeValue then Inr (Some kTypeValue)
     else if tag = kTypeColumnFamilyDeletion \<or> tag = kTypeDeletion then Inr (Some kTypeDeletion)
     else if tag = kTypeColumnFamilySingleDeletion \<or> tag = kTypeSingleDeletion
     then Inr (Some kTypeSingleDeletion)
     else if tag = kTypeColumnFamilyRangeDeletion \<or> tag = kTypeRangeDeletion
     then Inr (Some kTypeRangeDeletion)
     else if tag = kTypeColumnFamilyMerge \<or> tag = kTypeMerge then Inr (Some kTypeMerge)
     else if tag = kTypeColumnFamilyBlobIndex \<or> tag = kTypeBlobIndex then Inr (Some kTypeBlobIndex)
     else if tag \<in> {kTypeLogData, kTypeBeginPrepareXID, kTypeEndPrepareXID, kTypeCommitXID,
                    kTypeRollbackXID, kTypeNoop, kTypeBeginPersistedPrepareXID,
                    kTypeBeginUnprepareXID, kTypeDeletionWithTimestamp,
                    kTypeCommitXIDAndTimestamp}
     then Inr None
     else if tag = kTypeColumnFamilyWideColumnEntity \<or> tag = kTypeWideColumnEntity
     then Inr (Some kTypeWideColumnEntity)
     else if tag = kTypeColumnFamilyValuePreferredSeqno \<or> tag = kTypeValuePreferredSeqno
     then Inr (Some kTypeValuePreferredSeqno)
     else Inl (unknown_tag tag))"

text \<open>The entries of \<open>prot_info_\<close> from \<open>prot_info_idx\<close> on are the argument \<open>es\<close>.\<close>

function (sequential) VerifyChecksum_loop ::
    "hash_fn \<Rightarrow> slice \<Rightarrow> batch_entry \<Rightarrow> u64 list \<Rightarrow> nat \<Rightarrow> (status + nat) option" where
  "VerifyChecksum_loop np input e es prot_info_idx =
    (if input = [] \<or> es = [] then Some (Inr prot_info_idx)
     else
       case ReadRecordFromWriteBatch False input (e\<lparr>be_key := [], be_value := []\<rparr>) of
         None \<Rightarrow> None
       | Some (s, input, e) \<Rightarrow>
           if \<not> ok s then Some (Inl s)
           else case protected_tag (be_tag e) of
                  Inl s \<Rightarrow> Some (Inl s)
                | Inr None \<Rightarrow> VerifyChecksum_loop np input e es prot_info_idx
                | Inr (Some tag) \<Rightarrow>
                    let s = GetStatus (StripKVO np (StripC np (hd es) (be_column_family e))
                              (be_key e) (be_value e) tag)
                    in if \<not> ok s then Some (Inl s)
                       else VerifyChecksum_loop np input e (tl es) (prot_info_idx + 1))"
  by pat_completeness auto
termination
  by (relation "measure (\<lambda>(np, input, e, es, idx). length input)")
     (auto dest!: ReadRecordFromWriteBatch_shrinks)

declare VerifyChecksum_loop.simps [simp del]

definition VerifyChecksum :: "hash_fn \<Rightarrow> WriteBatch \<Rightarrow> status option" where
  "VerifyChecksum np b =
    (case prot_info b of
       None \<Rightarrow> Some OK
     | Some es \<Rightarrow>
         case VerifyChecksum_loop np (drop kHeader (wb_rep b)) batch_entry_init es 0 of
           None \<Rightarrow> None
         | Some (Inl s) \<Rightarrow> Some s
         | Some (Inr prot_info_idx) \<Rightarrow>
             if prot_info_idx \<noteq> unat (wb_Count b)
             then Some (Corruption (str ''WriteBatch has wrong count'') [])
             else Some OK)"

text \<open>The updater's state is the vector of entries it appends to.\<close>

definition UpdateProtInfo ::
    "hash_fn \<Rightarrow> u32 \<Rightarrow> slice \<Rightarrow> slice list \<Rightarrow> value_type \<Rightarrow> u64 list \<Rightarrow> status \<times> u64 list" where
  "UpdateProtInfo np cf key val op_type es =
     (OK, es @ [ProtectC np (ProtectKVO_parts np 0 [key] val op_type) cf])"

definition ProtectionInfoUpdater :: "hash_fn \<Rightarrow> u64 list handler" where
  "ProtectionInfoUpdater np =
     Handler\<lparr>h_PutCF := (\<lambda>cf k v. UpdateProtInfo np cf k [v] kTypeValue),
             h_TimedPutCF := (\<lambda>cf k v t.
               UpdateProtInfo np cf k [v, PutFixed64 [] t] kTypeValuePreferredSeqno),
             h_PutEntityCF := (\<lambda>cf k v. UpdateProtInfo np cf k [v] kTypeWideColumnEntity),
             h_DeleteCF := (\<lambda>cf k. UpdateProtInfo np cf k [[]] kTypeDeletion),
             h_SingleDeleteCF := (\<lambda>cf k. UpdateProtInfo np cf k [[]] kTypeSingleDeletion),
             h_DeleteRangeCF := (\<lambda>cf k v. UpdateProtInfo np cf k [v] kTypeRangeDeletion),
             h_MergeCF := (\<lambda>cf k v. UpdateProtInfo np cf k [v] kTypeMerge),
             h_PutBlobIndexCF := (\<lambda>cf k v. UpdateProtInfo np cf k [v] kTypeBlobIndex),
             h_MarkBeginPrepare := (\<lambda>_ es. (OK, es)),
             h_MarkEndPrepare := (\<lambda>_ es. (OK, es)),
             h_MarkCommit := (\<lambda>_ es. (OK, es)),
             h_MarkCommitWithTimestamp := (\<lambda>_ _ es. (OK, es)),
             h_MarkRollback := (\<lambda>_ es. (OK, es)),
             h_MarkNoop := (\<lambda>_ es. (OK, es))\<rparr>"

text \<open>\<open>xxh\<close> is \<open>XXH3_64bits\<close>, \<open>checksum\<close> None for the null pointer.\<close>

definition UpdateProtectionInfo ::
    "hash_fn \<Rightarrow> (slice \<Rightarrow> u64) \<Rightarrow> WriteBatch \<Rightarrow> nat \<Rightarrow> u64 option \<Rightarrow> (status \<times> WriteBatch) option" where
  "UpdateProtectionInfo np xxh wb bytes_per_key checksum =
    (if bytes_per_key = 0 then Some (OK, wb\<lparr>prot_info := None\<rparr>)
     else if bytes_per_key = 8 then
       (case prot_info wb of
          Some _ \<Rightarrow> Some (OK, wb)
        | None \<Rightarrow>
            map_option
              (\<lambda>(s, es). (if ok s then (case checksum of
                             None \<Rightarrow> s
                           | Some c \<Rightarrow> if xxh (wb_rep wb) \<noteq> c
                                       then Corruption (str ''Write batch content corrupted.'') []
                                       else s)
                           else s, wb\<lparr>prot_info := Some es\<rparr>))
              (Iterate wb (ProtectionInfoUpdater np) []))
     else Some (NotSupported
            (str ''WriteBatch protection info must be zero or eight bytes/key'') [], wb))"

section \<open>The operations on column families\<close>

text \<open>
  What the operations read of a \<open>ColumnFamilyHandle\<close>: its id, the timestamp size of its
  comparator, if it has one, and whether its options disallow writes to the memtable. The null
  handle is None.
\<close>

record ColumnFamilyHandle =
  cfh_id :: u32
  cfh_ts_sz :: "nat option"
  cfh_disallow_memtable_writes :: bool

definition GetColumnFamilyID :: "ColumnFamilyHandle option \<Rightarrow> u32" where
  "GetColumnFamilyID column_family = (case column_family of None \<Rightarrow> 0 | Some c \<Rightarrow> cfh_id c)"

definition GetColumnFamilyIdAndTimestampSize ::
    "WriteBatch \<Rightarrow> ColumnFamilyHandle option \<Rightarrow> status \<times> u32 \<times> nat" where
  "GetColumnFamilyIdAndTimestampSize b column_family =
    (let cf_id = GetColumnFamilyID column_family
     in case column_family of
          None \<Rightarrow> (OK, cf_id, if default_cf_ts_sz b > 0 then default_cf_ts_sz b else 0)
        | Some c \<Rightarrow>
            let (s, ts_sz) =
                  (case cfh_ts_sz c of
                     None \<Rightarrow> (OK, 0)
                   | Some ts_sz \<Rightarrow>
                       (if cf_id = 0 \<and> default_cf_ts_sz b \<noteq> ts_sz
                        then InvalidArgument (str ''Default cf timestamp size mismatch'') []
                        else OK, ts_sz))
            in (if cfh_disallow_memtable_writes c
                then InvalidArgument
                       (str ''This column family has disallow_memtable_writes=true'') []
                else s, cf_id, ts_sz))"

text \<open>A comparator is asserted to be there; without one the timestamp size is read as 0.\<close>

definition CheckColumnFamilyTimestampSize :: "ColumnFamilyHandle option \<Rightarrow> slice \<Rightarrow> status" where
  "CheckColumnFamilyTimestampSize column_family ts =
    (case column_family of
       None \<Rightarrow> InvalidArgument (str ''column family handle cannot be null'') []
     | Some c \<Rightarrow>
         let cf_ts_sz = (case cfh_ts_sz c of None \<Rightarrow> 0 | Some n \<Rightarrow> n)
         in if cf_ts_sz = 0 then InvalidArgument (str ''timestamp disabled'') []
            else if cf_ts_sz \<noteq> length ts then InvalidArgument (str ''timestamp size mismatch'') []
            else if cfh_disallow_memtable_writes c
            then InvalidArgument (str ''This column family has disallow_memtable_writes=true'') []
            else OK)"

abbreviation track_if_ok :: "u32 \<Rightarrow> nat \<Rightarrow> status \<times> WriteBatch \<Rightarrow> status \<times> WriteBatch" where
  "track_if_ok cf ts_sz r \<equiv>
     (case r of (s, b) \<Rightarrow> (s, if ok s then MaybeTrackTimestampSize b cf ts_sz else b))"

definition wb_Put ::
    "hash_fn \<Rightarrow> WriteBatch \<Rightarrow> ColumnFamilyHandle option \<Rightarrow> slice \<Rightarrow> slice \<Rightarrow> status \<times> WriteBatch" where
  "wb_Put np b column_family key value =
    (case GetColumnFamilyIdAndTimestampSize b column_family of
       (s, cf_id, ts_sz) \<Rightarrow>
         if \<not> ok s then (s, b)
         else track_if_ok cf_id ts_sz
                (if ts_sz = 0 then wbi_Put np b cf_id key value
                 else wbi_Put_parts np (b\<lparr>needs_in_place_update_ts := True, has_key_with_ts := True\<rparr>)
                        cf_id [key, replicate ts_sz 0] [value]))"

definition wb_Put_ts ::
    "hash_fn \<Rightarrow> WriteBatch \<Rightarrow> ColumnFamilyHandle option \<Rightarrow> slice \<Rightarrow> slice \<Rightarrow> slice
      \<Rightarrow> status \<times> WriteBatch" where
  "wb_Put_ts np b column_family key ts value =
    (let s = CheckColumnFamilyTimestampSize column_family ts
     in if \<not> ok s then (s, b)
        else let cf_id = GetColumnFamilyID column_family
             in track_if_ok cf_id (length ts)
                  (wbi_Put_parts np (b\<lparr>has_key_with_ts := True\<rparr>) cf_id [key, ts] [value]))"

definition wb_TimedPut ::
    "hash_fn \<Rightarrow> WriteBatch \<Rightarrow> ColumnFamilyHandle option \<Rightarrow> slice \<Rightarrow> slice \<Rightarrow> u64
      \<Rightarrow> status \<times> WriteBatch" where
  "wb_TimedPut np b column_family key value write_unix_time =
    (case GetColumnFamilyIdAndTimestampSize b column_family of
       (s, cf_id, ts_sz) \<Rightarrow>
         if \<not> ok s then (s, b)
         else if ts_sz \<noteq> 0
         then (NotSupported
                 (str ''TimedPut is not supported in combination with user-defined timestamps.'') [], b)
         else wbi_TimedPut np b cf_id key value write_unix_time)"

definition wb_Delete ::
    "hash_fn \<Rightarrow> WriteBatch \<Rightarrow> ColumnFamilyHandle option \<Rightarrow> slice \<Rightarrow> status \<times> WriteBatch" where
  "wb_Delete np b column_family key =
    (case GetColumnFamilyIdAndTimestampSize b column_family of
       (s, cf_id, ts_sz) \<Rightarrow>
         if \<not> ok s then (s, b)
         else track_if_ok cf_id ts_sz
                (if ts_sz = 0 then wbi_Delete np b cf_id key
                 else wbi_Delete_parts np
                        (b\<lparr>needs_in_place_update_ts := True, has_key_with_ts := True\<rparr>)
                        cf_id [key, replicate ts_sz 0]))"

definition wb_Delete_ts ::
    "hash_fn \<Rightarrow> WriteBatch \<Rightarrow> ColumnFamilyHandle option \<Rightarrow> slice \<Rightarrow> slice \<Rightarrow> status \<times> WriteBatch" where
  "wb_Delete_ts np b column_family key ts =
    (let s = CheckColumnFamilyTimestampSize column_family ts
     in if \<not> ok s then (s, b)
        else let cf_id = GetColumnFamilyID column_family
             in track_if_ok cf_id (length ts)
                  (wbi_Delete_parts np (b\<lparr>has_key_with_ts := True\<rparr>) cf_id [key, ts]))"

definition wb_SingleDelete ::
    "hash_fn \<Rightarrow> WriteBatch \<Rightarrow> ColumnFamilyHandle option \<Rightarrow> slice \<Rightarrow> status \<times> WriteBatch" where
  "wb_SingleDelete np b column_family key =
    (case GetColumnFamilyIdAndTimestampSize b column_family of
       (s, cf_id, ts_sz) \<Rightarrow>
         if \<not> ok s then (s, b)
         else track_if_ok cf_id ts_sz
                (if ts_sz = 0 then wbi_SingleDelete np b cf_id key
                 else wbi_SingleDelete_parts np
                        (b\<lparr>needs_in_place_update_ts := True, has_key_with_ts := True\<rparr>)
                        cf_id [key, replicate ts_sz 0]))"

definition wb_SingleDelete_ts ::
    "hash_fn \<Rightarrow> WriteBatch \<Rightarrow> ColumnFamilyHandle option \<Rightarrow> slice \<Rightarrow> slice \<Rightarrow> status \<times> WriteBatch" where
  "wb_SingleDelete_ts np b column_family key ts =
    (let s = CheckColumnFamilyTimestampSize column_family ts
     in if \<not> ok s then (s, b)
        else let cf_id = GetColumnFamilyID column_family
             in track_if_ok cf_id (length ts)
                  (wbi_SingleDelete_parts np (b\<lparr>has_key_with_ts := True\<rparr>) cf_id [key, ts]))"

definition wb_DeleteRange ::
    "hash_fn \<Rightarrow> WriteBatch \<Rightarrow> ColumnFamilyHandle option \<Rightarrow> slice \<Rightarrow> slice \<Rightarrow> status \<times> WriteBatch" where
  "wb_DeleteRange np b column_family begin_k end_k =
    (case GetColumnFamilyIdAndTimestampSize b column_family of
       (s, cf_id, ts_sz) \<Rightarrow>
         if \<not> ok s then (s, b)
         else track_if_ok cf_id ts_sz
                (if ts_sz = 0 then wbi_DeleteRange np b cf_id begin_k end_k
                 else wbi_DeleteRange_parts np
                        (b\<lparr>needs_in_place_update_ts := True, has_key_with_ts := True\<rparr>)
                        cf_id [begin_k, replicate ts_sz 0] [end_k, replicate ts_sz 0]))"

definition wb_DeleteRange_ts ::
    "hash_fn \<Rightarrow> WriteBatch \<Rightarrow> ColumnFamilyHandle option \<Rightarrow> slice \<Rightarrow> slice \<Rightarrow> slice
      \<Rightarrow> status \<times> WriteBatch" where
  "wb_DeleteRange_ts np b column_family begin_k end_k ts =
    (let s = CheckColumnFamilyTimestampSize column_family ts
     in if \<not> ok s then (s, b)
        else let cf_id = GetColumnFamilyID column_family
             in track_if_ok cf_id (length ts)
                  (wbi_DeleteRange_parts np (b\<lparr>has_key_with_ts := True\<rparr>) cf_id
                     [begin_k, ts] [end_k, ts]))"

definition wb_Merge ::
    "hash_fn \<Rightarrow> WriteBatch \<Rightarrow> ColumnFamilyHandle option \<Rightarrow> slice \<Rightarrow> slice \<Rightarrow> status \<times> WriteBatch" where
  "wb_Merge np b column_family key value =
    (case GetColumnFamilyIdAndTimestampSize b column_family of
       (s, cf_id, ts_sz) \<Rightarrow>
         if \<not> ok s then (s, b)
         else track_if_ok cf_id ts_sz
                (if ts_sz = 0 then wbi_Merge np b cf_id key value
                 else wbi_Merge_parts np
                        (b\<lparr>needs_in_place_update_ts := True, has_key_with_ts := True\<rparr>)
                        cf_id [key, replicate ts_sz 0] [value]))"

definition wb_Merge_ts ::
    "hash_fn \<Rightarrow> WriteBatch \<Rightarrow> ColumnFamilyHandle option \<Rightarrow> slice \<Rightarrow> slice \<Rightarrow> slice
      \<Rightarrow> status \<times> WriteBatch" where
  "wb_Merge_ts np b column_family key ts value =
    (let s = CheckColumnFamilyTimestampSize column_family ts
     in if \<not> ok s then (s, b)
        else let cf_id = GetColumnFamilyID column_family
             in track_if_ok cf_id (length ts)
                  (wbi_Merge_parts np (b\<lparr>has_key_with_ts := True\<rparr>) cf_id [key, ts] [value]))"

end
