(* ===== verification/Write_Batch_Records.thy ===== *)
theory Write_Batch_Records
  imports Write_Batch
begin

text \<open>
  What a write batch stands for: a list of records, with a stack of earlier lists for the save
  points. This theory gives the records, their encoding and what each one means to a handler,
  and shows that the reader of the batch decodes every record and hands it to the handler. The
  locale \<open>accepting_handler\<close> is the contract of a handler that takes every record of a given
  kind; the classifier, the protection updater and a recording handler are its instances.
\<close>

unbundle bit_operations_syntax

section \<open>Records\<close>

datatype wb_record =
  RPut u32 slice slice
| RTimedPut u32 slice slice u64
| RPutEntity u32 slice slice
| RDelete u32 slice
| RSingleDelete u32 slice
| RDeleteRange u32 slice slice
| RMerge u32 slice slice
| RBlobIndex u32 slice slice
| RLogData slice
| RBeginPrepare
| RBeginPersistedPrepare
| RBeginUnprepare
| REndPrepare slice
| RCommit slice
| RCommitTs slice slice
| RRollback slice
| RNoop

definition tag_bytes :: "u32 \<Rightarrow> value_type \<Rightarrow> value_type \<Rightarrow> slice" where
  "tag_bytes cf t cf_t = (if cf = 0 then [t] else cf_t # EncodeVarint32 cf)"

fun encode_record :: "wb_record \<Rightarrow> slice" where
  "encode_record (RPut cf k v) =
     tag_bytes cf kTypeValue kTypeColumnFamilyValue @ EncodeSlice k @ EncodeSlice v"
| "encode_record (RTimedPut cf k v t) =
     tag_bytes cf kTypeValuePreferredSeqno kTypeColumnFamilyValuePreferredSeqno @
     EncodeSlice k @ EncodeSlice (PackValueAndWriteTime v t)"
| "encode_record (RPutEntity cf k v) =
     tag_bytes cf kTypeWideColumnEntity kTypeColumnFamilyWideColumnEntity @
     EncodeSlice k @ EncodeSlice v"
| "encode_record (RDelete cf k) =
     tag_bytes cf kTypeDeletion kTypeColumnFamilyDeletion @ EncodeSlice k"
| "encode_record (RSingleDelete cf k) =
     tag_bytes cf kTypeSingleDeletion kTypeColumnFamilySingleDeletion @ EncodeSlice k"
| "encode_record (RDeleteRange cf k v) =
     tag_bytes cf kTypeRangeDeletion kTypeColumnFamilyRangeDeletion @ EncodeSlice k @ EncodeSlice v"
| "encode_record (RMerge cf k v) =
     tag_bytes cf kTypeMerge kTypeColumnFamilyMerge @ EncodeSlice k @ EncodeSlice v"
| "encode_record (RBlobIndex cf k v) =
     tag_bytes cf kTypeBlobIndex kTypeColumnFamilyBlobIndex @ EncodeSlice k @ EncodeSlice v"
| "encode_record (RLogData blob) = kTypeLogData # EncodeSlice blob"
| "encode_record RBeginPrepare = [kTypeBeginPrepareXID]"
| "encode_record RBeginPersistedPrepare = [kTypeBeginPersistedPrepareXID]"
| "encode_record RBeginUnprepare = [kTypeBeginUnprepareXID]"
| "encode_record (REndPrepare xid) = kTypeEndPrepareXID # EncodeSlice xid"
| "encode_record (RCommit xid) = kTypeCommitXID # EncodeSlice xid"
| "encode_record (RCommitTs xid ts) = kTypeCommitXIDAndTimestamp # EncodeSlice ts @ EncodeSlice xid"
| "encode_record (RRollback xid) = kTypeRollbackXID # EncodeSlice xid"
| "encode_record RNoop = [kTypeNoop]"

fun record_ok :: "wb_record \<Rightarrow> bool" where
  "record_ok (RPut cf k v) \<longleftrightarrow> slice_ok k \<and> slice_ok v"
| "record_ok (RTimedPut cf k v t) \<longleftrightarrow> slice_ok k \<and> length v + 8 < 2 ^ 32"
| "record_ok (RPutEntity cf k v) \<longleftrightarrow> slice_ok k \<and> slice_ok v"
| "record_ok (RDelete cf k) \<longleftrightarrow> slice_ok k"
| "record_ok (RSingleDelete cf k) \<longleftrightarrow> slice_ok k"
| "record_ok (RDeleteRange cf k v) \<longleftrightarrow> slice_ok k \<and> slice_ok v"
| "record_ok (RMerge cf k v) \<longleftrightarrow> slice_ok k \<and> slice_ok v"
| "record_ok (RBlobIndex cf k v) \<longleftrightarrow> slice_ok k \<and> slice_ok v"
| "record_ok (RLogData blob) \<longleftrightarrow> slice_ok blob"
| "record_ok (REndPrepare xid) \<longleftrightarrow> slice_ok xid"
| "record_ok (RCommit xid) \<longleftrightarrow> slice_ok xid"
| "record_ok (RCommitTs xid ts) \<longleftrightarrow> slice_ok xid \<and> slice_ok ts"
| "record_ok (RRollback xid) \<longleftrightarrow> slice_ok xid"
| "record_ok _ \<longleftrightarrow> True"

text \<open>The records that the count in the header counts.\<close>

fun counts :: "wb_record \<Rightarrow> bool" where
  "counts (RPut _ _ _) = True"
| "counts (RTimedPut _ _ _ _) = True"
| "counts (RPutEntity _ _ _) = True"
| "counts (RDelete _ _) = True"
| "counts (RSingleDelete _ _) = True"
| "counts (RDeleteRange _ _ _) = True"
| "counts (RMerge _ _ _) = True"
| "counts (RBlobIndex _ _ _) = True"
| "counts _ = False"

definition num_entries :: "wb_record list \<Rightarrow> nat" where
  "num_entries rs = length (filter counts rs)"

lemma num_entries_simps [simp]:
  "num_entries [] = 0"
  "num_entries (r # rs) = (if counts r then 1 else 0) + num_entries rs"
  "num_entries (rs @ rs') = num_entries rs + num_entries rs'"
  by (simp_all add: num_entries_def)

definition encode_records :: "wb_record list \<Rightarrow> slice" where
  "encode_records rs = concat (map encode_record rs)"

lemma encode_records_simps [simp]:
  "encode_records [] = []"
  "encode_records (r # rs) = encode_record r @ encode_records rs"
  "encode_records (rs @ rs') = encode_records rs @ encode_records rs'"
  by (simp_all add: encode_records_def)

lemma encode_record_nonempty [simp]: "encode_record r \<noteq> []"
  by (cases r) (auto simp: tag_bytes_def)

lemma length_encode_records: "length rs \<le> length (encode_records rs)"
proof (induction rs)
  case (Cons r rs)
  have "1 \<le> length (encode_record r)" by (simp add: Suc_leI)
  with Cons show ?case by simp
qed simp

section \<open>Reading a record back\<close>

text \<open>The variables of the loop after the record was read.\<close>

fun read_back :: "bool \<Rightarrow> wb_record \<Rightarrow> batch_entry \<Rightarrow> batch_entry" where
  "read_back w (RPut cf k v) e =
     e\<lparr>be_tag := if cf = 0 then kTypeValue else kTypeColumnFamilyValue,
       be_column_family := cf, be_key := k, be_value := v\<rparr>"
| "read_back w (RTimedPut cf k v t) e =
     e\<lparr>be_tag := if cf = 0 then kTypeValuePreferredSeqno else kTypeColumnFamilyValuePreferredSeqno,
       be_column_family := cf, be_key := k,
       be_value := if w then v else PackValueAndWriteTime v t,
       be_write_unix_time := if w then t else be_write_unix_time e\<rparr>"
| "read_back w (RPutEntity cf k v) e =
     e\<lparr>be_tag := if cf = 0 then kTypeWideColumnEntity else kTypeColumnFamilyWideColumnEntity,
       be_column_family := cf, be_key := k, be_value := v\<rparr>"
| "read_back w (RDelete cf k) e =
     e\<lparr>be_tag := if cf = 0 then kTypeDeletion else kTypeColumnFamilyDeletion,
       be_column_family := cf, be_key := k\<rparr>"
| "read_back w (RSingleDelete cf k) e =
     e\<lparr>be_tag := if cf = 0 then kTypeSingleDeletion else kTypeColumnFamilySingleDeletion,
       be_column_family := cf, be_key := k\<rparr>"
| "read_back w (RDeleteRange cf k v) e =
     e\<lparr>be_tag := if cf = 0 then kTypeRangeDeletion else kTypeColumnFamilyRangeDeletion,
       be_column_family := cf, be_key := k, be_value := v\<rparr>"
| "read_back w (RMerge cf k v) e =
     e\<lparr>be_tag := if cf = 0 then kTypeMerge else kTypeColumnFamilyMerge,
       be_column_family := cf, be_key := k, be_value := v\<rparr>"
| "read_back w (RBlobIndex cf k v) e =
     e\<lparr>be_tag := if cf = 0 then kTypeBlobIndex else kTypeColumnFamilyBlobIndex,
       be_column_family := cf, be_key := k, be_value := v\<rparr>"
| "read_back w (RLogData blob) e = e\<lparr>be_tag := kTypeLogData, be_column_family := 0, be_blob := blob\<rparr>"
| "read_back w RBeginPrepare e = e\<lparr>be_tag := kTypeBeginPrepareXID, be_column_family := 0\<rparr>"
| "read_back w RBeginPersistedPrepare e =
     e\<lparr>be_tag := kTypeBeginPersistedPrepareXID, be_column_family := 0\<rparr>"
| "read_back w RBeginUnprepare e = e\<lparr>be_tag := kTypeBeginUnprepareXID, be_column_family := 0\<rparr>"
| "read_back w (REndPrepare xid) e =
     e\<lparr>be_tag := kTypeEndPrepareXID, be_column_family := 0, be_xid := xid\<rparr>"
| "read_back w (RCommit xid) e = e\<lparr>be_tag := kTypeCommitXID, be_column_family := 0, be_xid := xid\<rparr>"
| "read_back w (RCommitTs xid ts) e =
     e\<lparr>be_tag := kTypeCommitXIDAndTimestamp, be_column_family := 0, be_key := ts, be_xid := xid\<rparr>"
| "read_back w (RRollback xid) e =
     e\<lparr>be_tag := kTypeRollbackXID, be_column_family := 0, be_xid := xid\<rparr>"
| "read_back w RNoop e = e\<lparr>be_tag := kTypeNoop, be_column_family := 0\<rparr>"

lemmas value_type_defs =
  kTypeDeletion_def kTypeValue_def kTypeMerge_def kTypeLogData_def kTypeColumnFamilyDeletion_def
  kTypeColumnFamilyValue_def kTypeColumnFamilyMerge_def kTypeSingleDeletion_def
  kTypeColumnFamilySingleDeletion_def kTypeBeginPrepareXID_def kTypeEndPrepareXID_def
  kTypeCommitXID_def kTypeRollbackXID_def kTypeNoop_def kTypeColumnFamilyRangeDeletion_def
  kTypeRangeDeletion_def kTypeColumnFamilyBlobIndex_def kTypeBlobIndex_def
  kTypeBeginPersistedPrepareXID_def kTypeBeginUnprepareXID_def kTypeDeletionWithTimestamp_def
  kTypeCommitXIDAndTimestamp_def kTypeWideColumnEntity_def kTypeColumnFamilyWideColumnEntity_def
  kTypeValuePreferredSeqno_def kTypeColumnFamilyValuePreferredSeqno_def

lemma IsTryAgain_OK [simp]: "\<not> IsTryAgain OK"
  by (simp add: IsTryAgain_def OK_def)

lemma ParsePackedValue_PackValue:
  "ParsePackedValueWithWriteTime (PackValueAndWriteTime v t) = Some (v, t)"
  by (simp add: ParsePackedValueWithWriteTime_def PackValueAndWriteTime_def PutFixed64_def
      GetFixed64_def)

lemma slice_ok_packed: "length v + 8 < 2 ^ 32 \<Longrightarrow> slice_ok (PackValueAndWriteTime v t)"
  by (simp add: slice_ok_def PackValueAndWriteTime_def PutFixed64_def)

lemma read_entry_tagged:
  "tag_bytes cf t cf_t @ rest = (if cf = 0 then t else cf_t) # (if cf = 0 then [] else EncodeVarint32 cf) @ rest"
  "cf \<noteq> 0 \<Longrightarrow> read_entry True msg as (EncodeVarint32 cf @ rest) e =
     read_slices msg as rest (e\<lparr>be_column_family := cf\<rparr>)"
  "read_entry False msg as rest e = read_slices msg as rest e"
  by (simp_all add: tag_bytes_def read_entry_def varint32.dec_enc)

lemma ReadRecord_encode:
  assumes "record_ok r"
  shows "ReadRecordFromWriteBatch w (encode_record r @ rest) e = Some (OK, rest, read_back w r e)"
proof -
  note facts = ReadRecordFromWriteBatch_def Let_def remove_prefix_def read_entry_tagged
    prefixed.dec_enc value_type_defs
  show ?thesis
    using assms
    by (cases r)
       (auto simp: facts read_timed_put_def read_commit_with_timestamp_def slice_ok_packed
          ParsePackedValue_PackValue)
qed

section \<open>Handing a record to a handler\<close>

fun handle :: "'h handler \<Rightarrow> wb_record \<Rightarrow> bool \<Rightarrow> u32 \<Rightarrow> 'h \<Rightarrow> dispatched \<times> 'h" where
  "handle hr (RPut cf k v) eb n h = count_entry (h_PutCF hr cf k v h) eb n"
| "handle hr (RTimedPut cf k v t) eb n h = count_entry (h_TimedPutCF hr cf k v t h) eb n"
| "handle hr (RPutEntity cf k v) eb n h = count_entry (h_PutEntityCF hr cf k v h) eb n"
| "handle hr (RDelete cf k) eb n h = count_entry (h_DeleteCF hr cf k h) eb n"
| "handle hr (RSingleDelete cf k) eb n h = count_entry (h_SingleDeleteCF hr cf k h) eb n"
| "handle hr (RDeleteRange cf k v) eb n h = count_entry (h_DeleteRangeCF hr cf k v h) eb n"
| "handle hr (RMerge cf k v) eb n h = count_entry (h_MergeCF hr cf k v h) eb n"
| "handle hr (RBlobIndex cf k v) eb n h =
     (case h_PutBlobIndexCF hr cf k v h of (s, h) \<Rightarrow> (Inr (s, eb, if ok s then n + 1 else n), h))"
| "handle hr (RLogData blob) eb n h = (Inr (OK, False, n), h_LogData hr blob h)"
| "handle hr RBeginPrepare eb n h = dispatch_begin_prepare hr kTypeBeginPrepareXID n h"
| "handle hr RBeginPersistedPrepare eb n h =
     dispatch_begin_prepare hr kTypeBeginPersistedPrepareXID n h"
| "handle hr RBeginUnprepare eb n h = dispatch_begin_prepare hr kTypeBeginUnprepareXID n h"
| "handle hr (REndPrepare xid) eb n h = end_batch (h_MarkEndPrepare hr xid h) n"
| "handle hr (RCommit xid) eb n h = end_batch (h_MarkCommit hr xid h) n"
| "handle hr (RCommitTs xid ts) eb n h =
     (case h_MarkCommitWithTimestamp hr xid ts h of
        (s, h) \<Rightarrow> (Inr (s, if ok s then True else eb, n), h))"
| "handle hr (RRollback xid) eb n h = end_batch (h_MarkRollback hr xid h) n"
| "handle hr RNoop eb n h = end_batch (h_MarkNoop hr eb h) n"

lemma dispatch_read_back: "Iterate_dispatch hr (read_back True r e) eb n h = handle hr r eb n h"
  by (cases r) (simp_all add: Iterate_dispatch_def Let_def value_type_defs)

lemma Iterate_loop_record:
  assumes "record_ok r" and "h_Continue hr h = (True, h')"
  shows "Iterate_loop hr OK (encode_record r @ rest) e l eb n h =
    (case handle hr r eb n h' of
       (Inl s, h) \<Rightarrow> Some (Inl s, h)
     | (Inr (s, eb, n), h) \<Rightarrow> Iterate_loop hr s rest (read_back True r e) False eb n h)"
  by (subst Iterate_loop.simps)
     (simp add: assms ReadRecord_encode dispatch_read_back split: prod.splits sum.splits)

text \<open>
  A handler that takes every record in \<open>accepts\<close>, never stops the iteration, and changes its
  state by \<open>eff\<close>.
\<close>

locale accepting_handler =
  fixes hr :: "'h handler"
    and accepts :: "wb_record \<Rightarrow> bool"
    and eff :: "wb_record \<Rightarrow> 'h \<Rightarrow> 'h"
  assumes continues: "h_Continue hr h = (True, h)"
    and handled: "accepts r \<Longrightarrow>
      \<exists>eb'. handle hr r eb n h = (Inr (OK, eb', n + (if counts r then 1 else 0)), eff r h)"
begin

lemma Iterate_loop_records:
  assumes "list_all record_ok rs" and "list_all accepts rs"
  shows "\<exists>e' l' eb'. Iterate_loop hr OK (encode_records rs @ rest) e l eb n h =
    Iterate_loop hr OK rest e' l' eb' (n + of_nat (num_entries rs)) (fold eff rs h)"
  using assms
proof (induction rs arbitrary: e l eb n h)
  case (Cons r rs)
  obtain eb' where "handle hr r eb n h = (Inr (OK, eb', n + (if counts r then 1 else 0)), eff r h)"
    using handled Cons.prems(2) by fastforce
  then have step: "Iterate_loop hr OK (encode_records (r # rs) @ rest) e l eb n h =
      Iterate_loop hr OK (encode_records rs @ rest) (read_back True r e) False eb'
        (n + (if counts r then 1 else 0)) (eff r h)"
    using Cons.prems(1) continues by (simp add: Iterate_loop_record)
  obtain e' l' eb'' where "Iterate_loop hr OK (encode_records (r # rs) @ rest) e l eb n h =
      Iterate_loop hr OK rest e' l' eb''
        (n + (if counts r then 1 else 0) + of_nat (num_entries rs)) (fold eff rs (eff r h))"
    using Cons.IH Cons.prems unfolding step by fastforce
  then show ?case by (auto simp: add.assoc intro!: exI)
qed auto

lemma Iterate_loop_all:
  assumes "list_all record_ok rs" and "list_all accepts rs"
  shows "Iterate_loop hr OK (encode_records rs) e l eb n h =
    Some (Inr (OK, n + of_nat (num_entries rs), True), fold eff rs h)"
  using Iterate_loop_records [OF assms, where rest = "[]"]
  by (auto simp: Iterate_loop.simps [where input = "[]"])

text \<open>A batch whose bytes are a header and these records is delivered record by record.\<close>

lemma Iterate_delivers:
  assumes "list_all record_ok rs" and "list_all accepts rs"
    and "wb_rep b = hdr @ encode_records rs" and "length hdr = kHeader"
    and "wb_Count b = of_nat (num_entries rs)"
  shows "Iterate b hr h = Some (OK, fold eff rs h)"
  using assms(3-) Iterate_loop_all [OF assms(1,2)]
  by (simp add: Iterate_def Iterate_range_def Let_def)

end

section \<open>The handlers of the write batch\<close>

text \<open>What the classifier makes of a record.\<close>

fun record_flags :: "wb_record \<Rightarrow> u32" where
  "record_flags (RPut _ _ _) = flag HAS_PUT"
| "record_flags (RTimedPut _ _ _ _) = flag HAS_TIMED_PUT"
| "record_flags (RPutEntity _ _ _) = flag HAS_PUT_ENTITY"
| "record_flags (RDelete _ _) = flag HAS_DELETE"
| "record_flags (RSingleDelete _ _) = flag HAS_SINGLE_DELETE"
| "record_flags (RDeleteRange _ _ _) = flag HAS_DELETE_RANGE"
| "record_flags (RMerge _ _ _) = flag HAS_MERGE"
| "record_flags (RBlobIndex _ _ _) = flag HAS_BLOB_INDEX"
| "record_flags RBeginPrepare = flag HAS_BEGIN_PREPARE"
| "record_flags RBeginPersistedPrepare = flag HAS_BEGIN_PREPARE"
| "record_flags RBeginUnprepare = flag HAS_BEGIN_PREPARE OR flag HAS_BEGIN_UNPREPARE"
| "record_flags (REndPrepare _) = flag HAS_END_PREPARE"
| "record_flags (RCommit _) = flag HAS_COMMIT"
| "record_flags (RCommitTs _ _) = flag HAS_COMMIT"
| "record_flags (RRollback _) = flag HAS_ROLLBACK"
| "record_flags (RLogData _) = 0"
| "record_flags RNoop = 0"

definition all_flags :: "wb_record list \<Rightarrow> u32" where
  "all_flags rs = foldr (\<lambda>r f. record_flags r OR f) rs 0"

lemma all_flags_simps [simp]:
  "all_flags [] = 0"
  "all_flags (r # rs) = record_flags r OR all_flags rs"
  "all_flags (rs @ rs') = all_flags rs OR all_flags rs'"
proof -
  show "all_flags (rs @ rs') = all_flags rs OR all_flags rs'"
    by (induction rs) (simp_all add: all_flags_def or.assoc)
qed (simp_all add: all_flags_def)

lemma fold_record_flags: "fold (\<lambda>r f. f OR record_flags r) rs f = f OR all_flags rs"
  by (induction rs arbitrary: f) (simp_all add: or.assoc)

text \<open>The protection that belongs to a record: one value if it is an entry, none otherwise.\<close>

fun record_prot :: "hash_fn \<Rightarrow> wb_record \<Rightarrow> u64 list" where
  "record_prot np (RPut cf k v) = [ProtectC np (ProtectKVO np 0 k v kTypeValue) cf]"
| "record_prot np (RTimedPut cf k v t) =
     [ProtectC np (ProtectKVO np 0 k (PackValueAndWriteTime v t) kTypeValuePreferredSeqno) cf]"
| "record_prot np (RPutEntity cf k v) = [ProtectC np (ProtectKVO np 0 k v kTypeWideColumnEntity) cf]"
| "record_prot np (RDelete cf k) = [ProtectC np (ProtectKVO np 0 k [] kTypeDeletion) cf]"
| "record_prot np (RSingleDelete cf k) = [ProtectC np (ProtectKVO np 0 k [] kTypeSingleDeletion) cf]"
| "record_prot np (RDeleteRange cf k v) = [ProtectC np (ProtectKVO np 0 k v kTypeRangeDeletion) cf]"
| "record_prot np (RMerge cf k v) = [ProtectC np (ProtectKVO np 0 k v kTypeMerge) cf]"
| "record_prot np (RBlobIndex cf k v) = [ProtectC np (ProtectKVO np 0 k v kTypeBlobIndex) cf]"
| "record_prot np _ = []"

definition all_prot :: "hash_fn \<Rightarrow> wb_record list \<Rightarrow> u64 list" where
  "all_prot np rs = concat (map (record_prot np) rs)"

lemma all_prot_simps [simp]:
  "all_prot np [] = []"
  "all_prot np (r # rs) = record_prot np r @ all_prot np rs"
  "all_prot np (rs @ rs') = all_prot np rs @ all_prot np rs'"
  by (simp_all add: all_prot_def)

lemma length_record_prot [simp]: "length (record_prot np r) = (if counts r then 1 else 0)"
  by (cases r) simp_all

lemma length_all_prot [simp]: "length (all_prot np rs) = num_entries rs"
  by (induction rs) simp_all

lemma fold_record_prot: "fold (\<lambda>r es. es @ record_prot np r) rs es = es @ all_prot np rs"
  by (induction rs arbitrary: es) simp_all

text \<open>
  A handler that records its calls. The marker of a prepared transaction and of a persisted one
  are the same call.
\<close>

fun observed :: "wb_record \<Rightarrow> wb_record" where
  "observed RBeginPersistedPrepare = RBeginPrepare"
| "observed r = r"

definition recorder :: "wb_record list handler" where
  "recorder =
     Handler\<lparr>h_PutCF := (\<lambda>cf k v rs. (OK, rs @ [RPut cf k v])),
             h_TimedPutCF := (\<lambda>cf k v t rs. (OK, rs @ [RTimedPut cf k v t])),
             h_PutEntityCF := (\<lambda>cf k v rs. (OK, rs @ [RPutEntity cf k v])),
             h_DeleteCF := (\<lambda>cf k rs. (OK, rs @ [RDelete cf k])),
             h_SingleDeleteCF := (\<lambda>cf k rs. (OK, rs @ [RSingleDelete cf k])),
             h_DeleteRangeCF := (\<lambda>cf k v rs. (OK, rs @ [RDeleteRange cf k v])),
             h_MergeCF := (\<lambda>cf k v rs. (OK, rs @ [RMerge cf k v])),
             h_PutBlobIndexCF := (\<lambda>cf k v rs. (OK, rs @ [RBlobIndex cf k v])),
             h_LogData := (\<lambda>blob rs. rs @ [RLogData blob]),
             h_MarkBeginPrepare := (\<lambda>unprepare rs.
               (OK, rs @ [if unprepare then RBeginUnprepare else RBeginPrepare])),
             h_MarkEndPrepare := (\<lambda>xid rs. (OK, rs @ [REndPrepare xid])),
             h_MarkCommit := (\<lambda>xid rs. (OK, rs @ [RCommit xid])),
             h_MarkCommitWithTimestamp := (\<lambda>xid ts rs. (OK, rs @ [RCommitTs xid ts])),
             h_MarkRollback := (\<lambda>xid rs. (OK, rs @ [RRollback xid])),
             h_MarkNoop := (\<lambda>_ rs. (OK, rs @ [RNoop]))\<rparr>"

lemma fold_observed: "fold (\<lambda>r rs. rs @ [observed r]) rs acc = acc @ map observed rs"
  by (induction rs arbitrary: acc) simp_all

lemmas handler_simps =
  Handler_def BatchContentClassifier_def ProtectionInfoUpdater_def recorder_def UpdateProtInfo_def
  count_entry_def end_batch_def dispatch_begin_prepare_def check_write_policy_def

lemma ex_bool_simps [simp]: "Ex Not" "\<exists>b::bool. b"
  by blast+

interpretation classifier: accepting_handler BatchContentClassifier "\<lambda>r. r \<noteq> RNoop"
    "\<lambda>r f. f OR record_flags r"
proof
  fix r eb n h
  assume "r \<noteq> RNoop"
  then show "\<exists>eb'. handle BatchContentClassifier r eb n h =
      (Inr (OK, eb', n + (if counts r then 1 else 0)), h OR record_flags r)"
    by (cases r) (simp_all add: handler_simps value_type_defs or.assoc)
qed (simp add: handler_simps)

interpretation updater: accepting_handler "ProtectionInfoUpdater np" "\<lambda>r. True"
    "\<lambda>r es. es @ record_prot np r"
proof
  fix r eb n h
  show "\<exists>eb'. handle (ProtectionInfoUpdater np) r eb n h =
      (Inr (OK, eb', n + (if counts r then 1 else 0)), h @ record_prot np r)"
    by (cases r) (simp_all add: handler_simps value_type_defs ProtectKVO_parts_eq
        PackValueAndWriteTime_def PutFixed64_def)
qed (simp add: handler_simps)

interpretation recording: accepting_handler recorder "\<lambda>r. True" "\<lambda>r rs. rs @ [observed r]"
proof
  fix r eb n h
  show "\<exists>eb'. handle recorder r eb n h =
      (Inr (OK, eb', n + (if counts r then 1 else 0)), h @ [observed r])"
    by (cases r) (simp_all add: handler_simps value_type_defs)
qed (simp add: handler_simps)

end
