(* ===== verification/Write_Batch_Spec.thy ===== *)
theory Write_Batch_Spec
  imports Write_Batch_Records
begin

text \<open>
  The operations of the write batch as operations on the list of its records: every operation
  that adds a record appends its encoding, its flags and its protection, or, over the size
  limit, leaves the batch as it was. \<open>represents\<close> relates a batch to its records; the save points
  are the earlier lists of records.
\<close>

unbundle bit_operations_syntax

section \<open>Adding a record\<close>

text \<open>
  \<open>InsertBeginPrepare\<close> sets the flag of a begin marker, and not the one for unprepared batches
  that the classifier would add.
\<close>

fun as_flagged :: "wb_record \<Rightarrow> wb_record" where
  "as_flagged RBeginUnprepare = RBeginPrepare"
| "as_flagged r = r"

definition add_record :: "hash_fn \<Rightarrow> wb_record \<Rightarrow> WriteBatch \<Rightarrow> WriteBatch" where
  "add_record np r b =
     (let b = (if counts r then SetCount b (wb_Count b + 1) else b)
      in b\<lparr>wb_rep := wb_rep b @ encode_record r,
           content_flags := content_flags b OR record_flags (as_flagged r),
           prot_info := map_option (\<lambda>es. es @ record_prot np r) (prot_info b)\<rparr>)"

definition try_add :: "hash_fn \<Rightarrow> wb_record \<Rightarrow> WriteBatch \<Rightarrow> status \<times> WriteBatch" where
  "try_add np r b = commit (LocalSavePoint b) (add_record np r b)"

lemmas add_simps =
  try_add_def add_record_def Let_def increment_count_def push_tag_def push_back_def put_slice_def
  put_parts_def or_flag_def emplace_prot_def SetCount_def PutVarint32_def PutLengthPrefixedSlice_eq
  PutLengthPrefixedSliceParts_eq tag_bytes_def ProtectKVO_parts_eq

lemma wbi_Put_try_add:
  "wbi_Put np b cf k v =
     (if length k > u32_max then (InvalidArgument (str ''key is too large'') [], b)
      else if length v > u32_max then (InvalidArgument (str ''value is too large'') [], b)
      else try_add np (RPut cf k v) b)"
  by (simp add: wbi_Put_def add_simps)

lemma wbi_TimedPut_try_add:
  "wbi_TimedPut np b cf k v t =
     (if length k > u32_max then (InvalidArgument (str ''key is too large'') [], b)
      else if length v > u32_max then (InvalidArgument (str ''value is too large'') [], b)
      else try_add np (if t = - 1 then RPut cf k v else RTimedPut cf k v t) b)"
  by (simp add: wbi_TimedPut_def wbi_Put_try_add) (simp add: add_simps)

lemma wbi_Put_parts_try_add:
  "wbi_Put_parts np b cf ks vs =
     (if ok (CheckSlicePartsLength ks vs) then try_add np (RPut cf (concat ks) (concat vs)) b
      else (CheckSlicePartsLength ks vs, b))"
  by (simp add: wbi_Put_parts_def add_simps)

lemma wbi_Delete_try_add: "wbi_Delete np b cf k = try_add np (RDelete cf k) b"
  by (simp add: wbi_Delete_def add_simps)

lemma wbi_Delete_parts_try_add:
  "wbi_Delete_parts np b cf ks = try_add np (RDelete cf (concat ks)) b"
  by (simp add: wbi_Delete_parts_def add_simps)

lemma wbi_SingleDelete_try_add: "wbi_SingleDelete np b cf k = try_add np (RSingleDelete cf k) b"
  by (simp add: wbi_SingleDelete_def add_simps)

lemma wbi_SingleDelete_parts_try_add:
  "wbi_SingleDelete_parts np b cf ks = try_add np (RSingleDelete cf (concat ks)) b"
  by (simp add: wbi_SingleDelete_parts_def add_simps)

lemma wbi_DeleteRange_try_add:
  "wbi_DeleteRange np b cf k v = try_add np (RDeleteRange cf k v) b"
  by (simp add: wbi_DeleteRange_def add_simps)

lemma wbi_DeleteRange_parts_try_add:
  "wbi_DeleteRange_parts np b cf ks vs = try_add np (RDeleteRange cf (concat ks) (concat vs)) b"
  by (simp add: wbi_DeleteRange_parts_def add_simps)

lemma wbi_Merge_try_add:
  "wbi_Merge np b cf k v =
     (if length k > u32_max then (InvalidArgument (str ''key is too large'') [], b)
      else if length v > u32_max then (InvalidArgument (str ''value is too large'') [], b)
      else try_add np (RMerge cf k v) b)"
  by (simp add: wbi_Merge_def add_simps)

lemma wbi_Merge_parts_try_add:
  "wbi_Merge_parts np b cf ks vs =
     (if ok (CheckSlicePartsLength ks vs) then try_add np (RMerge cf (concat ks) (concat vs)) b
      else (CheckSlicePartsLength ks vs, b))"
  by (simp add: wbi_Merge_parts_def add_simps)

lemma wbi_PutBlobIndex_try_add:
  "wbi_PutBlobIndex np b cf k v = try_add np (RBlobIndex cf k v) b"
  by (simp add: wbi_PutBlobIndex_def add_simps)

lemma PutLogData_try_add: "PutLogData b blob = try_add np (RLogData blob) b"
  by (simp add: PutLogData_def add_simps option.map_ident)

lemmas try_add_eqs =
  wbi_Put_try_add wbi_TimedPut_try_add wbi_Put_parts_try_add wbi_Delete_try_add
  wbi_Delete_parts_try_add wbi_SingleDelete_try_add wbi_SingleDelete_parts_try_add
  wbi_DeleteRange_try_add wbi_DeleteRange_parts_try_add wbi_Merge_try_add wbi_Merge_parts_try_add
  wbi_PutBlobIndex_try_add

lemma markers_add_record:
  "InsertNoop b = (OK, add_record np RNoop b)"
  "InsertBeginPrepare b wac unp =
     (OK, add_record np (if wac then RBeginPrepare else if unp then RBeginUnprepare
                         else RBeginPersistedPrepare) b)"
  "InsertEndPrepare b xid = (OK, add_record np (REndPrepare xid) b)"
  "wbi_MarkCommit b xid = (OK, add_record np (RCommit xid) b)"
  "wbi_MarkCommitWithTimestamp b xid ts = (OK, add_record np (RCommitTs xid ts) b)"
  "wbi_MarkRollback b xid = (OK, add_record np (RRollback xid) b)"
  by (simp_all add: InsertNoop_def InsertBeginPrepare_def InsertEndPrepare_def wbi_MarkCommit_def
      wbi_MarkCommitWithTimestamp_def wbi_MarkRollback_def GetBeginPrepareType_def add_simps
      option.map_ident)

lemma record_prot_uncounted [simp]: "\<not> counts r \<Longrightarrow> record_prot np r = []"
  by (cases r) simp_all

section \<open>The batch of a list of records\<close>

definition represents :: "hash_fn \<Rightarrow> WriteBatch \<Rightarrow> wb_record list \<Rightarrow> bool" where
  "represents np b rs \<longleftrightarrow>
     (\<exists>h. length h = 8 \<and>
        wb_rep b = h @ EncodeFixed32 (of_nat (num_entries rs)) @ encode_records rs) \<and>
     num_entries rs < 2 ^ 32 \<and> list_all record_ok rs \<and>
     content_flags b = all_flags (map as_flagged rs) \<and>
     (prot_info b = None \<or> prot_info b = Some (all_prot np rs))"

lemma represents_rep:
  assumes "represents np b rs"
  obtains h where "length h = 8"
    and "wb_rep b = h @ EncodeFixed32 (of_nat (num_entries rs)) @ encode_records rs"
  using assms unfolding represents_def by blast

lemma representsI:
  assumes "length h = 8"
    and "wb_rep b = h @ EncodeFixed32 (of_nat (num_entries rs)) @ encode_records rs"
    and "num_entries rs < 2 ^ 32" and "list_all record_ok rs"
    and "content_flags b = all_flags (map as_flagged rs)"
    and "prot_info b = None \<or> prot_info b = Some (all_prot np rs)"
  shows "represents np b rs"
  using assms by (auto simp: represents_def)

lemma represents_Count:
  assumes "represents np b rs"
  shows "wb_Count b = of_nat (num_entries rs)" and "unat (wb_Count b) = num_entries rs"
proof -
  obtain h where "length h = 8"
    and "wb_rep b = h @ EncodeFixed32 (of_nat (num_entries rs)) @ encode_records rs"
    using represents_rep [OF assms] .
  then show "wb_Count b = of_nat (num_entries rs)" by (simp add: wb_Count_def)
  then show "unat (wb_Count b) = num_entries rs"
    using assms by (simp add: represents_def unat_of_nat)
qed

lemma represents_length:
  "represents np b rs \<Longrightarrow> length (wb_rep b) = 12 + length (encode_records rs)"
  by (erule represents_rep) simp

lemma empty_header: "resize 0 [] kHeader = replicate 8 0 @ EncodeFixed32 0"
  by code_simp

lemma represents_make: "represents np (WriteBatch_make mx p ts) []"
  by (rule representsI [where h = "replicate 8 0"])
     (simp_all add: WriteBatch_make_def empty_header)

lemma add_record_represents:
  assumes "represents np b rs" and "record_ok r" and "num_entries (rs @ [r]) < 2 ^ 32"
  shows "represents np (add_record np r b) (rs @ [r])"
proof -
  obtain h where h: "length h = 8"
    "wb_rep b = h @ EncodeFixed32 (of_nat (num_entries rs)) @ encode_records rs"
    using represents_rep [OF assms(1)] .
  show ?thesis
    by (rule representsI [where h = h])
       (use assms h in \<open>auto simp: represents_def add_record_def Let_def SetCount_def
          represents_Count [OF assms(1)] add.commute ac_simps\<close>)
qed

text \<open>Over the limit the batch is restored; otherwise the record is there.\<close>

lemma try_add_cases:
  assumes "represents np b rs"
  shows "try_add np r b =
    (if max_bytes b \<noteq> 0 \<and> length (wb_rep b) + length (encode_record r) > max_bytes b
     then (MemoryLimit, b) else (OK, add_record np r b))"
proof -
  obtain h where h: "length h = 8"
    "wb_rep b = h @ EncodeFixed32 (of_nat (num_entries rs)) @ encode_records rs"
    using represents_rep [OF assms] .
  have len: "length (wb_rep (add_record np r b)) = length (wb_rep b) + length (encode_record r)"
    using h by (simp add: add_record_def Let_def SetCount_def)
  have count: "unat (of_nat (num_entries rs) :: u32) = num_entries rs"
    using represents_Count [OF assms] by simp
  have prot: "prot_info b = None \<or> prot_info b = Some (all_prot np rs)"
    using assms by (simp add: represents_def)
  have "commit (LocalSavePoint b) (add_record np r b) = (MemoryLimit, b)"
    if "max_bytes b \<noteq> 0" "length (wb_rep b) + length (encode_record r) > max_bytes b"
  proof -
    have "max_bytes (add_record np r b) = max_bytes b"
      by (simp add: add_record_def Let_def SetCount_def)
    with that len show ?thesis
      using h prot unfolding commit_def Let_def
      by (auto simp: LocalSavePoint_def add_record_def Let_def SetCount_def
          resize_def represents_Count [OF assms] count intro!: WriteBatch.equality)
  qed
  then show ?thesis
    using len by (auto simp: try_add_def commit_def add_record_def Let_def SetCount_def)
qed

end
