(* ===== verification/Write_Batch_Run.thy ===== *)
theory Write_Batch_Run
  imports Write_Batch_Spec "HOL-Library.Sublist"
begin

text \<open>
  Runs of the write batch: sequences of its public operations, save points and rollbacks
  included, against the abstract batch, a list of records and a stack of earlier lists. The
  properties of the write batch are at the end.
\<close>

unbundle bit_operations_syntax

section \<open>The public operations\<close>

datatype wb_op =
  OpPut "ColumnFamilyHandle option" slice slice
| OpPutTs "ColumnFamilyHandle option" slice slice slice
| OpTimedPut "ColumnFamilyHandle option" slice slice u64
| OpDelete "ColumnFamilyHandle option" slice
| OpDeleteTs "ColumnFamilyHandle option" slice slice
| OpSingleDelete "ColumnFamilyHandle option" slice
| OpSingleDeleteTs "ColumnFamilyHandle option" slice slice
| OpDeleteRange "ColumnFamilyHandle option" slice slice
| OpDeleteRangeTs "ColumnFamilyHandle option" slice slice slice
| OpMerge "ColumnFamilyHandle option" slice slice
| OpMergeTs "ColumnFamilyHandle option" slice slice slice
| OpBlobIndex u32 slice slice
| OpLogData slice
| OpNoop
| OpBeginPrepare bool bool
| OpEndPrepare slice
| OpCommit slice
| OpCommitTs slice slice
| OpRollback slice

fun exec :: "hash_fn \<Rightarrow> WriteBatch \<Rightarrow> wb_op \<Rightarrow> status \<times> WriteBatch" where
  "exec np b (OpPut c k v) = wb_Put np b c k v"
| "exec np b (OpPutTs c k ts v) = wb_Put_ts np b c k ts v"
| "exec np b (OpTimedPut c k v t) = wb_TimedPut np b c k v t"
| "exec np b (OpDelete c k) = wb_Delete np b c k"
| "exec np b (OpDeleteTs c k ts) = wb_Delete_ts np b c k ts"
| "exec np b (OpSingleDelete c k) = wb_SingleDelete np b c k"
| "exec np b (OpSingleDeleteTs c k ts) = wb_SingleDelete_ts np b c k ts"
| "exec np b (OpDeleteRange c k v) = wb_DeleteRange np b c k v"
| "exec np b (OpDeleteRangeTs c k v ts) = wb_DeleteRange_ts np b c k v ts"
| "exec np b (OpMerge c k v) = wb_Merge np b c k v"
| "exec np b (OpMergeTs c k ts v) = wb_Merge_ts np b c k ts v"
| "exec np b (OpBlobIndex cf k v) = wbi_PutBlobIndex np b cf k v"
| "exec np b (OpLogData blob) = PutLogData b blob"
| "exec np b OpNoop = InsertNoop b"
| "exec np b (OpBeginPrepare wac unp) = InsertBeginPrepare b wac unp"
| "exec np b (OpEndPrepare xid) = InsertEndPrepare b xid"
| "exec np b (OpCommit xid) = wbi_MarkCommit b xid"
| "exec np b (OpCommitTs xid ts) = wbi_MarkCommitWithTimestamp b xid ts"
| "exec np b (OpRollback xid) = wbi_MarkRollback b xid"

text \<open>
  The record an operation stands for. A key of a column family with timestamps gets a
  timestamp of zeros, to be filled in later; the null handle takes the size from the batch.
\<close>

definition ts_size :: "nat \<Rightarrow> ColumnFamilyHandle option \<Rightarrow> nat" where
  "ts_size d c = (case c of None \<Rightarrow> d | Some h \<Rightarrow> (case cfh_ts_sz h of None \<Rightarrow> 0 | Some n \<Rightarrow> n))"

abbreviation stamped :: "nat \<Rightarrow> ColumnFamilyHandle option \<Rightarrow> slice \<Rightarrow> slice" where
  "stamped d c k \<equiv> k @ replicate (ts_size d c) 0"

fun op_record :: "nat \<Rightarrow> wb_op \<Rightarrow> wb_record" where
  "op_record d (OpPut c k v) = RPut (GetColumnFamilyID c) (stamped d c k) v"
| "op_record d (OpPutTs c k ts v) = RPut (GetColumnFamilyID c) (k @ ts) v"
| "op_record d (OpTimedPut c k v t) =
     (if t = - 1 then RPut (GetColumnFamilyID c) k v else RTimedPut (GetColumnFamilyID c) k v t)"
| "op_record d (OpDelete c k) = RDelete (GetColumnFamilyID c) (stamped d c k)"
| "op_record d (OpDeleteTs c k ts) = RDelete (GetColumnFamilyID c) (k @ ts)"
| "op_record d (OpSingleDelete c k) = RSingleDelete (GetColumnFamilyID c) (stamped d c k)"
| "op_record d (OpSingleDeleteTs c k ts) = RSingleDelete (GetColumnFamilyID c) (k @ ts)"
| "op_record d (OpDeleteRange c k v) =
     RDeleteRange (GetColumnFamilyID c) (stamped d c k) (stamped d c v)"
| "op_record d (OpDeleteRangeTs c k v ts) = RDeleteRange (GetColumnFamilyID c) (k @ ts) (v @ ts)"
| "op_record d (OpMerge c k v) = RMerge (GetColumnFamilyID c) (stamped d c k) v"
| "op_record d (OpMergeTs c k ts v) = RMerge (GetColumnFamilyID c) (k @ ts) v"
| "op_record d (OpBlobIndex cf k v) = RBlobIndex cf k v"
| "op_record d (OpLogData blob) = RLogData blob"
| "op_record d OpNoop = RNoop"
| "op_record d (OpBeginPrepare wac unp) =
     (if wac then RBeginPrepare else if unp then RBeginUnprepare else RBeginPersistedPrepare)"
| "op_record d (OpEndPrepare xid) = REndPrepare xid"
| "op_record d (OpCommit xid) = RCommit xid"
| "op_record d (OpCommitTs xid ts) = RCommitTs xid ts"
| "op_record d (OpRollback xid) = RRollback xid"

text \<open>
  \<open>Put\<close> and \<open>Merge\<close> check that their key and value fit the 32-bit lengths; the other operations
  rely on their caller.
\<close>

fun checks_size :: "wb_op \<Rightarrow> bool" where
  "checks_size (OpPut _ _ _) = True"
| "checks_size (OpPutTs _ _ _ _) = True"
| "checks_size (OpMerge _ _ _) = True"
| "checks_size (OpMergeTs _ _ _ _) = True"
| "checks_size _ = False"

definition op_fits :: "nat \<Rightarrow> wb_op \<Rightarrow> bool" where
  "op_fits d op \<longleftrightarrow> checks_size op \<or> record_ok (op_record d op)"

text \<open>Everything but the book-keeping of timestamps, which a failed operation may still change.\<close>

definition core :: "WriteBatch \<Rightarrow> WriteBatch" where
  "core b = b\<lparr>needs_in_place_update_ts := False, has_key_with_ts := False, cf_id_to_ts_sz := []\<rparr>"

lemma core_updates [simp]:
  "core (b\<lparr>has_key_with_ts := x\<rparr>) = core b"
  "core (b\<lparr>needs_in_place_update_ts := x\<rparr>) = core b"
  "core (MaybeTrackTimestampSize b cf n) = core b"
  by (simp_all add: core_def MaybeTrackTimestampSize_def split: option.splits)

lemma core_fields:
  assumes "core b = core b'"
  shows "wb_rep b = wb_rep b'" and "content_flags b = content_flags b'"
    and "prot_info b = prot_info b'" and "save_points b = save_points b'"
    and "max_bytes b = max_bytes b'" and "default_cf_ts_sz b = default_cf_ts_sz b'"
    and "wal_term_point b = wal_term_point b'"
  using arg_cong [OF assms, of wb_rep] arg_cong [OF assms, of content_flags]
    arg_cong [OF assms, of prot_info] arg_cong [OF assms, of save_points]
    arg_cong [OF assms, of max_bytes] arg_cong [OF assms, of default_cf_ts_sz]
    arg_cong [OF assms, of wal_term_point]
  by (simp_all add: core_def)

lemma represents_core: "core b = core b' \<Longrightarrow> represents np b rs \<longleftrightarrow> represents np b' rs"
  using core_fields [of b b'] by (simp add: represents_def)

lemma core_add_record: "core (add_record np r b) = add_record np r (core b)"
  by (simp add: add_record_def Let_def SetCount_def wb_Count_def core_def)

text \<open>
  When an operation is accepted: the column family takes it (it allows writes, and the timestamp it
  has, or the one that is given, is of the size its comparator has), its key and value pass the
  size checks the operation makes, and, for the operations that respect it, the limit on the size of
  the batch is kept.
\<close>

definition takes_writes :: "nat \<Rightarrow> ColumnFamilyHandle option \<Rightarrow> bool" where
  "takes_writes d column_family =
     (case column_family of
        None \<Rightarrow> True
      | Some c \<Rightarrow> \<not> cfh_disallow_memtable_writes c \<and>
          (cfh_id c = 0 \<longrightarrow> cfh_ts_sz c = None \<or> cfh_ts_sz c = Some d))"

definition takes_timestamp :: "ColumnFamilyHandle option \<Rightarrow> slice \<Rightarrow> bool" where
  "takes_timestamp column_family ts =
     (case column_family of
        None \<Rightarrow> False
      | Some c \<Rightarrow> \<not> cfh_disallow_memtable_writes c \<and> ts \<noteq> [] \<and> cfh_ts_sz c = Some (length ts))"

fun family_ok :: "WriteBatch \<Rightarrow> wb_op \<Rightarrow> bool" where
  "family_ok b (OpPut c k v) = takes_writes (default_cf_ts_sz b) c"
| "family_ok b (OpDelete c k) = takes_writes (default_cf_ts_sz b) c"
| "family_ok b (OpSingleDelete c k) = takes_writes (default_cf_ts_sz b) c"
| "family_ok b (OpDeleteRange c k v) = takes_writes (default_cf_ts_sz b) c"
| "family_ok b (OpMerge c k v) = takes_writes (default_cf_ts_sz b) c"
| "family_ok b (OpTimedPut c k v t) =
     (takes_writes (default_cf_ts_sz b) c \<and> ts_size (default_cf_ts_sz b) c = 0)"
| "family_ok b (OpPutTs c k ts v) = takes_timestamp c ts"
| "family_ok b (OpDeleteTs c k ts) = takes_timestamp c ts"
| "family_ok b (OpSingleDeleteTs c k ts) = takes_timestamp c ts"
| "family_ok b (OpDeleteRangeTs c k v ts) = takes_timestamp c ts"
| "family_ok b (OpMergeTs c k ts v) = takes_timestamp c ts"
| "family_ok b _ = True"

text \<open>The checks of whole slices allow one byte more than those of slices in parts.\<close>

fun size_ok :: "nat \<Rightarrow> wb_op \<Rightarrow> bool" where
  "size_ok d (OpPut c k v) =
     (if ts_size d c = 0 then length k \<le> u32_max \<and> length v \<le> u32_max
      else length k + ts_size d c < u32_max \<and> length v < u32_max)"
| "size_ok d (OpMerge c k v) =
     (if ts_size d c = 0 then length k \<le> u32_max \<and> length v \<le> u32_max
      else length k + ts_size d c < u32_max \<and> length v < u32_max)"
| "size_ok d (OpPutTs c k ts v) = (length k + length ts < u32_max \<and> length v < u32_max)"
| "size_ok d (OpMergeTs c k ts v) = (length k + length ts < u32_max \<and> length v < u32_max)"
| "size_ok d (OpTimedPut c k v t) = (length k \<le> u32_max \<and> length v \<le> u32_max)"
| "size_ok d _ = True"

definition admissible :: "WriteBatch \<Rightarrow> wb_op \<Rightarrow> bool" where
  "admissible b op \<longleftrightarrow> family_ok b op \<and> size_ok (default_cf_ts_sz b) op"

fun limited :: "wb_record \<Rightarrow> bool" where
  "limited (RLogData _) = True"
| "limited r = counts r"

definition within_limit :: "wb_record \<Rightarrow> WriteBatch \<Rightarrow> bool" where
  "within_limit r b \<longleftrightarrow>
     (limited r \<and> max_bytes b \<noteq> 0 \<longrightarrow>
      length (wb_rep b) + length (encode_record r) \<le> max_bytes b)"

text \<open>What an operation that would add the record \<open>r\<close>, admissible or not, answers.\<close>

definition outcome ::
    "hash_fn \<Rightarrow> wb_record \<Rightarrow> WriteBatch \<Rightarrow> bool \<Rightarrow> status \<times> WriteBatch \<Rightarrow> bool" where
  "outcome np r b A res \<longleftrightarrow>
     (case res of (s, b1) \<Rightarrow>
        (ok s \<longleftrightarrow> A \<and> within_limit r b) \<and>
        (if ok s then record_ok r \<and> core b1 = core (add_record np r b) else core b1 = core b))"

lemma not_ok_code: "\<not> ok MemoryLimit" "\<not> ok (Status_code kNotFound kNone)"
  by (simp_all add: ok_def MemoryLimit_def Status_code_def)

lemma outcome_try_add:
  assumes "represents np b rs" and "core b' = core b" and "record_ok r" and "limited r" and A
  shows "outcome np r b A (try_add np r b')"
proof -
  have "represents np b' rs" using assms(1,2) represents_core by blast
  from try_add_cases [OF this, of r] show ?thesis
    using assms core_fields [OF assms(2)]
    by (simp add: outcome_def core_add_record not_ok_code within_limit_def)
qed

lemma outcome_added: "record_ok r \<Longrightarrow> \<not> limited r \<Longrightarrow> A \<Longrightarrow> outcome np r b A (OK, add_record np r b)"
  by (simp add: outcome_def within_limit_def)

lemma outcome_track: "outcome np r b A res \<Longrightarrow> outcome np r b A (track_if_ok cf n res)"
  by (cases res) (simp add: outcome_def)

lemma outcome_error: "\<not> ok s \<Longrightarrow> \<not> A \<Longrightarrow> core b' = core b \<Longrightarrow> outcome np r b A (s, b')"
  by (simp add: outcome_def)

lemma CheckSlicePartsLength_ok:
  "ok (CheckSlicePartsLength ks vs) \<longleftrightarrow>
     length (concat ks) < u32_max \<and> length (concat vs) < u32_max"
  by (auto simp: CheckSlicePartsLength_def Let_def foldl_length)

lemma GetColumnFamily_cases:
  assumes "GetColumnFamilyIdAndTimestampSize b c = (s, cf, n)"
  shows "cf = GetColumnFamilyID c" and "n = ts_size (default_cf_ts_sz b) c"
  using assms
  by (auto simp: GetColumnFamilyIdAndTimestampSize_def ts_size_def Let_def
      split: option.splits if_splits prod.splits)

lemma column_family_checks:
  "takes_writes (default_cf_ts_sz b) c = ok (fst (GetColumnFamilyIdAndTimestampSize b c))"
  "takes_timestamp c ts = ok (CheckColumnFamilyTimestampSize c ts)"
  by (auto simp: takes_writes_def takes_timestamp_def GetColumnFamilyIdAndTimestampSize_def
      CheckColumnFamilyTimestampSize_def GetColumnFamilyID_def Let_def split: option.splits)

lemma outcome_column_family:
  assumes "A \<Longrightarrow> ok (fst (GetColumnFamilyIdAndTimestampSize b c))"
    and "ok (fst (GetColumnFamilyIdAndTimestampSize b c)) \<Longrightarrow>
      outcome np r b A (F (GetColumnFamilyID c) (ts_size (default_cf_ts_sz b) c))"
  shows "outcome np r b A (case GetColumnFamilyIdAndTimestampSize b c of
    (s, cf, n) \<Rightarrow> if \<not> ok s then (s, b) else F cf n)"
proof -
  obtain s cf n where *: "GetColumnFamilyIdAndTimestampSize b c = (s, cf, n)"
    by (cases "GetColumnFamilyIdAndTimestampSize b c")
  show ?thesis
    using assms GetColumnFamily_cases [OF *] by (auto simp: * intro: outcome_error)
qed

text \<open>
  An operation is accepted exactly when it is admissible and within the limit. Then it adds its
  record; otherwise it leaves the batch as it was but for the book-keeping of timestamps.
\<close>

lemma exec_outcome:
  assumes rep: "represents np b rs" and fits: "op_fits (default_cf_ts_sz b) op"
  shows "outcome np (op_record (default_cf_ts_sz b) op) b (admissible b op) (exec np b op)"
proof -
  note intros = outcome_column_family outcome_track outcome_error outcome_added
    outcome_try_add [OF rep]
  show ?thesis
    using fits
    by (cases op)
       (auto simp: column_family_checks op_fits_def admissible_def wb_Put_def wb_Put_ts_def wb_TimedPut_def
          wb_Delete_def wb_Delete_ts_def wb_SingleDelete_def wb_SingleDelete_ts_def
          wb_DeleteRange_def wb_DeleteRange_ts_def wb_Merge_def wb_Merge_ts_def Let_def try_add_eqs
          PutLogData_try_add [where np = np] markers_add_record [where np = np]
          CheckSlicePartsLength_ok slice_ok_def u32_max_def intro!: intros)
qed

section \<open>Save points as earlier lists of records\<close>

datatype wb_action = Do wb_op | SetSave | RollbackSave | PopSave | ClearAll

fun act :: "hash_fn \<Rightarrow> WriteBatch \<Rightarrow> wb_action \<Rightarrow> status \<times> WriteBatch" where
  "act np b (Do op) = exec np b op"
| "act np b SetSave = (OK, SetSavePoint b)"
| "act np b RollbackSave = RollbackToSavePoint b"
| "act np b PopSave = PopSavePoint b"
| "act np b ClearAll = (OK, wb_Clear b)"

text \<open>
  The abstract batch: its records and the lists that the save points remember, the latest first.
  An operation that the batch refuses has no effect.
\<close>

type_synonym abs_batch = "wb_record list \<times> wb_record list list"

fun abs_act :: "nat \<Rightarrow> bool \<Rightarrow> wb_action \<Rightarrow> abs_batch \<Rightarrow> abs_batch" where
  "abs_act d accepted (Do op) (rs, st) = (if accepted then rs @ [op_record d op] else rs, st)"
| "abs_act d accepted SetSave (rs, st) = (rs, rs # st)"
| "abs_act d accepted RollbackSave (rs, st) = (case st of [] \<Rightarrow> (rs, []) | p # st \<Rightarrow> (p, st))"
| "abs_act d accepted PopSave (rs, st) = (rs, tl st)"
| "abs_act d accepted ClearAll (rs, st) = ([], [])"

fun run :: "hash_fn \<Rightarrow> WriteBatch \<Rightarrow> wb_action list \<Rightarrow> abs_batch \<Rightarrow> WriteBatch \<times> abs_batch" where
  "run np b [] a = (b, a)"
| "run np b (x # xs) a =
     (case act np b x of
        (s, b') \<Rightarrow> run np b' xs (abs_act (default_cf_ts_sz b) (ok s) x a))"

definition save_of :: "wb_record list \<Rightarrow> SavePoint" where
  "save_of p =
     \<lparr>sp_size = 12 + length (encode_records p), sp_count = of_nat (num_entries p),
      sp_content_flags = all_flags (map as_flagged p)\<rparr>"

definition stack_of :: "WriteBatch \<Rightarrow> SavePoint list" where
  "stack_of b = (case save_points b of None \<Rightarrow> [] | Some ps \<Rightarrow> ps)"

definition simulates :: "hash_fn \<Rightarrow> WriteBatch \<Rightarrow> abs_batch \<Rightarrow> bool" where
  "simulates np b a \<longleftrightarrow>
     (case a of (rs, st) \<Rightarrow>
        represents np b rs \<and> stack_of b = map save_of st \<and>
        sorted_wrt (\<lambda>later earlier. prefix earlier later) (rs # st))"

lemma num_entries_le_length: "num_entries rs \<le> length rs"
  by (simp add: num_entries_def)

lemma prefix_num_entries: "prefix p rs \<Longrightarrow> num_entries p \<le> num_entries rs"
  by (auto simp: prefix_def)

lemma LocalSavePoint_save_of: "represents np b rs \<Longrightarrow> LocalSavePoint b = save_of rs"
  using represents_Count [of np b rs] represents_length [of np b rs]
  by (simp add: LocalSavePoint_def save_of_def represents_def)

lemma truncated_represents:
  assumes "represents np b (p @ q)" and "wb_rep b' = wb_rep (SetCount
      (b\<lparr>wb_rep := resize 0 (wb_rep b) (sp_size (save_of p))\<rparr>) (sp_count (save_of p)))"
    and "content_flags b' = sp_content_flags (save_of p)"
    and "prot_info b' = map_option (\<lambda>es. resize 0 es (unat (sp_count (save_of p)))) (prot_info b)"
  shows "represents np b' p"
proof -
  obtain h where h: "length h = 8" "wb_rep b =
      h @ EncodeFixed32 (of_nat (num_entries (p @ q))) @ encode_records p @ encode_records q"
    using represents_rep [OF assms(1)] by auto
  have less: "num_entries p < 2 ^ 32" using assms(1) by (simp add: represents_def)
  then have "unat (of_nat (num_entries p) :: u32) = num_entries p" by (simp add: unat_of_nat)
  then show ?thesis
    by (intro representsI [where h = h])
       (use assms h less in \<open>auto simp: represents_def SetCount_def save_of_def resize_def\<close>)
qed

lemma equal_size_same_records:
  assumes "prefix p rs" and "length (encode_records p) = length (encode_records rs)"
  shows "p = rs"
proof -
  obtain q where q: "rs = p @ q" using assms(1) by (auto simp: prefix_def)
  then have "length q \<le> 0" using assms(2) length_encode_records [of q] by simp
  with q show ?thesis by simp
qed

lemma RollbackToSavePoint_simulates:
  assumes "simulates np b (rs, p # st)"
  shows "\<exists>b'. RollbackToSavePoint b = (OK, b') \<and> simulates np b' (p, st) \<and>
    default_cf_ts_sz b' = default_cf_ts_sz b \<and> wal_term_point b' = wal_term_point b"
proof -
  have rep: "represents np b rs" and pre: "prefix p rs" using assms by (auto simp: simulates_def)
  have stack: "save_points b = Some (save_of p # map save_of st)"
    using assms by (auto simp: simulates_def stack_of_def split: option.splits)
  obtain q where q: "rs = p @ q" using pre by (auto simp: prefix_def)
  have rest: "sorted_wrt (\<lambda>later earlier. prefix earlier later) (p # st)"
    using assms by (simp add: simulates_def)
  show ?thesis
  proof (cases "sp_size (save_of p) = length (wb_rep b)")
    case True
    then have "p = rs"
      using equal_size_same_records [OF pre] represents_length [OF rep] by (simp add: save_of_def)
    then show ?thesis
      using True rep rest
      by (simp add: RollbackToSavePoint_def stack simulates_def stack_of_def represents_def Let_def)
  next
    case False
    let ?b = "snd (RollbackToSavePoint b)"
    have "represents np ?b p"
      by (rule truncated_represents [OF rep [unfolded q]])
         (use False in \<open>simp_all add: RollbackToSavePoint_def stack Let_def save_of_def SetCount_def\<close>)
    then show ?thesis
      using False rest
      by (simp add: RollbackToSavePoint_def stack simulates_def stack_of_def Let_def SetCount_def
          save_of_def)
  qed
qed

lemma add_record_frame [simp]:
  "default_cf_ts_sz (add_record np r b) = default_cf_ts_sz b"
  "save_points (add_record np r b) = save_points b"
  "max_bytes (add_record np r b) = max_bytes b"
  "wal_term_point (add_record np r b) = wal_term_point b"
  by (simp_all add: add_record_def Let_def SetCount_def)

definition action_fits :: "nat \<Rightarrow> wb_action \<Rightarrow> bool" where
  "action_fits d x \<longleftrightarrow> (case x of Do op \<Rightarrow> op_fits d op | _ \<Rightarrow> True)"

lemma action_fits_0: "action_fits d x \<Longrightarrow> action_fits 0 x"
proof -
  have "op_fits 0 op" if "op_fits d op" for op
    using that
    by (cases op)
       (auto simp: op_fits_def ts_size_def slice_ok_def split: option.splits)
  then show "action_fits d x \<Longrightarrow> action_fits 0 x"
    by (auto simp: action_fits_def split: wb_action.splits)
qed

lemma exec_simulates:
  assumes "simulates np b (rs, st)" and "op_fits (default_cf_ts_sz b) op"
    and "num_entries rs + 1 < 2 ^ 32" and "exec np b op = (s, b')"
  shows "simulates np b' (abs_act (default_cf_ts_sz b) (ok s) (Do op) (rs, st))"
    and "default_cf_ts_sz b' = default_cf_ts_sz b" and "wal_term_point b' = wal_term_point b"
proof -
  let ?r = "op_record (default_cf_ts_sz b) op"
  have rep: "represents np b rs" using assms(1) by (simp add: simulates_def)
  have out: "outcome np ?r b (admissible b op) (s, b')" using exec_outcome [OF rep assms(2)] assms(4) by simp
  have "simulates np b' (abs_act (default_cf_ts_sz b) (ok s) (Do op) (rs, st)) \<and>
      default_cf_ts_sz b' = default_cf_ts_sz b \<and> wal_term_point b' = wal_term_point b"
  proof (cases "ok s")
    case True
    then have core: "core b' = core (add_record np ?r b)" and "record_ok ?r"
      using out by (simp_all add: outcome_def)
    then have "represents np (add_record np ?r b) (rs @ [?r])"
      using add_record_represents [OF rep] assms(3) by simp
    then have "represents np b' (rs @ [?r])" using represents_core [OF core] by simp
    then show ?thesis
      using True assms(1) core_fields [OF core] by (auto simp: simulates_def stack_of_def)
  next
    case False
    then have core: "core b' = core b" using out by (simp add: outcome_def)
    then show ?thesis
      using False assms(1) core_fields [OF core] represents_core [OF core]
      by (auto simp: simulates_def stack_of_def)
  qed
  then show "simulates np b' (abs_act (default_cf_ts_sz b) (ok s) (Do op) (rs, st))"
    and "default_cf_ts_sz b' = default_cf_ts_sz b" and "wal_term_point b' = wal_term_point b"
    by blast+
qed

lemma SetSavePoint_simulates:
  assumes "simulates np b (rs, st)"
  shows "simulates np (SetSavePoint b) (rs, rs # st)"
proof -
  have rep: "represents np b rs" using assms by (simp add: simulates_def)
  have "stack_of (SetSavePoint b) = LocalSavePoint b # stack_of b"
    by (simp add: stack_of_def SetSavePoint_def LocalSavePoint_def Let_def)
  moreover have "represents np (SetSavePoint b) rs"
    using rep by (simp add: represents_def SetSavePoint_def Let_def)
  ultimately show ?thesis
    using assms LocalSavePoint_save_of [OF rep] by (auto simp: simulates_def)
qed

lemma PopSavePoint_simulates:
  assumes "simulates np b (rs, st)" and "PopSavePoint b = (s, b')"
  shows "simulates np b' (rs, tl st)" and "default_cf_ts_sz b' = default_cf_ts_sz b"
    and "wal_term_point b' = wal_term_point b"
  using assms
  by (cases st; auto simp: simulates_def PopSavePoint_def stack_of_def represents_def
      split: option.splits list.splits)+

lemma Clear_simulates: "simulates np (wb_Clear b) ([], [])"
proof -
  have "represents np (wb_Clear b) []"
    by (rule representsI [where h = "replicate 8 0"])
       (cases "prot_info b"; simp add: wb_Clear_def empty_header)+
  then show ?thesis
    by (simp add: simulates_def stack_of_def wb_Clear_def split: option.splits)
qed

lemma act_simulates:
  assumes "simulates np b (rs, st)" and "action_fits (default_cf_ts_sz b) x"
    and "num_entries rs + 1 < 2 ^ 32" and "act np b x = (s, b')"
  shows "simulates np b' (abs_act (default_cf_ts_sz b) (ok s) x (rs, st)) \<and>
    default_cf_ts_sz b' \<in> {default_cf_ts_sz b, 0} \<and>
    wal_term_point b' = (if x = ClearAll then SavePoint_cleared else wal_term_point b)"
proof (cases x)
  case (Do op)
  then show ?thesis using exec_simulates [of np b rs st op s b'] assms by (simp add: action_fits_def)
next
  case SetSave
  then show ?thesis
    using SetSavePoint_simulates [OF assms(1)] assms(4)
    by (auto simp: SetSavePoint_def Let_def)
next
  case RollbackSave
  show ?thesis
  proof (cases st)
    case Nil
    then have "RollbackToSavePoint b = (Status_code kNotFound kNone, b)"
      using assms(1)
      by (auto simp: simulates_def stack_of_def RollbackToSavePoint_def split: option.splits)
    then show ?thesis using RollbackSave Nil assms by simp
  next
    case (Cons p ps)
    then show ?thesis
      using RollbackToSavePoint_simulates [of np b rs p ps] RollbackSave assms by auto
  qed
next
  case PopSave
  then show ?thesis using PopSavePoint_simulates [OF assms(1)] assms(4) by auto
next
  case ClearAll
  then show ?thesis using Clear_simulates [of np b] assms(4) by (auto simp: wb_Clear_def)
qed

lemma abs_act_num_entries:
  assumes "sorted_wrt (\<lambda>later earlier. prefix earlier later) (rs # st)"
  shows "num_entries (fst (abs_act d acc x (rs, st))) \<le> num_entries rs + 1"
  using assms
  by (cases x) (auto split: list.splits dest!: prefix_num_entries)

lemma run_simulates:
  assumes "simulates np b a" and "list_all (action_fits d) xs"
    and "default_cf_ts_sz b \<in> {d, 0}" and "num_entries (fst a) + length xs < 2 ^ 32"
    and "run np b xs a = (b', a')"
  shows "simulates np b' a' \<and> default_cf_ts_sz b' \<in> {d, 0} \<and>
    num_entries (fst a') \<le> num_entries (fst a) + length xs \<and>
    wal_term_point b' = (if ClearAll \<in> set xs then SavePoint_cleared else wal_term_point b)"
  using assms
proof (induction xs arbitrary: b a)
  case (Cons x xs)
  obtain rs st where a: "a = (rs, st)" by (cases a)
  obtain s b1 where act: "act np b x = (s, b1)" by (cases "act np b x")
  let ?a = "abs_act (default_cf_ts_sz b) (ok s) x (rs, st)"
  have "action_fits (default_cf_ts_sz b) x"
    using Cons.prems(2,3) action_fits_0 [of d x] by auto
  then have sim: "simulates np b1 ?a" and d: "default_cf_ts_sz b1 \<in> {default_cf_ts_sz b, 0}"
    and wal: "wal_term_point b1 = (if x = ClearAll then SavePoint_cleared else wal_term_point b)"
    using act_simulates [of np b rs st x s b1] Cons.prems(1,4) act a by auto
  have num: "num_entries (fst ?a) \<le> num_entries rs + 1"
    using abs_act_num_entries Cons.prems(1) by (simp add: simulates_def a)
  have "simulates np b' a' \<and> default_cf_ts_sz b' \<in> {d, 0} \<and>
      num_entries (fst a') \<le> num_entries (fst ?a) + length xs \<and>
      wal_term_point b' = (if ClearAll \<in> set xs then SavePoint_cleared else wal_term_point b1)"
    by (rule Cons.IH [OF sim]) (use Cons.prems d num a act in auto)
  with wal num a show ?case by auto
qed simp

section \<open>Iterating over a batch that represents records\<close>

lemma Iterate_recorder:
  assumes "represents np b rs"
  shows "Iterate b recorder [] = Some (OK, map observed rs)"
proof -
  obtain h where h: "length h = 8"
    "wb_rep b = h @ EncodeFixed32 (of_nat (num_entries rs)) @ encode_records rs"
    using represents_rep [OF assms] .
  have "list_all record_ok rs" using assms by (simp add: represents_def)
  from recording.Iterate_delivers [OF this, of b "h @ EncodeFixed32 (of_nat (num_entries rs))" "[]"]
  show ?thesis
    using h represents_Count(1) [OF assms]
    by (simp add: kHeader_def fold_observed list.pred_True)
qed

lemma updater_Iterate:
  assumes "represents np b rs" and "wb_rep b' = wb_rep b"
  shows "Iterate b' (ProtectionInfoUpdater np) [] = Some (OK, all_prot np rs)"
proof -
  obtain h where h: "length h = 8"
    "wb_rep b = h @ EncodeFixed32 (of_nat (num_entries rs)) @ encode_records rs"
    using represents_rep [OF assms(1)] .
  have "list_all record_ok rs" using assms(1) by (simp add: represents_def)
  from updater.Iterate_delivers [OF this, of b' "h @ EncodeFixed32 (of_nat (num_entries rs))" np "[]"]
  show ?thesis
    using h represents_Count(1) [OF assms(1)] assms(2)
    by (simp add: kHeader_def fold_record_prot list.pred_True wb_Count_def)
qed

lemma Iterate_loop_stop:
  "\<not> ok s \<Longrightarrow> \<not> IsTryAgain s \<Longrightarrow> Iterate_loop hr s input e l eb n h = Some (Inr (s, n, True), h)"
  by (simp add: Iterate_loop.simps)

lemma classifier_noop:
  "handle BatchContentClassifier RNoop eb n f =
     (Inr (InvalidArgument (str ''MarkNoop() handler not defined.'') [], True, n), f)"
  by (simp add: handler_simps)

lemma not_TryAgain_InvalidArgument: "\<not> IsTryAgain (InvalidArgument m m')"
  by (simp add: IsTryAgain_def InvalidArgument_def Status_msg_def)

text \<open>The classifier stops at the first noop, which its base class refuses.\<close>

lemma classifier_loop:
  assumes "list_all record_ok rs"
  shows "\<exists>r. Iterate_loop BatchContentClassifier OK (encode_records rs) e l eb n f =
    Some (r, f OR all_flags (takeWhile (\<lambda>r. r \<noteq> RNoop) rs))"
proof -
  let ?pre = "takeWhile (\<lambda>r. r \<noteq> RNoop) rs"
  have pre: "list_all record_ok ?pre" "list_all (\<lambda>r. r \<noteq> RNoop) ?pre"
    using assms by (auto simp: list_all_iff dest: set_takeWhileD)
  show ?thesis
  proof (cases "RNoop \<in> set rs")
    case False
    then have all: "?pre = rs" by (auto simp: takeWhile_eq_all_conv)
    show ?thesis
      using classifier.Iterate_loop_all [OF pre, of e l eb n f]
      unfolding all fold_record_flags by blast
  next
    case True
    let ?post = "tl (dropWhile (\<lambda>r. r \<noteq> RNoop) rs)"
    have "dropWhile (\<lambda>r. r \<noteq> RNoop) rs = RNoop # ?post"
      using True by (metis (mono_tags, lifting) dropWhile_eq_Nil_conv hd_dropWhile list.collapse)
    then have rs: "rs = ?pre @ RNoop # ?post" by (metis takeWhile_dropWhile_id)
    obtain e' l' eb' where "Iterate_loop BatchContentClassifier OK (encode_records rs) e l eb n f =
        Iterate_loop BatchContentClassifier OK (encode_record RNoop @ encode_records ?post) e' l' eb'
          (n + of_nat (num_entries ?pre)) (f OR all_flags ?pre)"
      using classifier.Iterate_loop_records [OF pre, of "encode_records (RNoop # ?post)" e l eb n f]
      by (subst (asm) encode_records_simps(3) [symmetric], subst (asm) rs [symmetric])
         (auto simp: fold_record_flags)
    then show ?thesis
      by (simp add: Iterate_loop_record classifier.continues classifier_noop Iterate_loop_stop
          not_TryAgain_InvalidArgument del: encode_record.simps handle.simps)
  qed
qed

lemma deferred_flags:
  assumes "represents np b rs"
  shows "map_option fst (ComputeContentFlags (WriteBatch_of_rep (wb_rep b))) =
    Some (all_flags (takeWhile (\<lambda>r. r \<noteq> RNoop) rs))"
proof -
  obtain h where h: "length h = 8"
    "wb_rep b = h @ EncodeFixed32 (of_nat (num_entries rs)) @ encode_records rs"
    using represents_rep [OF assms] .
  have "list_all record_ok rs" using assms by (simp add: represents_def)
  from classifier_loop [OF this, of batch_entry_init False True 0 0]
  show ?thesis
    using h by (auto simp: ComputeContentFlags_def WriteBatch_of_rep_def Iterate_def
        Iterate_range_def Let_def kHeader_def split: sum.splits prod.splits)
qed

section \<open>Protection\<close>

lemma all_prot_empty [simp]: "all_prot np rs = [] \<longleftrightarrow> num_entries rs = 0"
  by (metis length_0_conv length_all_prot)

lemma protected_record:
  assumes "counts r" and "be_value e = []"
  obtains tag where "protected_tag (be_tag (read_back False r e)) = Inr (Some tag)"
    and "StripKVO np (StripC np (hd (record_prot np r)) (be_column_family (read_back False r e)))
      (be_key (read_back False r e)) (be_value (read_back False r e)) tag = 0"
  using assms by (cases r) (auto simp: protected_tag_def value_type_defs)

lemma unprotected_record:
  "\<not> counts r \<Longrightarrow> protected_tag (be_tag (read_back False r e)) = Inr None"
  by (cases r) (auto simp: protected_tag_def value_type_defs)

lemma VerifyChecksum_loop_records:
  assumes "list_all record_ok rs"
  shows "VerifyChecksum_loop np (encode_records rs) e (all_prot np rs) n =
    Some (Inr (n + num_entries rs))"
  using assms
proof (induction rs arbitrary: e n)
  case Nil
  show ?case by (simp add: VerifyChecksum_loop.simps)
next
  case (Cons r rs)
  let ?e = "e\<lparr>be_key := [], be_value := []\<rparr>"
  have read: "ReadRecordFromWriteBatch False (encode_record r @ encode_records rs) ?e =
      Some (OK, encode_records rs, read_back False r ?e)"
    using Cons.prems by (simp add: ReadRecord_encode)
  have IH: "VerifyChecksum_loop np (encode_records rs) e' (all_prot np rs) m =
      Some (Inr (m + num_entries rs))" for e' m
    using Cons by simp
  show ?case
  proof (cases "counts r")
    case True
    then obtain v where v: "record_prot np r = [v]"
      using length_record_prot [of np r] by (cases "record_prot np r") auto
    obtain tag where "protected_tag (be_tag (read_back False r ?e)) = Inr (Some tag)"
      and "StripKVO np (StripC np v (be_column_family (read_back False r ?e)))
        (be_key (read_back False r ?e)) (be_value (read_back False r ?e)) tag = 0"
      using protected_record [OF True, of ?e np] v by auto
    then show ?thesis
      using True v by (subst VerifyChecksum_loop.simps) (simp add: read IH)
  next
    case False
    show ?thesis
    proof (cases "num_entries rs = 0")
      case True
      then show ?thesis using False by (simp add: VerifyChecksum_loop.simps)
    next
      case more: False
      then show ?thesis
        using False unprotected_record [OF False, of ?e]
        by (subst VerifyChecksum_loop.simps) (simp add: read IH)
    qed
  qed
qed

lemma represents_VerifyChecksum:
  assumes "represents np b rs"
  shows "VerifyChecksum np b = Some OK"
proof -
  obtain h where h: "length h = 8"
    "wb_rep b = h @ EncodeFixed32 (of_nat (num_entries rs)) @ encode_records rs"
    using represents_rep [OF assms] .
  have "list_all record_ok rs" "prot_info b = None \<or> prot_info b = Some (all_prot np rs)"
    using assms by (simp_all add: represents_def)
  then show ?thesis
    using h represents_Count(2) [OF assms]
    by (auto simp: VerifyChecksum_def kHeader_def VerifyChecksum_loop_records)
qed

section \<open>Appending\<close>

text \<open>
  The records that \<open>Append\<close> copies: all of them, or, for the log, those before the termination
  point if one was marked.
\<close>

definition copied :: "WriteBatch \<Rightarrow> wb_record list \<Rightarrow> bool \<Rightarrow> wb_record list \<Rightarrow> bool" where
  "copied src rs wal_only q \<longleftrightarrow>
     (if wal_only \<and> \<not> is_cleared (wal_term_point src)
      then prefix q rs \<and> wal_term_point src = save_of q else q = rs)"

lemma MarkWalTerminationPoint_save_of:
  "represents np b rs \<Longrightarrow> wal_term_point (MarkWalTerminationPoint b) = save_of rs"
  using LocalSavePoint_save_of [of np b rs] by (simp add: MarkWalTerminationPoint_def LocalSavePoint_def)

lemma cleared_point: "is_cleared SavePoint_cleared" "\<not> is_cleared (save_of q)"
  by (simp_all add: is_cleared_def save_of_def kHeader_def)

lemma wb_Count_prot_info [simp]: "wb_Count (b\<lparr>prot_info := x\<rparr>) = wb_Count b"
  by (simp add: wb_Count_def)

lemma small_count:
  assumes "n < 2 ^ 31"
  shows "unat (of_nat n :: u32) = n" and "sint (of_nat n :: u32) = int n"
proof -
  show "unat (of_nat n :: u32) = n" using assms by (intro unat_of_nat_small) simp
  have "signed_take_bit 31 (int n) = int n" using assms by (intro signed_take_bit_int_eq_self) simp_all
  then show "sint (of_nat n :: u32) = int n" by (simp add: signed_of_nat)
qed

lemma represents_consistent:
  assumes "represents np b rs"
  shows "\<not> (case prot_info b of None \<Rightarrow> False | Some es \<Rightarrow> length es \<noteq> unat (wb_Count b))"
  using assms represents_Count(2) [OF assms] by (auto simp: represents_def)

lemma Append_represents:
  assumes dst: "represents np dst rs" and src: "represents np src rs'"
    and copied: "copied src rs' wal_only q"
    and bound: "num_entries (rs @ rs') < 2 ^ 31"
    and prot: "num_entries rs = 0 \<or> (prot_info dst = None \<longleftrightarrow> prot_info src = None)"
  shows "\<exists>dst'. wb_Append dst src wal_only = Some (OK, dst') \<and> represents np dst' (rs @ q)"
proof -
  obtain h where h: "length h = 8"
    "wb_rep dst = h @ EncodeFixed32 (of_nat (num_entries rs)) @ encode_records rs"
    using represents_rep [OF dst] .
  obtain h' where h': "length h' = 8"
    "wb_rep src = h' @ EncodeFixed32 (of_nat (num_entries rs')) @ encode_records rs'"
    using represents_rep [OF src] .
  obtain q' where q': "rs' = q @ q'"
    using copied by (auto simp: copied_def prefix_def split: if_splits)
  have "num_entries q < 2 ^ 31" using bound q' by simp
  note count = small_count [OF this]
  let ?point = "if wal_only \<and> \<not> is_cleared (wal_term_point src) then wal_term_point src
    else \<lparr>sp_size = length (wb_rep src), sp_count = wb_Count src, sp_content_flags = content_flags src\<rparr>"
  have "?point = save_of q"
    using copied LocalSavePoint_save_of [OF src] by (auto simp: copied_def LocalSavePoint_def)
  then have ends: "(if wal_only \<and> \<not> is_cleared (wal_term_point src)
      then (sp_size (wal_term_point src), sp_count (wal_term_point src), sp_content_flags (wal_term_point src))
      else (length (wb_rep src), wb_Count src, content_flags src)) =
    (kHeader + length (encode_records q), of_nat (num_entries q), all_flags (map as_flagged q))"
    by (auto simp: save_of_def kHeader_def split: if_splits)
  note ok = represents_consistent [OF src] represents_consistent [OF dst]
  have defined: "\<not> (case prot_info src of None \<Rightarrow> False
      | Some es \<Rightarrow> sint (of_nat (num_entries q) :: u32) < 0 \<or> sint (of_nat (num_entries q) :: u32) > int (length es))"
    using src q' by (auto simp: count represents_def split: option.splits)
  have size: "kHeader + length (encode_records q) \<le> length (wb_rep src)" by (simp add: h' q' kHeader_def)
  define d where "d = snd (the (wb_Append dst src wal_only))"
  have append: "wb_Append dst src wal_only = Some (OK, d)"
    using ok defined size unfolding d_def wb_Append_def Let_def ends by simp
  have "represents np d (rs @ q)"
    by (rule representsI [where h = h])
       (use h h' q' ends ok count defined size src dst bound prot represents_Count(1) [OF dst] in
         \<open>auto simp: d_def wb_Append_def Let_def SetCount_def represents_def kHeader_def\<close>)
  with append show ?thesis by blast
qed

lemma Append_undefined:
  assumes src: "represents np src rs'" and dst: "represents np dst rs"
    and "wal_term_point src = save_of q" and "length (encode_records rs') < length (encode_records q)"
  shows "wb_Append dst src True = None"
proof -
  obtain h' where "length h' = 8"
    "wb_rep src = h' @ EncodeFixed32 (of_nat (num_entries rs')) @ encode_records rs'"
    using represents_rep [OF src] .
  then have "sp_size (save_of q) > length (wb_rep src)" using assms(4) by (simp add: save_of_def kHeader_def)
  then show ?thesis
    using represents_consistent [OF src] represents_consistent [OF dst] assms(3)
    by (simp add: wb_Append_def Let_def is_cleared_def)
qed

section \<open>Properties\<close>

lemma as_flagged_id: "r \<noteq> RBeginUnprepare \<Longrightarrow> as_flagged r = r"
  by (cases r) simp_all

lemma run_represents:
  assumes "run np (WriteBatch_make mx p d) xs ([], []) = (b, rs, st)"
    and "list_all (action_fits d) xs" and "length xs < 2 ^ 32"
  shows "simulates np b (rs, st)" and "represents np b rs"
    and "default_cf_ts_sz b \<in> {d, 0}" and "num_entries rs \<le> length xs"
    and "wal_term_point b = SavePoint_cleared"
proof -
  have "simulates np (WriteBatch_make mx p d) ([], [])"
    by (simp add: simulates_def represents_make stack_of_def) (simp add: WriteBatch_make_def)
  from run_simulates [OF this assms(2) _ _ assms(1)] show sim: "simulates np b (rs, st)"
    and "default_cf_ts_sz b \<in> {d, 0}" and "num_entries rs \<le> length xs"
    and "wal_term_point b = SavePoint_cleared"
    using assms(3) by (simp_all add: WriteBatch_make_def)
  then show "represents np b rs" by (simp add: simulates_def)
qed

text \<open>Runs of a few operations, for the examples below.\<close>

lemmas run_eval =
  WriteBatch_make_def wb_Put_def wb_Delete_def GetColumnFamilyIdAndTimestampSize_def
  GetColumnFamilyID_def ts_size_def wbi_Put_def wbi_Delete_def PutLogData_def InsertNoop_def
  SetSavePoint_def RollbackToSavePoint_def MarkWalTerminationPoint_def LocalSavePoint_def commit_def
  increment_count_def push_tag_def push_back_def put_slice_def or_flag_def emplace_prot_def
  SetCount_def wb_Count_def u32_max_def resize_def kHeader_def MaybeTrackTimestampSize_def Let_def
  PutLengthPrefixedSlice_eq EncodeSlice_def

lemmas fits_eval = action_fits_def op_fits_def slice_ok_def ts_size_def

definition demo_actions :: "wb_action list" where
  "demo_actions =
     [Do (OpPut None [1] [2]), SetSave, Do (OpDelete None [3]), RollbackSave, Do (OpLogData [4])]"

lemma demo_run:
  "\<exists>b st. run np (WriteBatch_make 0 p 0) demo_actions ([], []) =
     (b, [RPut 0 [1] [2], RLogData [4]], st)"
  by (simp add: run_eval demo_actions_def)

lemma varint_one: "EncodeVarint32 1 = [1]"
  by code_simp

lemma limit_run:
  "\<exists>b st s b'. run np (WriteBatch_make 20 0 0) [Do (OpPut None [1] [2])] ([], []) =
       (b, [RPut 0 [1] [2]], st) \<and> default_cf_ts_sz b = 0 \<and>
     exec np b (OpPut None [3] [4]) = (s, b') \<and> \<not> ok s"
  by (simp add: run_eval varint_one not_ok_code)

lemma noop_run:
  "\<exists>b st. run np (WriteBatch_make 0 0 0) [Do OpNoop, Do (OpPut None [1] [2])] ([], []) =
     (b, [RNoop, RPut 0 [1] [2]], st) \<and> content_flags b = 2"
  by (simp add: run_eval)

lemma append_runs:
  "\<exists>dst st. run np (WriteBatch_make 0 0 0) [Do (OpPut None [1] [2])] ([], []) =
     (dst, [RPut 0 [1] [2]], st) \<and> prot_info dst = None"
  "\<exists>m mst src st. run np (WriteBatch_make 0 0 0) [Do (OpPut None [3] [4])] ([], []) =
       (m, [RPut 0 [3] [4]], mst) \<and>
     run np (MarkWalTerminationPoint m) [Do (OpDelete None [5])] ([RPut 0 [3] [4]], mst) =
       (src, [RPut 0 [3] [4], RDelete 0 [5]], st) \<and> prot_info src = None \<and> prot_info m = None"
  by (simp_all add: run_eval)

text \<open>
  C3: A write batch is a list of records with a stack of save points. After any sequence of
  operations, save points, rollbacks and clearings of a new batch, with any size limit, iterating
  over the batch succeeds and hands the handler exactly the records of the operations that were
  accepted and not rolled back, in order; the count in the header is the number of entries among
  them, and a rollback finds a save point exactly when the stack has one.
\<close>

theorem WriteBatch_refines_record_list:
  assumes "run np (WriteBatch_make mx p d) xs ([], []) = (b, rs, st)"
    and "list_all (action_fits d) xs" and "length xs < 2 ^ 32"
  shows "Iterate b recorder [] = Some (OK, map observed rs) \<and>
    unat (wb_Count b) = num_entries rs \<and>
    stack_of b = map save_of st \<and>
    (ok (fst (RollbackToSavePoint b)) \<longleftrightarrow> st \<noteq> [])"
proof -
  note sim = run_represents [OF assms]
  have "ok (fst (RollbackToSavePoint b)) \<longleftrightarrow> st \<noteq> []"
  proof (cases st)
    case Nil
    then show ?thesis
      using sim(1) by (auto simp: simulates_def stack_of_def RollbackToSavePoint_def not_ok_code
          split: option.splits)
  next
    case (Cons p ps)
    then show ?thesis using RollbackToSavePoint_simulates [of np b rs p ps] sim(1) by auto
  qed
  then show ?thesis
    using Iterate_recorder [OF sim(2)] represents_Count(2) [OF sim(2)] sim(1)
    by (simp add: simulates_def)
qed

theorem WriteBatch_refines_record_list_witness:
  "\<exists>b st. run (\<lambda>_ _. 0) (WriteBatch_make 0 0 0) demo_actions ([], []) =
       (b, [RPut 0 [1] [2], RLogData [4]], st) \<and>
     list_all (action_fits 0) demo_actions \<and> length demo_actions < 2 ^ 32 \<and>
     Iterate b recorder [] = Some (OK, [RPut 0 [1] [2], RLogData [4]]) \<and> unat (wb_Count b) = 1"
proof -
  obtain b st where r: "run (\<lambda>_ _. 0) (WriteBatch_make 0 0 0) demo_actions ([], []) =
      (b, [RPut 0 [1] [2], RLogData [4]], st)"
    using demo_run by blast
  have "list_all (action_fits 0) demo_actions \<and> length demo_actions < 2 ^ 32"
    by (simp add: demo_actions_def fits_eval)
  with WriteBatch_refines_record_list [OF r] r show ?thesis by simp
qed

text \<open>
  C8: An operation is accepted exactly when its column family takes it, its key and value pass the
  size checks and the batch stays within its limit. An accepted operation grows the batch by
  its record; a refused one changes neither the bytes nor the flags, the protection or the save
  points.
\<close>

theorem write_accepted_iff_within_limit:
  assumes "run np (WriteBatch_make mx p d) xs ([], []) = (b, rs, st)"
    and "list_all (action_fits d) xs" and "length xs < 2 ^ 32"
    and "op_fits (default_cf_ts_sz b) op" and "exec np b op = (s, b')"
  shows "(ok s \<longleftrightarrow> admissible b op \<and> within_limit (op_record (default_cf_ts_sz b) op) b) \<and>
    (if ok s
     then length (wb_rep b') = length (wb_rep b) +
            length (encode_record (op_record (default_cf_ts_sz b) op))
     else wb_rep b' = wb_rep b \<and> content_flags b' = content_flags b \<and>
          prot_info b' = prot_info b \<and> save_points b' = save_points b)"
proof -
  let ?r = "op_record (default_cf_ts_sz b) op"
  have rep: "represents np b rs" using run_represents [OF assms(1-3)] by simp
  have out: "outcome np ?r b (admissible b op) (s, b')"
    using exec_outcome [OF rep assms(4)] assms(5) by simp
  have len: "length (wb_rep (add_record np ?r b)) = length (wb_rep b) + length (encode_record ?r)"
    using represents_length [OF rep] by (simp add: add_record_def Let_def SetCount_def)
  show ?thesis
    using out len core_fields [of b' b] core_fields [of b' "add_record np ?r b"]
    by (auto simp: outcome_def)
qed

theorem write_accepted_iff_within_limit_witness:
  "\<exists>b st s b'. run (\<lambda>_ _. 0) (WriteBatch_make 20 0 0) [Do (OpPut None [1] [2])] ([], []) =
       (b, [RPut 0 [1] [2]], st) \<and>
     exec (\<lambda>_ _. 0) b (OpPut None [3] [4]) = (s, b') \<and> \<not> ok s \<and> wb_rep b' = wb_rep b"
proof -
  obtain b st s b' where r: "run (\<lambda>_ _. 0) (WriteBatch_make 20 0 0) [Do (OpPut None [1] [2])] ([], []) =
      (b, [RPut 0 [1] [2]], st)" and "default_cf_ts_sz b = 0"
    and e: "exec (\<lambda>_ _. 0) b (OpPut None [3] [4]) = (s, b')" and "\<not> ok s"
    using limit_run by blast
  with write_accepted_iff_within_limit [OF r _ _ _ e] show ?thesis
    by (auto simp: fits_eval)
qed

text \<open>
  C11: The content flags of a batch that is taken over as bytes are those of its records up to the
  first noop, where the classification ends. Without noops and markers of unprepared batches
  they are the flags that the batch was built with.
\<close>

theorem deferred_flags_stop_at_noop:
  assumes "run np (WriteBatch_make mx p d) xs ([], []) = (b, rs, st)"
    and "list_all (action_fits d) xs" and "length xs < 2 ^ 32"
  shows "map_option fst (ComputeContentFlags (WriteBatch_of_rep (wb_rep b))) =
      Some (all_flags (takeWhile (\<lambda>r. r \<noteq> RNoop) rs)) \<and>
    (RNoop \<notin> set rs \<and> RBeginUnprepare \<notin> set rs \<longrightarrow>
      map_option fst (ComputeContentFlags (WriteBatch_of_rep (wb_rep b))) = Some (content_flags b))"
proof -
  have rep: "represents np b rs" using run_represents [OF assms] by simp
  have flags: "content_flags b = all_flags (map as_flagged rs)"
    using rep by (simp add: represents_def)
  have "content_flags b = all_flags (takeWhile (\<lambda>r. r \<noteq> RNoop) rs)"
    if "RNoop \<notin> set rs" "RBeginUnprepare \<notin> set rs"
  proof -
    have "map as_flagged rs = rs"
      using that(2) by (intro map_idI) (metis as_flagged_id)
    moreover have "takeWhile (\<lambda>r. r \<noteq> RNoop) rs = rs"
      using that(1) by (auto simp: takeWhile_eq_all_conv)
    ultimately show ?thesis by (simp only: flags)
  qed
  then show ?thesis unfolding deferred_flags [OF rep] by metis
qed

theorem deferred_flags_stop_at_noop_witness:
  "\<exists>b st. run (\<lambda>_ _. 0) (WriteBatch_make 0 0 0) [Do OpNoop, Do (OpPut None [1] [2])] ([], []) =
       (b, [RNoop, RPut 0 [1] [2]], st) \<and> content_flags b = 2 \<and>
     map_option fst (ComputeContentFlags (WriteBatch_of_rep (wb_rep b))) = Some 0"
proof -
  obtain b st where r: "run (\<lambda>_ _. 0) (WriteBatch_make 0 0 0)
      [Do OpNoop, Do (OpPut None [1] [2])] ([], []) = (b, [RNoop, RPut 0 [1] [2]], st)"
    and "content_flags b = 2"
    using noop_run by blast
  with deferred_flags_stop_at_noop [OF r] show ?thesis by (auto simp: fits_eval)
qed

text \<open>
  C9: Whatever the hash function, the protection of a batch passes its verification after any
  sequence of operations, and protecting the finished batch afterwards gives the protection it
  would have been built with.
\<close>

theorem protection_verifies:
  assumes "run np (WriteBatch_make mx p d) xs ([], []) = (b, rs, st)"
    and "list_all (action_fits d) xs" and "length xs < 2 ^ 32"
  shows "VerifyChecksum np b = Some OK \<and>
    UpdateProtectionInfo np xxh (b\<lparr>prot_info := None\<rparr>) 8 None =
      Some (OK, b\<lparr>prot_info := Some (all_prot np rs)\<rparr>) \<and>
    (prot_info b \<noteq> None \<longrightarrow>
      UpdateProtectionInfo np xxh (b\<lparr>prot_info := None\<rparr>) 8 None = Some (OK, b))"
proof -
  have rep: "represents np b rs" using run_represents [OF assms] by simp
  have "Iterate (b\<lparr>prot_info := None\<rparr>) (ProtectionInfoUpdater np) [] = Some (OK, all_prot np rs)"
    by (rule updater_Iterate [OF rep]) simp
  then have "UpdateProtectionInfo np xxh (b\<lparr>prot_info := None\<rparr>) 8 None =
      Some (OK, b\<lparr>prot_info := Some (all_prot np rs)\<rparr>)"
    by (simp add: UpdateProtectionInfo_def)
  moreover have "b\<lparr>prot_info := Some (all_prot np rs)\<rparr> = b" if "prot_info b \<noteq> None"
    using that rep by (auto simp: represents_def intro!: WriteBatch.equality)
  ultimately show ?thesis using represents_VerifyChecksum [OF rep] by simp
qed

theorem protection_verifies_witness:
  "\<exists>b st. run (\<lambda>s seed. of_nat (length s) + seed) (WriteBatch_make 0 8 0) demo_actions ([], []) =
       (b, [RPut 0 [1] [2], RLogData [4]], st) \<and>
     VerifyChecksum (\<lambda>s seed. of_nat (length s) + seed) b = Some OK"
proof -
  obtain b st where r: "run (\<lambda>s seed. of_nat (length s) + seed) (WriteBatch_make 0 8 0) demo_actions
      ([], []) = (b, [RPut 0 [1] [2], RLogData [4]], st)"
    using demo_run by blast
  have "list_all (action_fits 0) demo_actions" by (simp add: demo_actions_def fits_eval)
  with protection_verifies [OF r] r show ?thesis by (simp add: demo_actions_def)
qed

text \<open>
  C10: Appending a batch to another, for fewer than \<open>2 ^ 31\<close> operations in all. A batch whose
  termination point for the log was never marked is appended whole, for the log too. Of a batch
  that was marked, the log is given the records it had when it was marked, and any other reader all
  of them; marking is undone when the batch is cleared. The result iterates over both lists of
  records in order and its protection verifies. This asks that the batch was not rolled back
  behind the mark: if that left it shorter than it was when marked, \<open>Append\<close> for the log reads past the
  end of the batch.
\<close>

theorem Append_concatenates_records:
  assumes "run np (WriteBatch_make mx p d) xs ([], []) = (dst, rs, st)"
    and "run np (WriteBatch_make mx' p' d') ys ([], []) = (plain, q, qst)"
    and "run np (MarkWalTerminationPoint plain) zs (q, qst) = (src, rs', st')"
    and "list_all (action_fits d) xs" and "list_all (action_fits d') (ys @ zs)"
    and "length xs + length ys + length zs < 2 ^ 31"
    and "num_entries rs = 0 \<or>
      (prot_info dst = None \<longleftrightarrow> prot_info plain = None) \<and> (prot_info dst = None \<longleftrightarrow> prot_info src = None)"
  shows "(\<exists>dst'. wb_Append dst plain wal_only = Some (OK, dst') \<and>
      Iterate dst' recorder [] = Some (OK, map observed (rs @ q)) \<and> VerifyChecksum np dst' = Some OK) \<and>
    (ClearAll \<in> set zs \<or> prefix q rs' \<longrightarrow>
      (\<exists>dst'. wb_Append dst src wal_only = Some (OK, dst') \<and>
        Iterate dst' recorder [] =
          Some (OK, map observed (rs @ (if wal_only \<and> ClearAll \<notin> set zs then q else rs'))) \<and>
        VerifyChecksum np dst' = Some OK)) \<and>
    (ClearAll \<notin> set zs \<and> length (encode_records rs') < length (encode_records q) \<longrightarrow>
      wb_Append dst src True = None)"
proof -
  have dst: "represents np dst rs" and xs: "num_entries rs \<le> length xs"
    using run_represents [OF assms(1,4)] assms(6) by simp_all
  have plain: "simulates np plain (q, qst)" "represents np plain q"
      "default_cf_ts_sz plain \<in> {d', 0}" "num_entries q \<le> length ys" "wal_term_point plain = SavePoint_cleared"
    using run_represents [OF assms(2)] assms(5,6) by simp_all
  let ?m = "MarkWalTerminationPoint plain"
  have "simulates np ?m (q, qst)"
    using plain(1) by (simp add: simulates_def stack_of_def represents_def MarkWalTerminationPoint_def)
  from run_simulates [OF this, of d' zs src "(rs', st')"]
  have src: "represents np src rs'" and zs: "num_entries rs' \<le> num_entries q + length zs"
    and wal: "wal_term_point src = (if ClearAll \<in> set zs then SavePoint_cleared else save_of q)"
    using assms(3,5,6) plain MarkWalTerminationPoint_save_of [OF plain(2)]
    by (auto simp: simulates_def MarkWalTerminationPoint_def)
  have whole: "copied plain q wal_only q" using plain(5) by (simp add: copied_def cleared_point)
  have marked: "copied src rs' wal_only (if wal_only \<and> ClearAll \<notin> set zs then q else rs')"
    if "ClearAll \<in> set zs \<or> prefix q rs'"
    using that wal cleared_point by (auto simp: copied_def)
  have bound: "num_entries (rs @ q) < 2 ^ 31" "num_entries (rs @ rs') < 2 ^ 31"
    using xs zs plain(4) assms(6) by simp_all
  have prot: "num_entries rs = 0 \<or> (prot_info dst = None \<longleftrightarrow> prot_info plain = None)"
    "num_entries rs = 0 \<or> (prot_info dst = None \<longleftrightarrow> prot_info src = None)"
    using assms(7) by blast+
  show ?thesis
    using Append_represents [OF dst plain(2) whole bound(1) prot(1)]
      Append_represents [OF dst src marked bound(2) prot(2)] Append_undefined [OF src dst, of q] wal
      Iterate_recorder represents_VerifyChecksum
    by meson
qed

theorem Append_concatenates_records_witness:
  "\<exists>dst st m mst src st' dst'.
     run (\<lambda>_ _. 0) (WriteBatch_make 0 0 0) [Do (OpPut None [1] [2])] ([], []) =
       (dst, [RPut 0 [1] [2]], st) \<and>
     run (\<lambda>_ _. 0) (WriteBatch_make 0 0 0) [Do (OpPut None [3] [4])] ([], []) =
       (m, [RPut 0 [3] [4]], mst) \<and>
     run (\<lambda>_ _. 0) (MarkWalTerminationPoint m) [Do (OpDelete None [5])] ([RPut 0 [3] [4]], mst) =
       (src, [RPut 0 [3] [4], RDelete 0 [5]], st') \<and>
     wb_Append dst src True = Some (OK, dst') \<and>
     Iterate dst' recorder [] = Some (OK, [RPut 0 [1] [2], RPut 0 [3] [4]])"
proof -
  obtain dst st where d: "run (\<lambda>_ _. 0) (WriteBatch_make 0 0 0) [Do (OpPut None [1] [2])] ([], []) =
      (dst, [RPut 0 [1] [2]], st)" "prot_info dst = None"
    using append_runs(1) by blast
  obtain m mst src st' where
      m: "run (\<lambda>_ _. 0) (WriteBatch_make 0 0 0) [Do (OpPut None [3] [4])] ([], []) =
        (m, [RPut 0 [3] [4]], mst)"
    and s: "run (\<lambda>_ _. 0) (MarkWalTerminationPoint m) [Do (OpDelete None [5])]
        ([RPut 0 [3] [4]], mst) = (src, [RPut 0 [3] [4], RDelete 0 [5]], st')" "prot_info src = None"
      "prot_info m = None"
    using append_runs(2) by blast
  from Append_concatenates_records [OF d(1) m s(1), of True]
  obtain dst' where "wb_Append dst src True = Some (OK, dst')"
    and "Iterate dst' recorder [] = Some (OK, [RPut 0 [1] [2], RPut 0 [3] [4]])"
    using d(2) s(2,3) by (auto simp: fits_eval)
  with d(1) m s(1) show ?thesis by blast
qed

end
