(* ===== verification/Spec2Isabelle.thy ===== *)
theory Spec2Isabelle
  imports Log Compaction_Merge Block_Limits Write_Batch_Run
begin

text \<open>
  A verification of the storage engine that Oxigraph embeds: the C++ code under
  \<open>src/oxigraph/oxrocksdb-sys\<close>, which is RocksDB (\<open>rocksdb/\<close>), the LZ4 library (\<open>lz4/\<close>) and a
  C interface (\<open>api/\<close>). Paths below are relative to \<open>rocksdb/\<close>.

  \<^bold>\<open>The program.\<close> A write is a batch of operations. The batch is appended to a write-ahead log, a
  file of checksummed fragments, and inserted into a memtable under internal keys: the user key
  followed by eight bytes that pack a sequence number and a value type. Full memtables and the
  results of compactions become tables, files of blocks of delta-encoded entries in internal key
  order. A compaction merges tables with a heap of iterators. All of it rests on byte-level
  encodings of integers and strings, on comparators of keys, on checksums and hashes, and on
  \<open>Status\<close> values for errors.

  \<^bold>\<open>Conventions.\<close> A \<open>Slice\<close> or a \<open>std::string\<close> is the list of its bytes, a pointer into a buffer is
  the suffix it points to, and a fixed-width integer is a word of that width, so that overflow
  wraps as it does in the code; sizes that the code keeps in \<open>size_t\<close> are natural numbers, and so
  are the 32-bit offsets into a block, which are reduced modulo \<open>2 ^ 32\<close> where they are computed. A parser that moves a \<open>Slice*\<close> returns the new slice also when it fails. Objects are
  records and methods take and return the record; a loop is a recursive function with a
  termination proof, or, where it depends on data that may be corrupt, a partial function into
  an option whose value \<open>None\<close> is a loop that never ends. The readers of write batches and
  \<open>wb_Append\<close> have the value \<open>None\<close> for undefined behaviour. No definition uses fuel. Assertions are
  compiled out of the code that is built; where a property relies on one, it is a hypothesis.

  \<^bold>\<open>The theories.\<close>

  \<^descr> \<open>Prelude\<close>: machine types, theorem collections and generic lemmas on words and lists.
  \<^descr> \<open>Coding\<close>: \<open>util/coding_lean.h\<close>, \<open>util/coding.h\<close>, \<open>util/coding.cc\<close>. Fixed-width integers,
    varints, zigzag integers and length-prefixed slices, with the round trips, and the equality
    of the unrolled and the looping varint encoders.
  \<^descr> \<open>Slices\<close>, \<open>Status\<close>: \<open>include/rocksdb/slice.h\<close>, \<open>util/slice.cc\<close>, \<open>include/rocksdb/status.h\<close>,
    \<open>util/status.cc\<close>. Comparison is the lexicographic order; hexadecimal text round-trips; the
    first failure of a chain is kept; one subcode has no message.
  \<^descr> \<open>Comparators\<close>: \<open>util/comparator.cc\<close>. The bytewise, reverse and timestamped orders are total,
    and the short separators and successors that index blocks use are between their keys. The
    locale \<open>user_comparator\<close> is the contract the rest of the engine has with a comparator, and is
    interpreted on each of them.
  \<^descr> \<open>Dbformat\<close>: \<open>db/dbformat.h\<close>, \<open>db/dbformat.cc\<close>, \<open>db/lookup_key.h\<close>. Internal keys, their
    parsing, the internal comparator with its overloads, lookup keys and timestamps; a seek to a
    lookup key finds the newest visible version.
  \<^descr> \<open>Iter_Key\<close>: \<open>IterKey\<close> of \<open>db/dbformat.h\<close>, the key of an iterator in one of two buffers or
    outside both, and delta decoding into it. A copy that leaves its buffer is noted in the state;
    in the reachable states none was made.
  \<^descr> \<open>Crc32c\<close>, \<open>Hash\<close>: \<open>util/crc32c.cc\<close>, \<open>util/hash.cc\<close>. The table-driven checksum equals the
    bitwise one and combining equals concatenating.
  \<^descr> \<open>Log_Format\<close>, \<open>Log_Writer\<close>, \<open>Log_Reader\<close>, \<open>Log\<close>: \<open>db/log_format.h\<close>, \<open>db/log_writer.cc\<close>,
    \<open>db/log_reader.cc\<close>. Everything written without failures is read back in every recovery mode;
    two theorems show what the reader does with headers that no writer writes, for every type byte
    the format leaves undefined.
  \<^descr> \<open>Binary_Heap\<close>, \<open>Compaction_Merge\<close>: \<open>util/heap.h\<close>, \<open>table/compaction_merging_iterator.cc\<close>.
    The heap refines a multiset; the merge outputs every entry and range tombstone start once, in
    order, and ends. The iterators it merges are the environment: lists of entries with their
    seek positions.
  \<^descr> \<open>Block_Builder\<close>, \<open>Block_Iter\<close>: \<open>table/block_based/block_builder.cc\<close>, \<open>data_block_footer.cc\<close>,
    \<open>data_block_hash_index.cc\<close>, \<open>block.cc\<close>, \<open>block.h\<close>. \<open>Blocks\<close>, \<open>Data_Blocks\<close>, \<open>Block_Build\<close> and
    \<open>Block_Round_Trip\<close> prove that the iterators over a block the builder wrote refine a cursor over
    the list of its entries. The locales \<open>entry_decoder\<close>, \<open>block_parser\<close> and \<open>block_cursor\<close> state what
    a seek needs of decoding and of stepping, and are interpreted on the data and on the meta
    block iterators.

  \<^descr> \<open>Block_Lookup\<close>, \<open>Block_Termination\<close>, \<open>Block_Limits\<close>: point lookups through the hash index
    agree with seeks; every operation of the meta block iterators returns whatever the bytes of
    the block are, and every operation of the data block iterators if each entry that can be
    decoded ends behind its start, which is a condition because offsets have 32 bits: a corrupt
    length can make an entry its own successor, and then \<open>SeekToLast\<close> does not return (the locales
    \<open>advancing_parser\<close> and \<open>descending_cursor\<close> state the measures); the sizes a
    builder reports, what \<open>Reset\<close> resets, and the overflow in the bounds check of meta blocks.

  \<^descr> \<open>Kv_Checksum\<close>, \<open>Write_Batch\<close>: \<open>db/kv_checksum.h\<close>, \<open>db/write_batch.cc\<close>,
    \<open>db/write_batch_internal.h\<close>, \<open>include/rocksdb/write_batch.h\<close>. The serialized batch, its
    operations and save points, its iteration over a handler, its content flags and its
    per-entry protection; the hash of the protection is an argument, any function.
    \<open>Write_Batch_Records\<close>, \<open>Write_Batch_Spec\<close> and \<open>Write_Batch_Run\<close> prove that a batch refines a
    list of records with a stack of save points, when an operation is accepted, what the flags of
    a batch taken over as bytes are, that its protection verifies, and that appending
    concatenates. The locale \<open>accepting_handler\<close> is the contract of a handler; it is interpreted
    on the classifier, on the protection updater and on a recording handler.

  \<^bold>\<open>Bounds.\<close> Blocks are below 4 GiB, keys and values below 4 GiB, timestamps at most eight bytes,
  and a batch holds fewer than \<open>2 ^ 32\<close> entries, or \<open>2 ^ 31\<close> where it is appended: these are the limits of the formats, and hypotheses where a property needs them.

  \<^bold>\<open>Not modelled.\<close> The processor-specific checksum routines, streaming compression of logs,
  per-entry checksums of blocks and the read-amplification bitmap; in write batches the wide-column
  serialization, the in-place update of timestamps, which writes through pointers into the batch
  that is being read, and the inserter into the memtable; table footers and index blocks,
  filters, version edits, memtables and caches, which are passive data structures of the same kind
  that this development does not reach; threads, locks, files and the
  environment; options, statistics, tools, bindings and tests, which have no state of their own
  that the modelled parts depend on; and the parts listed in the manifest with their reasons.
\<close>

end
